(* ===== verification/Prelude.thy ===== *)
theory Prelude
  imports Main "HOL-Library.Word" "HOL-Library.Signed_Division" "HOL-Library.Monad_Syntax"
begin

section \<open>Prelude: C integers, decimal output, runs of step relations\<close>

text \<open>
  What every component shares. C's fixed-width unsigned integers are words; signed arithmetic
  whose overflow is undefined in C is done on \<^typ>\<open>int\<close> through \<open>chk\<close>, which returns \<^const>\<open>None\<close>
  where the exact result does not fit the width. The two locales at the end are the interface
  between a component's step relation and its safety theorems: \<open>inductive_invariant\<close> lifts an
  invariant of single steps to all runs, \<open>simulation\<close> lifts a step-by-step refinement to runs.
\<close>

unbundle bit_operations_syntax

type_synonym byte = "8 word"
type_synonym u32 = "32 word"
type_synonym u64 = "64 word"

named_theorems c_arith \<open>facts about the width-checked signed arithmetic\<close>
named_theorems step_defs \<open>definitions a step proof unfolds\<close>

subsection \<open>Signed arithmetic with undefined overflow\<close>

definition fits :: "nat \<Rightarrow> int \<Rightarrow> bool" where
  "fits w x \<longleftrightarrow> - (2 ^ (w - 1)) \<le> x \<and> x < 2 ^ (w - 1)"

definition chk :: "nat \<Rightarrow> int \<Rightarrow> int option" where
  "chk w x = (if fits w x then Some x else None)"

abbreviation i32 :: "int \<Rightarrow> int option" where "i32 \<equiv> chk 32"
abbreviation i64 :: "int \<Rightarrow> int option" where "i64 \<equiv> chk 64"

lemma chk_Some_iff [c_arith]: "chk w x = Some y \<longleftrightarrow> fits w x \<and> y = x"
  by (auto simp: chk_def)

lemma chk_fits [c_arith]: "fits w x \<Longrightarrow> chk w x = Some x"
  by (simp add: chk_def)

lemma fits64 [c_arith]: "fits 64 x \<longleftrightarrow> - 9223372036854775808 \<le> x \<and> x < 9223372036854775808"
  by (simp add: fits_def)

lemma fits32 [c_arith]: "fits 32 x \<longleftrightarrow> - 2147483648 \<le> x \<and> x < 2147483648"
  by (simp add: fits_def)

text \<open>
  C's \<open>/\<close> and \<open>%\<close> truncate towards zero (\<open>sdiv\<close>, \<open>smod\<close> of the library); on non-negative
  operands they agree with \<open>div\<close> and \<open>mod\<close>.
\<close>

lemma sdiv_nonneg [c_arith]: "0 \<le> a \<Longrightarrow> 0 < b \<Longrightarrow> (a::int) sdiv b = a div b"
  by (auto simp: signed_divide_int_def sgn_if)

lemma smod_nonneg [c_arith]: "0 \<le> a \<Longrightarrow> 0 < b \<Longrightarrow> (a::int) smod b = a mod b"
  by (cases "a = 0") (auto simp: signed_modulo_int_def sgn_if)

subsection \<open>Decimal output of printf\<close>

fun show_nat :: "nat \<Rightarrow> string" where
  "show_nat n = (if n < 10 then [char_of (48 + n)]
                 else show_nat (n div 10) @ [char_of (48 + n mod 10)])"

declare show_nat.simps [simp del]

text \<open>The digits as characters, for the evaluation of concrete outputs.\<close>

lemma char_of_digits [simp]:
  "(char_of (48::nat) :: char) = CHR ''0'' \<and> (char_of (49::nat) :: char) = CHR ''1'' \<and>
   (char_of (50::nat) :: char) = CHR ''2'' \<and> (char_of (51::nat) :: char) = CHR ''3'' \<and>
   (char_of (52::nat) :: char) = CHR ''4'' \<and> (char_of (53::nat) :: char) = CHR ''5'' \<and>
   (char_of (54::nat) :: char) = CHR ''6'' \<and> (char_of (55::nat) :: char) = CHR ''7'' \<and>
   (char_of (56::nat) :: char) = CHR ''8'' \<and> (char_of (57::nat) :: char) = CHR ''9''"
  by code_simp

definition show_int :: "int \<Rightarrow> string" where
  "show_int i = (if i < 0 then CHR ''-'' # show_nat (nat (- i)) else show_nat (nat i))"

fun read_nat :: "string \<Rightarrow> nat" where
  "read_nat s = foldl (\<lambda>acc c. 10 * acc + (of_char c - 48)) 0 s"

declare read_nat.simps [simp del]

lemma show_nat_read: "read_nat (show_nat n) = n"
proof (induction n rule: show_nat.induct)
  case (1 n)
  show ?case
  proof (cases "n < 10")
    case True
    then show ?thesis by (subst show_nat.simps) (simp add: read_nat.simps)
  next
    case False
    with "1.IH" have "foldl (\<lambda>acc c. 10 * acc + (of_char c - 48)) 0 (show_nat (n div 10)) = n div 10"
      by (simp add: read_nat.simps)
    with False show ?thesis by (subst show_nat.simps) (simp add: read_nat.simps)
  qed
qed

lemma show_nat_inject: "show_nat a = show_nat b \<longleftrightarrow> a = b"
  by (metis show_nat_read)

lemma length_show_nat: "n < 10 ^ k \<Longrightarrow> 0 < k \<Longrightarrow> length (show_nat n) \<le> k"
proof (induction n arbitrary: k rule: show_nat.induct)
  case (1 n)
  show ?case
  proof (cases "n < 10")
    case True
    with "1.prems" show ?thesis by (subst show_nat.simps) simp
  next
    case False
    then obtain j where k: "k = Suc j" "0 < j"
      using "1.prems" by (cases k; cases "k - 1") auto
    with "1.prems" have "n div 10 < 10 ^ j"
      by (simp add: less_mult_imp_div_less mult.commute)
    with "1.IH" False k have "length (show_nat (n div 10)) \<le> j" by blast
    with False k show ?thesis by (subst show_nat.simps) simp
  qed
qed

subsection \<open>Running minima and maxima\<close>

lemma Min_insert_min: "finite S \<Longrightarrow> Min (insert (min a b) S) = Min (insert b (insert (a :: int) S))"
  by (cases "S = {}") (auto simp: min.commute min.left_commute min.assoc)

lemma Max_insert_max: "finite S \<Longrightarrow> Max (insert (max a b) S) = Max (insert b (insert (a :: int) S))"
  by (cases "S = {}") (auto simp: max.commute max.left_commute max.assoc)

subsection \<open>Runs of a step relation\<close>

lemma replicate_numeral: "replicate (numeral k) x = x # replicate (pred_numeral k) x"
  by (simp add: numeral_eq_Suc)

text \<open>A concrete run: the moves of a script one after the other.\<close>

fun run_script :: "('m \<Rightarrow> 's \<Rightarrow> 's option) \<Rightarrow> 'm list \<Rightarrow> 's \<Rightarrow> 's option" where
  "run_script f [] s = Some s"
| "run_script f (m # ms) s = Option.bind (f m s) (run_script f ms)"

lemma run_script_append: "run_script f (ms @ ns) s = Option.bind (run_script f ms s) (run_script f ns)"
  by (induction ms arbitrary: s) (auto split: Option.bind_split)

lemma run_script_reachable:
  "run_script f ms s = Some t \<Longrightarrow> (\<And>m s t. m \<in> set ms \<Longrightarrow> f m s = Some t \<Longrightarrow> step s t) \<Longrightarrow> step\<^sup>*\<^sup>* s t"
proof (induction ms arbitrary: s)
  case (Cons m ms)
  then obtain v where v: "f m s = Some v" "run_script f ms v = Some t" by (auto simp: bind_eq_Some_conv)
  from Cons.prems(2) [OF _ v(1)] have "step s v" by simp
  moreover have "step\<^sup>*\<^sup>* v t" using Cons.prems(2) by (intro Cons.IH [OF v(2)]) auto
  ultimately show ?case by (rule converse_rtranclp_into_rtranclp)
qed simp

locale inductive_invariant =
  fixes init :: "'s \<Rightarrow> bool"
    and step :: "'s \<Rightarrow> 's \<Rightarrow> bool"
    and inv :: "'s \<Rightarrow> bool"
  assumes inv_init: "init s \<Longrightarrow> inv s"
    and inv_step: "inv s \<Longrightarrow> step s t \<Longrightarrow> inv t"
begin

lemma inv_star: "step\<^sup>*\<^sup>* s t \<Longrightarrow> inv s \<Longrightarrow> inv t"
  by (induction rule: rtranclp_induct) (auto intro: inv_step)

lemma inv_run: "init s \<Longrightarrow> step\<^sup>*\<^sup>* s t \<Longrightarrow> inv t"
  using inv_init inv_star by blast

end

text \<open>
  A simulation: under the invariant, every concrete step is matched by at most one step of the
  abstract system between the abstractions of its states.
\<close>

locale simulation = inductive_invariant init step inv
  for init :: "'s \<Rightarrow> bool" and step :: "'s \<Rightarrow> 's \<Rightarrow> bool" and inv :: "'s \<Rightarrow> bool" +
  fixes ainit :: "'a \<Rightarrow> bool"
    and astep :: "'a \<Rightarrow> 'a \<Rightarrow> bool"
    and absf :: "'s \<Rightarrow> 'a"
  assumes sim_init: "init s \<Longrightarrow> ainit (absf s)"
    and sim_step: "inv s \<Longrightarrow> step s t \<Longrightarrow> absf t = absf s \<or> astep (absf s) (absf t)"
begin

lemma sim_star: "step\<^sup>*\<^sup>* s t \<Longrightarrow> inv s \<Longrightarrow> astep\<^sup>*\<^sup>* (absf s) (absf t)"
proof (induction rule: rtranclp_induct)
  case base
  show ?case by simp
next
  case (step t u)
  then have "inv t" by (blast intro: inv_star)
  with step.hyps(2) have "absf u = absf t \<or> astep (absf t) (absf u)" using sim_step by blast
  with step show ?case by (auto intro: rtranclp.rtrancl_into_rtrancl)
qed

lemma sim_run: "init s \<Longrightarrow> step\<^sup>*\<^sup>* s t \<Longrightarrow> ainit (absf s) \<and> astep\<^sup>*\<^sup>* (absf s) (absf t)"
  using sim_init sim_star inv_init by blast

end

end
