(* ===== verification/CMem.thy ===== *)
theory CMem
  imports Prelude
begin

section \<open>C memory: byte-addressed stores, little-endian words, spans of addresses\<close>

text \<open>
  The memory of a C program on the 64-bit target: a partial map from 64-bit addresses to bytes,
  whose domain is the mapped memory. An access outside the domain is a fault and shows as
  \<^const>\<open>None\<close>. Words are stored little-endian. \<open>span a n\<close> is the set of the \<open>n\<close> addresses from
  \<open>a\<close> on; the lemmas say when loads and stores on two spans do not disturb each other.
\<close>

type_synonym addr = u64
type_synonym mem = "addr \<rightharpoonup> byte"

abbreviation NULL :: addr where "NULL \<equiv> 0"

subsection \<open>Words as little-endian bytes\<close>

definition to_bytes :: "nat \<Rightarrow> 'a::len word \<Rightarrow> byte list" where
  "to_bytes n w = map (\<lambda>i. ucast (drop_bit (8 * i) w)) [0..<n]"

fun of_bytes :: "byte list \<Rightarrow> 'a::len word" where
  "of_bytes [] = 0"
| "of_bytes (b # bs) = ucast b OR push_bit 8 (of_bytes bs)"

lemma length_to_bytes [simp]: "length (to_bytes n w) = n"
  by (simp add: to_bytes_def)

lemma bit_of_bytes:
  "bit (of_bytes bs :: 'a::len word) k \<longleftrightarrow>
     k < LENGTH('a) \<and> k div 8 < length bs \<and> bit (bs ! (k div 8)) (k mod 8)"
proof (induction bs arbitrary: k)
  case Nil
  then show ?case by simp
next
  case (Cons b bs)
  show ?case
  proof (cases "k < 8")
    case True
    then show ?thesis by (simp add: bit_or_iff bit_push_bit_iff bit_ucast_iff)
  next
    case False
    then obtain j where j: "k = j + 8" by (metis le_add_diff_inverse2 not_less)
    have "\<not> bit b (j + 8)" by (auto dest: bit_imp_le_length)
    moreover have "(j + 8) div 8 = Suc (j div 8)" "(j + 8) mod 8 = j mod 8" by simp_all
    ultimately show ?thesis
      by (auto simp: j Cons.IH bit_or_iff bit_push_bit_iff bit_ucast_iff)
  qed
qed

lemma bit_to_bytes:
  "i < n \<Longrightarrow> k < 8 \<Longrightarrow> bit (to_bytes n w ! i) k \<longleftrightarrow> bit w (8 * i + k)"
  by (simp add: to_bytes_def bit_ucast_iff bit_drop_bit_eq add.commute)

lemma of_bytes_to_bytes:
  fixes w :: "'a::len word"
  assumes "LENGTH('a) \<le> 8 * n"
  shows "of_bytes (to_bytes n w) = w"
proof (rule bit_word_eqI)
  fix k assume k: "k < LENGTH('a)"
  with assms have "k div 8 < n" by (simp add: less_mult_imp_div_less mult.commute)
  with k show "bit (of_bytes (to_bytes n w) :: 'a word) k = bit w k"
    by (simp add: bit_of_bytes bit_to_bytes)
qed

subsection \<open>Spans of addresses\<close>

definition span :: "addr \<Rightarrow> nat \<Rightarrow> addr set" where
  "span a n = (\<lambda>i. a + of_nat i) ` {..<n}"

lemma span_0 [simp]: "span a 0 = {}"
  by (simp add: span_def)

lemma span_Suc: "span a (Suc n) = insert a (span (a + 1) n)"
  by (simp add: span_def lessThan_Suc_eq_insert_0 image_image ac_simps)

lemma span_mono: "m \<le> n \<Longrightarrow> span a m \<subseteq> span a n"
  by (auto simp: span_def)

lemma span_conv:
  assumes "unat a + n \<le> 2 ^ 64"
  shows "span a n = {x. unat a \<le> unat x \<and> unat x < unat a + n}"
proof (intro set_eqI iffI)
  fix x assume "x \<in> span a n"
  then obtain i where i: "i < n" "x = a + of_nat i" by (auto simp: span_def)
  with assms have "i < 2 ^ 64" "unat a + i < 2 ^ 64" by linarith+
  then have "unat x = unat a + i"
    using i by (simp add: unat_word_ariths unat_of_nat take_bit_nat_eq_self)
  with i show "x \<in> {x. unat a \<le> unat x \<and> unat x < unat a + n}" by simp
next
  fix x :: addr assume "x \<in> {x. unat a \<le> unat x \<and> unat x < unat a + n}"
  then have "x = a + of_nat (unat x - unat a)" "unat x - unat a < n"
    by (auto simp: of_nat_diff)
  then show "x \<in> span a n" by (auto simp: span_def)
qed

subsection \<open>Loads and stores\<close>

fun load :: "mem \<Rightarrow> addr \<Rightarrow> nat \<Rightarrow> byte list option" where
  "load m a 0 = Some []"
| "load m a (Suc n) = do { b \<leftarrow> m a; bs \<leftarrow> load m (a + 1) n; Some (b # bs) }"

fun store :: "mem \<Rightarrow> addr \<Rightarrow> byte list \<Rightarrow> mem option" where
  "store m a [] = Some m"
| "store m a (b # bs) = (if m a = None then None else store (m(a \<mapsto> b)) (a + 1) bs)"

definition load_ptr :: "mem \<Rightarrow> addr \<Rightarrow> addr option" where
  "load_ptr m a = map_option of_bytes (load m a 8)"

definition store_ptr :: "mem \<Rightarrow> addr \<Rightarrow> addr \<Rightarrow> mem option" where
  "store_ptr m a v = store m a (to_bytes 8 v)"

lemma load_cong: "(\<And>x. x \<in> span a n \<Longrightarrow> m x = m' x) \<Longrightarrow> load m a n = load m' a n"
  by (induction n arbitrary: a) (auto simp: span_Suc)

lemma store_Some_iff: "(\<exists>m'. store m a bs = Some m') \<longleftrightarrow> span a (length bs) \<subseteq> dom m"
  by (induction bs arbitrary: m a) (auto simp: span_Suc)

lemma store_dom: "store m a bs = Some m' \<Longrightarrow> dom m' = dom m"
  by (induction bs arbitrary: m a) (auto split: if_splits)

lemma store_other: "store m a bs = Some m' \<Longrightarrow> x \<notin> span a (length bs) \<Longrightarrow> m' x = m x"
  by (induction bs arbitrary: m a) (auto simp: span_Suc split: if_splits)

lemma load_Some: "span a n \<subseteq> dom m \<Longrightarrow> \<exists>bs. load m a n = Some bs \<and> length bs = n"
proof (induction n arbitrary: a)
  case 0
  then show ?case by simp
next
  case (Suc n)
  then obtain b where "m a = Some b" by (auto simp: span_Suc)
  moreover from Suc obtain bs where "load m (a + 1) n = Some bs" "length bs = n"
    by (fastforce simp: span_Suc)
  ultimately show ?case by simp
qed

lemma load_store:
  "store m a bs = Some m' \<Longrightarrow> unat a + length bs \<le> 2 ^ 64 \<Longrightarrow> load m' a (length bs) = Some bs"
proof (induction bs arbitrary: m a)
  case Nil
  then show ?case by simp
next
  case (Cons b bs)
  from Cons.prems(1) have st: "store (m(a \<mapsto> b)) (a + 1) bs = Some m'"
    by (auto split: if_splits)
  show ?case
  proof (cases "bs = []")
    case True
    with st show ?thesis by auto
  next
    case False
    with Cons.prems(2) have lt: "unat a + 1 < 2 ^ 64" by (cases bs) auto
    then have ua: "unat (a + 1) = unat a + 1" by (simp add: unat_word_ariths)
    with Cons.prems(2) have b: "unat (a + 1) + length bs \<le> 2 ^ 64" by simp
    then have "a \<notin> span (a + 1) (length bs)" by (simp add: span_conv ua)
    with st have "m' a = Some b" by (auto dest: store_other)
    with Cons.IH [OF st b] show ?thesis by simp
  qed
qed

lemma load_ptr_store_ptr:
  "store_ptr m a v = Some m' \<Longrightarrow> unat a + 8 \<le> 2 ^ 64 \<Longrightarrow> load_ptr m' a = Some v"
  using load_store [of m a "to_bytes 8 v" m']
  by (simp add: store_ptr_def load_ptr_def of_bytes_to_bytes)

lemma load_ptr_cong: "(\<And>x. x \<in> span a 8 \<Longrightarrow> m x = m' x) \<Longrightarrow> load_ptr m a = load_ptr m' a"
  by (simp add: load_ptr_def load_cong [of a 8 m m'])

lemma store_ptr_Some: "span a 8 \<subseteq> dom m \<Longrightarrow> \<exists>m'. store_ptr m a v = Some m'"
  by (simp add: store_ptr_def store_Some_iff)

lemma store_ptr_other: "store_ptr m a v = Some m' \<Longrightarrow> x \<notin> span a 8 \<Longrightarrow> m' x = m x"
  by (simp add: store_ptr_def store_other)

lemma store_ptr_dom: "store_ptr m a v = Some m' \<Longrightarrow> dom m' = dom m"
  by (simp add: store_ptr_def store_dom)

lemma load_ptr_Some: "span a 8 \<subseteq> dom m \<Longrightarrow> \<exists>p. load_ptr m a = Some p"
  by (auto simp: load_ptr_def dest: load_Some)

end
