(* ===== verification/Mempool.thy ===== *)
theory Mempool
  imports CMem
begin

section \<open>The fixed-block memory pool (task5/src/mempool.c)\<close>

text \<open>
  The pool keeps its free blocks in a singly linked list threaded through the blocks themselves:
  the first eight bytes of a free block hold the address of the next one. The model works on the
  byte-addressed memory of theory \<open>CMem\<close>, so the list pointers, the loop that builds the list and
  the bytes clients write into their blocks live in the same store. \<open>malloc\<close> and \<open>free\<close> are
  arguments; \<open>malloc_spec\<close> states what the code relies on. \<open>mlock\<close> and \<open>munlock\<close> pin pages and
  change no byte, their results are ignored by the code, and they have no counterpart here.
\<close>

subsection \<open>Data and operations, as in the code\<close>

text \<open>\<open>sizeof(Node)\<close> and \<open>sizeof(MemoryPool)\<close> on the 64-bit target.\<close>

definition sizeof_node :: u64 where "sizeof_node = 8"
definition sizeof_pool :: u64 where "sizeof_pool = 32"

record pool =
  block_size :: u64
  free_list_head :: addr
  memory_start :: addr
  memory_total_size :: u64

text \<open>A \<open>MemoryPool*\<close>: \<^const>\<open>None\<close> is \<open>NULL\<close>, otherwise the struct's address and its fields.\<close>

type_synonym pool_ref = "(addr \<times> pool) option"

type_synonym malloc_fn = "u64 \<Rightarrow> mem \<Rightarrow> addr \<times> mem"
type_synonym free_fn = "addr \<Rightarrow> mem \<Rightarrow> mem"

text \<open>One turn of the loop of \<open>pool_create\<close>, and its first \<open>n\<close> turns.\<close>

definition link_block :: "addr \<Rightarrow> u64 \<Rightarrow> nat \<Rightarrow> addr \<times> mem \<Rightarrow> (addr \<times> mem) option" where
  "link_block start bs i = (\<lambda>(head, m).
     let current_node = start + of_nat i * bs
     in do { m' \<leftarrow> store_ptr m current_node head; Some (current_node, m') })"

primrec link_blocks :: "addr \<Rightarrow> u64 \<Rightarrow> nat \<Rightarrow> addr \<times> mem \<Rightarrow> (addr \<times> mem) option" where
  "link_blocks start bs 0 st = Some st"
| "link_blocks start bs (Suc n) st = do { st' \<leftarrow> link_blocks start bs n st; link_block start bs n st' }"

definition pool_create ::
  "malloc_fn \<Rightarrow> free_fn \<Rightarrow> u64 \<Rightarrow> u64 \<Rightarrow> mem \<Rightarrow> (pool_ref \<times> mem) option" where
  "pool_create malloc cfree block_size0 block_count m =
    (let bs = (if block_size0 < sizeof_node then sizeof_node else block_size0);
         (p, m1) = malloc sizeof_pool m
     in if p = NULL then Some (None, m1)
        else
         (let total = bs * block_count;
              (start, m2) = malloc total m1
          in if start = NULL then Some (None, cfree p m2)
             else do {
               (head, m3) \<leftarrow> link_blocks start bs (unat block_count) (NULL, m2);
               Some (Some (p, \<lparr>block_size = bs, free_list_head = head,
                               memory_start = start, memory_total_size = total\<rparr>), m3) }))"

definition pool_alloc :: "pool_ref \<Rightarrow> mem \<Rightarrow> (addr \<times> pool_ref) option" where
  "pool_alloc pl m =
    (case pl of None \<Rightarrow> Some (NULL, pl)
     | Some (a, p) \<Rightarrow>
        if free_list_head p = NULL then Some (NULL, pl)
        else do {
          nxt \<leftarrow> load_ptr m (free_list_head p);
          Some (free_list_head p, Some (a, p\<lparr>free_list_head := nxt\<rparr>)) })"

definition pool_free :: "pool_ref \<Rightarrow> addr \<Rightarrow> mem \<Rightarrow> (pool_ref \<times> mem) option" where
  "pool_free pl block m =
    (case pl of None \<Rightarrow> Some (pl, m)
     | Some (a, p) \<Rightarrow>
        if block = NULL then Some (pl, m)
        else do {
          m' \<leftarrow> store_ptr m block (free_list_head p);
          Some (Some (a, p\<lparr>free_list_head := block\<rparr>), m') })"

definition pool_destroy :: "free_fn \<Rightarrow> pool_ref \<Rightarrow> mem \<Rightarrow> mem" where
  "pool_destroy cfree pl m =
    (case pl of None \<Rightarrow> m | Some (a, p) \<Rightarrow> cfree a (cfree (memory_start p) m))"

subsection \<open>What the code relies on: malloc\<close>

definition malloc_spec :: "malloc_fn \<Rightarrow> bool" where
  "malloc_spec malloc \<longleftrightarrow> (\<forall>n m p m'. malloc n m = (p, m') \<longrightarrow>
     (if p = NULL then m' = m
      else unat p + unat n \<le> 2 ^ 64 \<and> span p (unat n) \<inter> dom m = {} \<and>
           dom m' = dom m \<union> span p (unat n) \<and> (\<forall>x \<in> dom m. m' x = m x)))"

subsection \<open>The free list in memory and the pool invariant\<close>

fun free_list :: "mem \<Rightarrow> addr \<Rightarrow> addr list \<Rightarrow> bool" where
  "free_list m p [] \<longleftrightarrow> p = NULL"
| "free_list m p (x # xs) \<longleftrightarrow> p = x \<and> x \<noteq> NULL \<and>
     (case load_ptr m x of None \<Rightarrow> False | Some q \<Rightarrow> free_list m q xs)"

definition block_addr :: "pool \<Rightarrow> nat \<Rightarrow> addr" where
  "block_addr p i = memory_start p + of_nat i * block_size p"

definition blocks :: "pool \<Rightarrow> nat \<Rightarrow> addr set" where
  "blocks p n = block_addr p ` {..<n}"

definition block_span :: "pool \<Rightarrow> addr \<Rightarrow> addr set" where
  "block_span p b = span b (unat (block_size p))"

definition pool_geom :: "pool \<Rightarrow> nat \<Rightarrow> mem \<Rightarrow> bool" where
  "pool_geom p n m \<longleftrightarrow> 8 \<le> unat (block_size p) \<and> memory_start p \<noteq> NULL \<and>
     unat (memory_start p) + n * unat (block_size p) \<le> 2 ^ 64 \<and>
     span (memory_start p) (n * unat (block_size p)) \<subseteq> dom m"

text \<open>
  \<open>xs\<close> is the free list from its head on, \<open>A\<close> the set of blocks in the hands of clients; together
  they are the \<open>n\<close> blocks of the region, none twice.
\<close>

definition pool_inv :: "pool \<Rightarrow> nat \<Rightarrow> mem \<Rightarrow> addr list \<Rightarrow> addr set \<Rightarrow> bool" where
  "pool_inv p n m xs A \<longleftrightarrow> pool_geom p n m \<and> distinct xs \<and> set xs \<inter> A = {} \<and>
     set xs \<union> A = blocks p n \<and> free_list m (free_list_head p) xs"

subsection \<open>Geometry of the blocks\<close>

lemma unat_block_addr:
  assumes "pool_geom p n m" "i < n"
  shows "unat (block_addr p i) = unat (memory_start p) + i * unat (block_size p)"
proof -
  let ?s = "unat (memory_start p)" and ?b = "unat (block_size p)"
  from assms have le: "?s + n * ?b \<le> 2 ^ 64" and b: "8 \<le> ?b" by (auto simp: pool_geom_def)
  from assms(2) have "i * ?b + ?b \<le> n * ?b"
    by (metis Suc_leI add.commute mult_Suc mult_le_mono1)
  with le b have lt: "?s + i * ?b < 2 ^ 64" by linarith
  have "i \<le> i * ?b" using b by simp
  with lt have i: "i < 2 ^ 64" by linarith
  have "unat (of_nat i * block_size p) = i * ?b"
    using lt i by (simp add: unat_word_ariths unat_of_nat take_bit_nat_eq_self)
  with lt show ?thesis by (simp add: block_addr_def unat_word_ariths)
qed

lemma block_end:
  assumes "pool_geom p n m" "i < n"
  shows "unat (block_addr p i) + unat (block_size p)
           \<le> unat (memory_start p) + n * unat (block_size p)"
proof -
  from assms(2) have "Suc i * unat (block_size p) \<le> n * unat (block_size p)"
    by (intro mult_le_mono1) simp
  then show ?thesis by (simp add: unat_block_addr [OF assms])
qed

lemma block_no_wrap:
  "pool_geom p n m \<Longrightarrow> i < n \<Longrightarrow> unat (block_addr p i) + unat (block_size p) \<le> 2 ^ 64"
  using block_end [of p n m i] by (auto simp: pool_geom_def)

lemma block_nonnull: "pool_geom p n m \<Longrightarrow> i < n \<Longrightarrow> block_addr p i \<noteq> NULL"
  using unat_block_addr [of p n m i] by (auto simp: pool_geom_def unat_eq_zero)

lemma block_span_conv:
  assumes "pool_geom p n m" "i < n"
  shows "block_span p (block_addr p i) =
    {x. unat (memory_start p) + i * unat (block_size p) \<le> unat x \<and>
        unat x < unat (memory_start p) + Suc i * unat (block_size p)}"
  using block_no_wrap [OF assms]
  by (auto simp: block_span_def span_conv unat_block_addr [OF assms])

lemma block_span_mapped:
  assumes "pool_geom p n m" "i < n"
  shows "block_span p (block_addr p i) \<subseteq> dom m"
proof -
  have "Suc i * unat (block_size p) \<le> n * unat (block_size p)"
    using assms(2) by (intro mult_le_mono1) simp
  then have "block_span p (block_addr p i) \<subseteq> span (memory_start p) (n * unat (block_size p))"
    using assms(1) by (auto simp: block_span_conv [OF assms] pool_geom_def span_conv)
  with assms(1) show ?thesis by (auto simp: pool_geom_def)
qed

lemma block_spans_disjoint:
  assumes "pool_geom p n m" "i < n" "j < n" "i \<noteq> j"
  shows "block_span p (block_addr p i) \<inter> block_span p (block_addr p j) = {}"
proof -
  have *: "Suc a * unat (block_size p) \<le> b * unat (block_size p)" if "a < b" for a b
    using that by (intro mult_le_mono1) simp
  from assms(4) consider "i < j" | "j < i" by linarith
  then show ?thesis
    by cases (use * [of i j] * [of j i] in
      \<open>fastforce simp: block_span_conv [OF assms(1,2)] block_span_conv [OF assms(1,3)]\<close>)+
qed

lemma blocks_inj:
  assumes "pool_geom p n m"
  shows "inj_on (block_addr p) {..<n}"
proof (rule inj_onI)
  fix i j assume ij: "i \<in> {..<n}" "j \<in> {..<n}" and eq: "block_addr p i = block_addr p j"
  from ij have "unat (block_addr p i) = unat (memory_start p) + i * unat (block_size p)"
    "unat (block_addr p j) = unat (memory_start p) + j * unat (block_size p)"
    using unat_block_addr [OF assms] by simp_all
  with eq have "i * unat (block_size p) = j * unat (block_size p)" by (metis add_left_cancel)
  moreover from assms have "0 < unat (block_size p)" unfolding pool_geom_def by linarith
  ultimately show "i = j" by simp
qed

lemma card_blocks: "pool_geom p n m \<Longrightarrow> card (blocks p n) = n"
  using card_image [OF blocks_inj] by (auto simp: blocks_def)

text \<open>The node of a block is the first eight bytes of its span.\<close>

lemma node_in_block:
  "pool_geom p n m \<Longrightarrow> span b 8 \<subseteq> block_span p b"
  by (auto simp: block_span_def pool_geom_def intro: span_mono [THEN subsetD])

lemma blocksE:
  assumes "b \<in> blocks p n"
  obtains i where "i < n" "b = block_addr p i"
  using assms by (auto simp: blocks_def)

lemma blocks_disjoint:
  "pool_geom p n m \<Longrightarrow> b \<in> blocks p n \<Longrightarrow> c \<in> blocks p n \<Longrightarrow> b \<noteq> c \<Longrightarrow>
   block_span p b \<inter> block_span p c = {}"
  by (auto elim!: blocksE dest: block_spans_disjoint)

lemma geom_dom: "dom m' = dom m \<Longrightarrow> pool_geom p n m' = pool_geom p n m"
  by (simp add: pool_geom_def)

lemma geom_head [simp]: "pool_geom (p\<lparr>free_list_head := h\<rparr>) n m = pool_geom p n m"
  by (simp add: pool_geom_def)

lemma blocks_head [simp]: "blocks (p\<lparr>free_list_head := h\<rparr>) n = blocks p n"
  by (simp add: blocks_def block_addr_def)

lemma block_span_head [simp]: "block_span (p\<lparr>free_list_head := h\<rparr>) b = block_span p b"
  by (simp add: block_span_def)

lemma free_list_cong:
  "(\<And>b x. b \<in> set xs \<Longrightarrow> x \<in> span b 8 \<Longrightarrow> m x = m' x) \<Longrightarrow> free_list m p xs = free_list m' p xs"
proof (induction xs arbitrary: p)
  case Nil
  then show ?case by simp
next
  case (Cons b xs)
  then have "load_ptr m b = load_ptr m' b" by (intro load_ptr_cong) auto
  with Cons show ?case by (auto split: option.splits)
qed

subsection \<open>The operations under the invariant\<close>

lemma free_list_head_iff: "free_list m p xs \<Longrightarrow> p = NULL \<longleftrightarrow> xs = []"
  by (cases xs) auto

lemma pool_alloc_take:
  assumes "pool_inv p n m (x # xs) A"
  shows "\<exists>p'. pool_alloc (Some (a, p)) m = Some (x, Some (a, p')) \<and> pool_inv p' n m xs (insert x A)"
  using assms by (auto simp: pool_inv_def pool_alloc_def split: option.splits)

lemma pool_alloc_empty:
  "pool_inv p n m [] A \<Longrightarrow> pool_alloc (Some (a, p)) m = Some (NULL, Some (a, p))"
  by (simp add: pool_inv_def pool_alloc_def)

text \<open>
  Storing anywhere inside one block leaves the free list alone as long as that block is not on
  it: the nodes of the free blocks lie in other spans.
\<close>

lemma free_list_frame:
  assumes inv: "pool_inv p n m xs A" and b: "b \<in> blocks p n" "b \<notin> set xs"
    and same: "\<And>x. x \<notin> block_span p b \<Longrightarrow> m' x = m x"
  shows "free_list m' q xs = free_list m q xs"
proof (rule free_list_cong)
  fix c x assume c: "c \<in> set xs" and x: "x \<in> span c 8"
  from inv have g: "pool_geom p n m" and "c \<in> blocks p n"
    using c by (auto simp: pool_inv_def)
  with b c have "block_span p c \<inter> block_span p b = {}"
    by (intro blocks_disjoint) auto
  with x node_in_block [OF g] have "x \<notin> block_span p b" by blast
  then show "m' x = m x" by (rule same)
qed

lemma pool_free_give:
  assumes inv: "pool_inv p n m xs A" and b: "b \<in> A"
  shows "\<exists>p' m'. pool_free (Some (a, p)) b m = Some (Some (a, p'), m') \<and>
           pool_inv p' n m' (b # xs) (A - {b}) \<and> (\<forall>x. x \<notin> block_span p b \<longrightarrow> m' x = m x)"
proof -
  let ?p = "p\<lparr>free_list_head := b\<rparr>"
  from inv b have g: "pool_geom p n m" and bb: "b \<in> blocks p n" and bx: "b \<notin> set xs"
    by (auto simp: pool_inv_def)
  from bb obtain i where i: "i < n" "b = block_addr p i" by (rule blocksE)
  with g have nn: "b \<noteq> NULL" and nw: "unat b + 8 \<le> 2 ^ 64"
    using block_nonnull [of p n m i] block_no_wrap [of p n m i]
    by (auto simp: pool_geom_def)
  from g i have "span b 8 \<subseteq> dom m" using node_in_block block_span_mapped by blast
  then obtain m' where m': "store_ptr m b (free_list_head p) = Some m'"
    using store_ptr_Some by blast
  have same: "m' x = m x" if "x \<notin> block_span p b" for x
    using that m' node_in_block [OF g] by (blast intro: store_ptr_other)
  have "load_ptr m' b = Some (free_list_head p)" using m' nw by (rule load_ptr_store_ptr)
  moreover from inv have "free_list m (free_list_head p) xs" by (simp add: pool_inv_def)
  then have "free_list m' (free_list_head p) xs"
    using free_list_frame [OF inv bb bx same] by simp
  ultimately have "free_list m' b (b # xs)" using nn by simp
  moreover have "pool_geom p n m'" using g geom_dom [OF store_ptr_dom [OF m']] by blast
  ultimately have "pool_inv ?p n m' (b # xs) (A - {b})"
    using inv b bx by (auto simp: pool_inv_def)
  then show ?thesis using m' nn same by (auto simp: pool_free_def)
qed

lemma client_write_inv:
  assumes inv: "pool_inv p n m xs A" and b: "b \<in> A"
    and sub: "span w (length bs) \<subseteq> block_span p b" and st: "store m w bs = Some m'"
  shows "pool_inv p n m' xs A"
proof -
  from inv b have "b \<in> blocks p n" "b \<notin> set xs" by (auto simp: pool_inv_def)
  moreover have "m' x = m x" if "x \<notin> block_span p b" for x
    using that sub st by (blast intro: store_other)
  ultimately show ?thesis
    using free_list_frame [OF inv, of b m' "free_list_head p"] inv geom_dom [OF store_dom [OF st]]
    unfolding pool_inv_def by blast
qed

subsection \<open>Creation\<close>

lemma link_blocks_list:
  assumes g: "pool_geom p n m" and k: "k \<le> n"
  shows "\<exists>h m'. link_blocks (memory_start p) (block_size p) k (NULL, m) = Some (h, m') \<and>
           free_list m' h (rev (map (block_addr p) [0..<k])) \<and> dom m' = dom m \<and>
           (\<forall>x. x \<notin> span (memory_start p) (n * unat (block_size p)) \<longrightarrow> m' x = m x)"
  using k
proof (induction k)
  case 0
  show ?case by simp
next
  case (Suc k)
  let ?b = "block_addr p k" and ?xs = "rev (map (block_addr p) [0..<k])"
  from Suc obtain h m1 where ih:
    "link_blocks (memory_start p) (block_size p) k (NULL, m) = Some (h, m1)"
    "free_list m1 h ?xs" "dom m1 = dom m"
    "\<And>x. x \<notin> span (memory_start p) (n * unat (block_size p)) \<Longrightarrow> m1 x = m x" by auto
  from Suc.prems have k: "k < n" by simp
  have g1: "pool_geom p n m1" using g geom_dom [OF ih(3)] by blast
  have sub: "span ?b 8 \<subseteq> block_span p ?b" by (rule node_in_block [OF g])
  have inreg: "block_span p ?b \<subseteq> span (memory_start p) (n * unat (block_size p))"
  proof -
    have "Suc k * unat (block_size p) \<le> n * unat (block_size p)"
      using k by (intro mult_le_mono1) simp
    then show ?thesis
      using g by (auto simp: block_span_conv [OF g k] pool_geom_def span_conv)
  qed
  obtain m' where m': "store_ptr m1 ?b h = Some m'"
    using sub block_span_mapped [OF g1 k] store_ptr_Some by blast
  have "free_list m' h ?xs = free_list m1 h ?xs"
  proof (rule free_list_cong)
    fix c x assume "c \<in> set ?xs" and x: "x \<in> span c 8"
    then obtain j where j: "j < k" "c = block_addr p j" by auto
    with k have "block_span p c \<inter> block_span p ?b = {}"
      using block_spans_disjoint [OF g, of j k] by auto
    with x sub node_in_block [OF g, of c] have "x \<notin> span ?b 8" by blast
    then show "m' x = m1 x" using m' by (blast intro: store_ptr_other)
  qed
  moreover have "load_ptr m' ?b = Some h"
    using m' block_no_wrap [OF g k] g by (intro load_ptr_store_ptr) (auto simp: pool_geom_def)
  ultimately have "free_list m' ?b (?b # ?xs)"
    using ih(2) block_nonnull [OF g k] by simp
  moreover have "dom m' = dom m" using store_ptr_dom [OF m'] ih(3) by simp
  moreover have "m' x = m x" if "x \<notin> span (memory_start p) (n * unat (block_size p))" for x
  proof -
    from that have "x \<notin> span ?b 8" using sub inreg by blast
    with m' have "m' x = m1 x" by (blast intro: store_ptr_other)
    with ih(4) that show ?thesis by simp
  qed
  moreover have "link_blocks (memory_start p) (block_size p) (Suc k) (NULL, m) = Some (?b, m')"
    using ih(1) m' by (simp add: link_block_def block_addr_def)
  ultimately show ?case by auto
qed

end
