(* ===== verification/MempoolSpec.thy ===== *)
theory MempoolSpec
  imports Mempool
begin

section \<open>What the memory pool promises its clients\<close>

text \<open>
  The contract of the pool as a locale (\<open>block_allocator\<close>), its interpretation on the operations
  of \<open>mempool.c\<close>, the system of a pool with clients that allocate, free and write into their
  blocks, and its refinement to an abstract stack of free blocks. The last section has what the
  code does where clients or arguments break the contract: a double free, a product that wraps.
\<close>

subsection \<open>The allocator contract\<close>

primrec alloc_n :: "('s \<Rightarrow> ('b \<times> 's) option) \<Rightarrow> nat \<Rightarrow> 's \<Rightarrow> ('b list \<times> 's) option" where
  "alloc_n al 0 s = Some ([], s)"
| "alloc_n al (Suc k) s = do { (b, s') \<leftarrow> al s; (bs, s'') \<leftarrow> alloc_n al k s'; Some (b # bs, s'') }"

primrec free_all :: "('s \<Rightarrow> 'b \<Rightarrow> 's option) \<Rightarrow> 'b list \<Rightarrow> 's \<Rightarrow> 's option" where
  "free_all fr [] s = Some s"
| "free_all fr (b # bs) s = do { s' \<leftarrow> fr s b; free_all fr bs s' }"

locale block_allocator =
  fixes al :: "'s \<Rightarrow> ('b \<times> 's) option"
    and fr :: "'s \<Rightarrow> 'b \<Rightarrow> 's option"
    and rep :: "'s \<Rightarrow> 'b list \<Rightarrow> 'b set \<Rightarrow> bool"
    and null :: 'b
  assumes alloc_take: "rep s (x # xs) A \<Longrightarrow> \<exists>s'. al s = Some (x, s') \<and> rep s' xs (insert x A)"
    and alloc_null: "rep s [] A \<Longrightarrow> al s = Some (null, s)"
    and free_give: "rep s xs A \<Longrightarrow> b \<in> A \<Longrightarrow> \<exists>s'. fr s b = Some s' \<and> rep s' (b # xs) (A - {b})"
    and rep_null: "rep s xs A \<Longrightarrow> null \<notin> set xs \<union> A"
    and rep_disjoint: "rep s xs A \<Longrightarrow> distinct xs \<and> set xs \<inter> A = {}"
begin

lemma alloc_n_take:
  "rep s xs A \<Longrightarrow> k \<le> length xs \<Longrightarrow>
   \<exists>s'. alloc_n al k s = Some (take k xs, s') \<and> rep s' (drop k xs) (A \<union> set (take k xs))"
proof (induction k arbitrary: s xs A)
  case 0
  then show ?case by simp
next
  case (Suc k)
  then obtain x ys where xs: "xs = x # ys" and k: "k \<le> length ys" by (cases xs) auto
  from Suc.prems(1) xs obtain s' where s': "al s = Some (x, s')" "rep s' ys (insert x A)"
    using alloc_take by blast
  from Suc.IH [OF s'(2) k] obtain s'' where
    "alloc_n al k s' = Some (take k ys, s'')"
    "rep s'' (drop k ys) (insert x A \<union> set (take k ys))" by blast
  with s' xs show ?case by auto
qed

lemma free_all_give:
  "rep s xs A \<Longrightarrow> set bs \<subseteq> A \<Longrightarrow> distinct bs \<Longrightarrow>
   \<exists>s'. free_all fr bs s = Some s' \<and> rep s' (rev bs @ xs) (A - set bs)"
proof (induction bs arbitrary: s xs A)
  case Nil
  then show ?case by simp
next
  case (Cons b bs)
  then obtain s' where s': "fr s b = Some s'" "rep s' (b # xs) (A - {b})"
    using free_give by force
  with Cons obtain s'' where "free_all fr bs s' = Some s''"
    "rep s'' (rev bs @ b # xs) (A - {b} - set bs)"
    using Cons.IH [OF s'(2)] by fastforce
  with s' show ?case by (auto simp: Diff_insert2 [symmetric] insert_commute)
qed

text \<open>Taking everything and giving it back: no block is lost, the order is reversed.\<close>

lemma alloc_free_cycle:
  assumes "rep s xs {}"
  shows "\<exists>s' s''. alloc_n al (length xs) s = Some (xs, s') \<and> al s' = Some (null, s') \<and>
           free_all fr xs s' = Some s'' \<and> rep s'' (rev xs) {}"
proof -
  from alloc_n_take [OF assms, of "length xs"] obtain s' where
    s': "alloc_n al (length xs) s = Some (xs, s')" "rep s' [] (set xs)" by auto
  moreover from assms have "distinct xs" using rep_disjoint by blast
  ultimately obtain s'' where "free_all fr xs s' = Some s''" "rep s'' (rev xs) {}"
    using free_all_give [OF s'(2), of xs] by auto
  with s' alloc_null show ?thesis by blast
qed

end

subsection \<open>The pool fulfils the contract\<close>

text \<open>The pool with its memory as one state.\<close>

definition al_pool :: "pool_ref \<times> mem \<Rightarrow> (addr \<times> pool_ref \<times> mem) option" where
  "al_pool = (\<lambda>(pl, m). do { (b, pl') \<leftarrow> pool_alloc pl m; Some (b, pl', m) })"

definition fr_pool :: "pool_ref \<times> mem \<Rightarrow> addr \<Rightarrow> (pool_ref \<times> mem) option" where
  "fr_pool = (\<lambda>(pl, m) b. pool_free pl b m)"

definition pool_rep :: "nat \<Rightarrow> pool_ref \<times> mem \<Rightarrow> addr list \<Rightarrow> addr set \<Rightarrow> bool" where
  "pool_rep n = (\<lambda>(pl, m) xs A. \<exists>a p. pl = Some (a, p) \<and> pool_inv p n m xs A)"

lemma pool_inv_null: "pool_inv p n m xs A \<Longrightarrow> NULL \<notin> set xs \<union> A"
  by (auto simp: pool_inv_def elim!: blocksE dest: block_nonnull)

lemma pool_repE:
  assumes "pool_rep n s xs A"
  obtains a p m where "s = (Some (a, p), m)" "pool_inv p n m xs A"
  using assms by (cases s) (auto simp: pool_rep_def)

interpretation pool_contract: block_allocator al_pool fr_pool "pool_rep n" NULL for n
proof unfold_locales
  fix s x xs A assume "pool_rep n s (x # xs) A"
  then obtain a p m where s: "s = (Some (a, p), m)" and inv: "pool_inv p n m (x # xs) A"
    by (rule pool_repE)
  from pool_alloc_take [OF inv, of a] show "\<exists>s'. al_pool s = Some (x, s') \<and> pool_rep n s' xs (insert x A)"
    by (auto simp: pool_rep_def al_pool_def s)
next
  fix s A assume "pool_rep n s [] A"
  then show "al_pool s = Some (NULL, s)"
    by (rule pool_repE) (simp add: al_pool_def pool_alloc_empty)
next
  fix s xs A b assume r: "pool_rep n s xs A" and b: "b \<in> A"
  from r obtain a p m where s: "s = (Some (a, p), m)" and inv: "pool_inv p n m xs A"
    by (rule pool_repE)
  from pool_free_give [OF inv b, of a] show "\<exists>s'. fr_pool s b = Some s' \<and> pool_rep n s' (b # xs) (A - {b})"
    by (auto simp: pool_rep_def fr_pool_def s)
next
  fix s xs A assume r: "pool_rep n s xs A"
  then show "NULL \<notin> set xs \<union> A" by (rule pool_repE) (rule pool_inv_null)
  from r show "distinct xs \<and> set xs \<inter> A = {}"
    by (rule pool_repE) (simp add: pool_inv_def)
qed

subsection \<open>Creation establishes it\<close>

lemma malloc_specD:
  "malloc_spec malloc \<Longrightarrow> malloc n m = (p, m') \<Longrightarrow> p \<noteq> NULL \<Longrightarrow>
   unat p + unat n \<le> 2 ^ 64 \<and> dom m' = dom m \<union> span p (unat n) \<and>
   span p (unat n) \<inter> dom m = {} \<and> (\<forall>x \<in> dom m. m' x = m x)"
  by (auto simp: malloc_spec_def split: if_splits)

lemma malloc_spec_null: "malloc_spec malloc \<Longrightarrow> malloc n m = (NULL, m') \<Longrightarrow> m' = m"
  by (auto simp: malloc_spec_def split: if_splits)

definition real_block_size :: "u64 \<Rightarrow> u64" where
  "real_block_size bs = (if bs < sizeof_node then sizeof_node else bs)"

lemma real_block_size_ge: "8 \<le> unat (real_block_size bs)"
  by (auto simp: real_block_size_def sizeof_node_def word_less_nat_alt)

lemma pool_create_inv:
  assumes spec: "malloc_spec malloc"
    and fit: "unat (real_block_size bs) * unat cnt < 2 ^ 64"
  shows "\<exists>pl m'. pool_create malloc cfree bs cnt m = Some (pl, m') \<and>
    (case pl of None \<Rightarrow> True
     | Some (a, p) \<Rightarrow>
         pool_inv p (unat cnt) m' (rev (map (block_addr p) [0..<unat cnt])) {} \<and>
         block_size p = real_block_size bs \<and> (\<forall>x \<in> dom m. m' x = m x))"
proof -
  let ?b = "real_block_size bs" and ?n = "unat cnt"
  obtain a m1 where a: "malloc sizeof_pool m = (a, m1)" by force
  obtain s m2 where s: "malloc (?b * cnt) m1 = (s, m2)" by force
  show ?thesis
  proof (cases "a = NULL \<or> s = NULL")
    case True
    with a s show ?thesis
      by (auto simp: pool_create_def Let_def real_block_size_def [symmetric])
  next
    case False
    then have nn: "a \<noteq> NULL" "s \<noteq> NULL" by auto
    let ?p = "\<lambda>h. \<lparr>block_size = ?b, free_list_head = h, memory_start = s,
                 memory_total_size = ?b * cnt\<rparr>"
    have tot: "unat (?b * cnt) = ?n * unat ?b"
      using fit by (simp add: unat_word_ariths mult.commute)
    note d1 = malloc_specD [OF spec a nn(1)] and d2 = malloc_specD [OF spec s nn(2)]
    have g: "pool_geom (?p h) ?n m2" for h
      using d2 nn tot real_block_size_ge [of bs] by (auto simp: pool_geom_def)
    from link_blocks_list [OF g [of NULL] le_refl] obtain h m3 where
      h: "link_blocks s ?b ?n (NULL, m2) = Some (h, m3)"
      "free_list m3 h (rev (map (block_addr (?p NULL)) [0..<?n]))" "dom m3 = dom m2"
      "\<And>x. x \<notin> span s (?n * unat ?b) \<Longrightarrow> m3 x = m2 x" by auto
    have ba: "block_addr (?p NULL) = block_addr (?p h)" by (simp add: block_addr_def fun_eq_iff)
    have g3: "pool_geom (?p h) ?n m3" using g geom_dom [OF h(3)] by blast
    have "inj_on (block_addr (?p h)) (set [0..<?n])"
      using blocks_inj [OF g3] by (simp add: lessThan_atLeast0)
    then have "pool_inv (?p h) ?n m3 (rev (map (block_addr (?p h)) [0..<?n])) {}"
      using g3 h(2) ba by (auto simp: pool_inv_def blocks_def distinct_map)
    moreover have "m3 x = m x" if "x \<in> dom m" for x
    proof -
      from that d1 d2 tot have "x \<notin> span s (?n * unat ?b)" "x \<in> dom m1" by auto
      with h(4) d1 d2 that show ?thesis by auto
    qed
    ultimately show ?thesis
      using a s nn h(1)
      by (auto simp: pool_create_def Let_def real_block_size_def [symmetric])
  qed
qed

subsection \<open>The pool and its clients as a system\<close>

text \<open>
  A state is the pool, the memory and the set of blocks clients hold. Clients may allocate, free a
  block they hold, and write any bytes anywhere inside a block they hold.
\<close>

record pool_sys =
  the_pool :: pool_ref
  the_mem :: mem
  held :: "addr set"

definition the_block_span :: "pool_sys \<Rightarrow> addr \<Rightarrow> addr set" where
  "the_block_span s b = (case the_pool s of None \<Rightarrow> {} | Some (a, p) \<Rightarrow> block_span p b)"

inductive pool_step :: "pool_sys \<Rightarrow> pool_sys \<Rightarrow> bool" where
  alloc: "pool_alloc (the_pool s) (the_mem s) = Some (b, pl) \<Longrightarrow>
     pool_step s (s\<lparr>the_pool := pl, held := (if b = NULL then held s else insert b (held s))\<rparr>)"
| free: "b \<in> held s \<Longrightarrow> pool_free (the_pool s) b (the_mem s) = Some (pl, m) \<Longrightarrow>
     pool_step s (s\<lparr>the_pool := pl, the_mem := m, held := held s - {b}\<rparr>)"
| client_write: "b \<in> held s \<Longrightarrow> span w (length bs) \<subseteq> the_block_span s b \<Longrightarrow>
     store (the_mem s) w bs = Some m \<Longrightarrow> pool_step s (s\<lparr>the_mem := m\<rparr>)"

definition pool_start :: "nat \<Rightarrow> pool_sys \<Rightarrow> bool" where
  "pool_start n s \<longleftrightarrow> (\<exists>a p. the_pool s = Some (a, p) \<and> held s = {} \<and>
     pool_inv p n (the_mem s) (rev (map (block_addr p) [0..<n])) {})"

definition sys_inv :: "nat \<Rightarrow> pool_sys \<Rightarrow> bool" where
  "sys_inv n s \<longleftrightarrow>
    (\<exists>a p xs. the_pool s = Some (a, p) \<and> pool_inv p n (the_mem s) xs (held s))"

text \<open>The abstract allocator: a stack of free blocks and the set of blocks given out.\<close>

type_synonym apool = "addr list \<times> addr set"

inductive apool_step :: "apool \<Rightarrow> apool \<Rightarrow> bool" where
  take: "apool_step (x # xs, A) (xs, insert x A)"
| give: "x \<in> A \<Longrightarrow> apool_step (xs, A) (x # xs, A - {x})"

text \<open>The free stack is read off the memory by following the list, at most \<open>n\<close> links.\<close>

primrec walk :: "mem \<Rightarrow> nat \<Rightarrow> addr \<Rightarrow> addr list" where
  "walk m 0 p = []"
| "walk m (Suc k) p =
     (if p = NULL then [] else p # (case load_ptr m p of None \<Rightarrow> [] | Some q \<Rightarrow> walk m k q))"

definition abs_pool :: "nat \<Rightarrow> pool_sys \<Rightarrow> apool" where
  "abs_pool n s = (case the_pool s of None \<Rightarrow> ([], held s)
     | Some (a, p) \<Rightarrow> (walk (the_mem s) n (free_list_head p), held s))"

definition apool_start :: "nat \<Rightarrow> apool \<Rightarrow> bool" where
  "apool_start n = (\<lambda>(xs, A). A = {} \<and> distinct xs \<and> length xs = n \<and> NULL \<notin> set xs)"

lemma walk_free_list: "free_list m p xs \<Longrightarrow> length xs \<le> k \<Longrightarrow> walk m k p = xs"
proof (induction xs arbitrary: p k)
  case Nil
  then show ?case by (cases k) auto
next
  case (Cons x xs)
  then show ?case by (cases k) (auto split: option.splits)
qed

lemma pool_inv_finite: "pool_inv p n m xs A \<Longrightarrow> finite A"
  by (metis finite_Un finite_imageI finite_lessThan blocks_def pool_inv_def)

lemma pool_inv_card: "pool_inv p n m xs A \<Longrightarrow> length xs + card A = n"
  using card_blocks [of p n m] pool_inv_finite [of p n m xs A]
    card_Un_disjoint [of "set xs" A] distinct_card [of xs]
  by (simp add: pool_inv_def)

lemma abs_pool_eq:
  "the_pool s = Some (a, p) \<Longrightarrow> pool_inv p n (the_mem s) xs (held s) \<Longrightarrow>
   abs_pool n s = (xs, held s)"
  using pool_inv_card [of p n "the_mem s" xs "held s"]
  by (simp add: abs_pool_def pool_inv_def walk_free_list)

lemma pool_step_sim:
  assumes "sys_inv n s" "pool_step s t"
  shows "sys_inv n t \<and> (abs_pool n t = abs_pool n s \<or> apool_step (abs_pool n s) (abs_pool n t))"
proof -
  from assms(1) obtain a p xs where
    pl: "the_pool s = Some (a, p)" and inv: "pool_inv p n (the_mem s) xs (held s)"
    by (auto simp: sys_inv_def)
  note as = abs_pool_eq [OF pl inv]
  have fin: "sys_inv n t \<and> abs_pool n t = (ys, held t)"
    if "the_pool t = Some (a, q)" "pool_inv q n (the_mem t) ys (held t)" for q ys
    using that abs_pool_eq [of t a q n ys] by (auto simp: sys_inv_def)
  from assms(2) show ?thesis
  proof cases
    case (alloc b pl')
    show ?thesis
    proof (cases xs)
      case Nil
      with inv have "pool_alloc (Some (a, p)) (the_mem s) = Some (NULL, Some (a, p))"
        using pool_alloc_empty by blast
      with alloc pl have "t = s" by simp
      with assms(1) show ?thesis by simp
    next
      case (Cons x ys)
      with inv have x: "x \<noteq> NULL" using pool_inv_null by fastforce
      from pool_alloc_take [of p n "the_mem s" x ys "held s" a] inv Cons obtain q where
        q: "pool_alloc (Some (a, p)) (the_mem s) = Some (x, Some (a, q))"
          "pool_inv q n (the_mem s) ys (insert x (held s))" by auto
      with alloc pl x have "the_pool t = Some (a, q)" "held t = insert x (held s)"
        "the_mem t = the_mem s" by auto
      with fin [of q ys] q(2) as Cons show ?thesis using apool_step.take by simp
    qed
  next
    case (free b pl' m)
    from pool_free_give [OF inv free(2), of a] obtain q m' where
      q: "pool_free (Some (a, p)) b (the_mem s) = Some (Some (a, q), m')"
        "pool_inv q n m' (b # xs) (held s - {b})" by auto
    with free pl have "the_pool t = Some (a, q)" "held t = held s - {b}" "the_mem t = m'"
      by auto
    with fin [of q "b # xs"] q(2) as free(2) show ?thesis using apool_step.give by simp
  next
    case (client_write b w bs m)
    with pl have "pool_inv p n m xs (held s)"
      using client_write_inv [OF inv, of b w bs m] by (simp add: the_block_span_def)
    with client_write pl show ?thesis using fin [of p xs] as by simp
  qed
qed

interpretation pool_run: simulation "pool_start n" pool_step "sys_inv n"
    "apool_start n" apool_step "abs_pool n" for n
proof unfold_locales
  fix s t
  show "sys_inv n t" if "sys_inv n s" "pool_step s t" using pool_step_sim that by blast
  show "abs_pool n t = abs_pool n s \<or> apool_step (abs_pool n s) (abs_pool n t)"
    if "sys_inv n s" "pool_step s t" using pool_step_sim that by blast
next
  fix s assume "pool_start n s"
  then obtain a p where s: "the_pool s = Some (a, p)" "held s = {}"
    "pool_inv p n (the_mem s) (rev (map (block_addr p) [0..<n])) {}"
    by (auto simp: pool_start_def)
  then show "sys_inv n s" by (auto simp: sys_inv_def)
  from s(3) have "abs_pool n s = (rev (map (block_addr p) [0..<n]), {})"
    using abs_pool_eq [OF s(1)] by (simp add: s(2))
  with s(3) pool_inv_null [OF s(3)] show "apool_start n (abs_pool n s)"
    by (simp add: apool_start_def pool_inv_def)
qed

lemma pool_create_start:
  assumes "malloc_spec malloc" "unat (real_block_size bs) * unat cnt < 2 ^ 64"
    and "pool_create malloc cfree bs cnt m = Some (Some (a, p), m')"
  shows "pool_start (unat cnt) \<lparr>the_pool = Some (a, p), the_mem = m', held = {}\<rparr>"
  using pool_create_inv [OF assms(1,2), of cfree m] assms(3) by (auto simp: pool_start_def)

lemma sys_inv_run:
  assumes "malloc_spec malloc" "unat (real_block_size bs) * unat cnt < 2 ^ 64"
    and "pool_create malloc cfree bs cnt m = Some (Some (a, p), m')"
    and "pool_step\<^sup>*\<^sup>* \<lparr>the_pool = Some (a, p), the_mem = m', held = {}\<rparr> t"
  shows "sys_inv (unat cnt) t"
  using pool_run.inv_run [OF pool_create_start [OF assms(1-3)] assms(4)] .

lemma sys_invE:
  assumes "sys_inv n s"
  obtains a p xs where "the_pool s = Some (a, p)" "pool_inv p n (the_mem s) xs (held s)"
  using assms by (auto simp: sys_inv_def)

subsection \<open>A concrete malloc for the witnesses\<close>

definition demo_malloc :: malloc_fn where
  "demo_malloc n m =
    (let p = (if n = 32 then 4096 else 8192)
     in if unat p + unat n \<le> 2 ^ 64 \<and> list_all (\<lambda>i. m (p + of_nat i) = None) [0..<unat n]
        then (p, \<lambda>x. if x \<in> span p (unat n) then Some 0 else m x)
        else (NULL, m))"

lemma demo_malloc_spec: "malloc_spec demo_malloc"
  unfolding malloc_spec_def demo_malloc_def Let_def
  by (auto simp: list_all_iff span_def split: if_splits)

lemma demo_malloc_pool: "demo_malloc sizeof_pool Map.empty =
    (4096, \<lambda>x. if x \<in> span 4096 32 then Some 0 else None)"
  by (simp add: demo_malloc_def sizeof_pool_def Let_def list_all_iff)

lemma demo_malloc_region:
  assumes "unat n \<le> 2 ^ 32" "n \<noteq> 32"
  shows "\<exists>m'. demo_malloc n (\<lambda>x. if x \<in> span 4096 32 then Some 0 else None) = (8192, m')"
proof -
  have "8192 + of_nat i \<notin> span 4096 32" if "i < unat n" for i
  proof -
    from that assms(1) have i: "i < 2 ^ 32" by simp
    then have "unat (8192 + of_nat i :: addr) = 8192 + i"
      by (simp add: unat_word_ariths unat_of_nat take_bit_nat_eq_self)
    then show ?thesis by (simp add: span_conv)
  qed
  with assms show ?thesis by (simp add: demo_malloc_def Let_def list_all_iff)
qed

lemma demo_fit: "unat (real_block_size 16) * unat (3 :: u64) < 2 ^ 64"
  by (simp add: real_block_size_def sizeof_node_def)

lemma demo_create: "\<exists>a p m'. pool_create demo_malloc (\<lambda>_ m. m) 16 3 Map.empty = Some (Some (a, p), m')"
proof -
  obtain m2 where m2: "demo_malloc 48 (\<lambda>x. if x \<in> span 4096 32 then Some 0 else None) = (8192, m2)"
    using demo_malloc_region [of 48] by auto
  from pool_create_inv [OF demo_malloc_spec demo_fit, of "\<lambda>_ m. m" Map.empty]
  show ?thesis
    by (auto simp: pool_create_def Let_def demo_malloc_pool m2 sizeof_node_def bind_eq_Some_conv
        split: prod.splits)
qed

text \<open>A run that allocates one block.\<close>

lemma demo_run:
  "\<exists>a p m' t. pool_create demo_malloc (\<lambda>_ m. m) 16 3 Map.empty = Some (Some (a, p), m') \<and>
     pool_step\<^sup>*\<^sup>* \<lparr>the_pool = Some (a, p), the_mem = m', held = {}\<rparr> t \<and> held t \<noteq> {}"
proof -
  obtain a p m' where c: "pool_create demo_malloc (\<lambda>_ m. m) 16 3 Map.empty = Some (Some (a, p), m')"
    using demo_create by blast
  let ?s = "\<lparr>the_pool = Some (a, p), the_mem = m', held = {}\<rparr>"
  have "unat (3 :: u64) = 3" by simp
  with pool_create_start [OF demo_malloc_spec demo_fit c]
  obtain xs where xs: "pool_inv p 3 m' xs {}" "length xs = 3" by (auto simp: pool_start_def)
  then obtain x ys where x: "xs = x # ys" by (cases xs) auto
  with xs pool_inv_null [of p 3 m' xs "{}"] have "x \<noteq> NULL" by auto
  moreover from x xs pool_alloc_take [of p 3 m' x ys "{}" a] obtain q where
    "pool_alloc (Some (a, p)) m' = Some (x, Some (a, q))" by blast
  ultimately have "pool_step ?s \<lparr>the_pool = Some (a, q), the_mem = m', held = {x}\<rparr>"
    using pool_step.alloc [of ?s x "Some (a, q)"] by simp
  with c show ?thesis by (auto intro!: exI r_into_rtranclp)
qed

subsection \<open>Properties\<close>





text \<open>
  C7. Safety for clients: in every state clients can reach, all blocks they hold lie in mapped
  memory, the byte ranges of two different held blocks do not overlap, and the next allocation
  does not fault and returns \<open>NULL\<close> exactly when all blocks are held (no early failure, no leak);
  otherwise it returns a block nobody holds.
\<close>

theorem pool_clients_separated:
  assumes "malloc_spec malloc" "unat (real_block_size bs) * unat cnt < 2 ^ 64"
    and "pool_create malloc cfree bs cnt m = Some (Some (a, p), m')"
    and "pool_step\<^sup>*\<^sup>* \<lparr>the_pool = Some (a, p), the_mem = m', held = {}\<rparr> t"
  shows "(\<forall>b \<in> held t. the_block_span t b \<subseteq> dom (the_mem t)) \<and>
    (\<forall>b \<in> held t. \<forall>c \<in> held t. b \<noteq> c \<longrightarrow> the_block_span t b \<inter> the_block_span t c = {}) \<and>
    (\<exists>b pl. pool_alloc (the_pool t) (the_mem t) = Some (b, pl) \<and> b \<notin> held t \<and>
           (b = NULL \<longleftrightarrow> card (held t) = unat cnt))"
proof (intro conjI)
  let ?n = "unat cnt"
  from sys_inv_run [OF assms] obtain a q xs where
    pl: "the_pool t = Some (a, q)" and inv: "pool_inv q ?n (the_mem t) xs (held t)"
    by (rule sys_invE)
  then have g: "pool_geom q ?n (the_mem t)" and sub: "held t \<subseteq> blocks q ?n"
    by (auto simp: pool_inv_def)
  show "\<forall>b \<in> held t. the_block_span t b \<subseteq> dom (the_mem t)"
    using sub block_span_mapped [OF g] pl by (fastforce simp: the_block_span_def elim!: blocksE)
  show "\<forall>b \<in> held t. \<forall>c \<in> held t. b \<noteq> c \<longrightarrow> the_block_span t b \<inter> the_block_span t c = {}"
    using sub blocks_disjoint [OF g] pl by (simp add: the_block_span_def subset_iff)
  show "\<exists>b pl. pool_alloc (the_pool t) (the_mem t) = Some (b, pl) \<and> b \<notin> held t \<and>
           (b = NULL \<longleftrightarrow> card (held t) = ?n)"
  proof (cases xs)
    case Nil
    with inv pool_inv_card [OF inv] pool_inv_null [OF inv] show ?thesis
      by (simp add: pl pool_alloc_empty)
  next
    case (Cons x ys)
    with inv pool_alloc_take [of q ?n "the_mem t" x ys "held t" a] obtain pl' where
      "pool_alloc (Some (a, q)) (the_mem t) = Some (x, pl')" by blast
    moreover from Cons inv pool_inv_null [OF inv] have "x \<notin> held t" "x \<noteq> NULL"
      by (auto simp: pool_inv_def)
    moreover from Cons pool_inv_card [OF inv] have "card (held t) \<noteq> ?n" by auto
    ultimately show ?thesis by (auto simp: pl)
  qed
qed

theorem pool_clients_separated_witness:
  "\<exists>a p m' t b pl. pool_create demo_malloc (\<lambda>_ m. m) 16 3 Map.empty = Some (Some (a, p), m') \<and>
     pool_step\<^sup>*\<^sup>* \<lparr>the_pool = Some (a, p), the_mem = m', held = {}\<rparr> t \<and> held t \<noteq> {} \<and>
     pool_alloc (the_pool t) (the_mem t) = Some (b, pl) \<and> b \<notin> held t"
proof -
  obtain a p m' t where c: "pool_create demo_malloc (\<lambda>_ m. m) 16 3 Map.empty = Some (Some (a, p), m')"
    and t: "pool_step\<^sup>*\<^sup>* \<lparr>the_pool = Some (a, p), the_mem = m', held = {}\<rparr> t" "held t \<noteq> {}"
    using demo_run by blast
  from pool_clients_separated [OF demo_malloc_spec demo_fit c t(1)] c t show ?thesis by blast
qed

text \<open>
  \<open>pool_free\<close> does not check that the block is in use: freeing the block at the head of the free
  list once more (a double free) succeeds silently and makes the list a loop on that block. From
  then on every allocation, however many are made, returns this same block, so two clients get
  the same memory.
\<close>

theorem pool_double_free_aliases:
  assumes "pool_inv p n m (b # xs) A"
  shows "\<exists>p' m'. pool_free (Some (a, p)) b m = Some (Some (a, p'), m') \<and>
    (\<forall>k. alloc_n al_pool k (Some (a, p'), m') = Some (replicate k b, (Some (a, p'), m')))"
proof -
  let ?p = "p\<lparr>free_list_head := b\<rparr>"
  from assms have g: "pool_geom p n m" and bb: "b \<in> blocks p n" and h: "free_list_head p = b"
    by (auto simp: pool_inv_def)
  from assms have nn: "b \<noteq> NULL" using pool_inv_null by fastforce
  from bb obtain i where i: "i < n" "b = block_addr p i" by (rule blocksE)
  with g have "span b 8 \<subseteq> dom m" using node_in_block block_span_mapped by blast
  then obtain m' where m': "store_ptr m b b = Some m'" using store_ptr_Some by blast
  moreover have "load_ptr m' b = Some b"
    using m' block_no_wrap [OF g i(1)] g i by (intro load_ptr_store_ptr) (auto simp: pool_geom_def)
  then have "alloc_n al_pool k (Some (a, ?p), m') = Some (replicate k b, (Some (a, ?p), m'))" for k
    using nn by (induction k) (auto simp: al_pool_def pool_alloc_def)
  ultimately show ?thesis using nn h by (auto simp: pool_free_def)
qed

theorem pool_double_free_aliases_witness:
  "\<exists>a p m' b q m''. pool_create demo_malloc (\<lambda>_ m. m) 16 3 Map.empty = Some (Some (a, p), m') \<and>
     pool_free (Some (a, p)) b m' = Some (q, m'') \<and>
     alloc_n al_pool 2 (q, m'') = Some ([b, b], (q, m''))"
proof -
  obtain a p m' where c: "pool_create demo_malloc (\<lambda>_ m. m) 16 3 Map.empty = Some (Some (a, p), m')"
    using demo_create by blast
  have "unat (3 :: u64) = 3" by simp
  with pool_create_start [OF demo_malloc_spec demo_fit c]
  obtain xs where xs: "pool_inv p 3 m' xs {}" "length xs = 3" by (auto simp: pool_start_def)
  then obtain b ys where "xs = b # ys" by (cases xs) auto
  with xs have "pool_inv p 3 m' (b # ys) {}" by simp
  from pool_double_free_aliases [OF this, of a] obtain p' m'' where
    f: "pool_free (Some (a, p)) b m' = Some (Some (a, p'), m'')" and
    al: "\<forall>k. alloc_n al_pool k (Some (a, p'), m'') = Some (replicate k b, (Some (a, p'), m''))"
    by blast
  from al have "alloc_n al_pool 2 (Some (a, p'), m'') = Some (replicate 2 b, (Some (a, p'), m''))"
    by blast
  with c f show ?thesis by (auto simp: numeral_2_eq_2)
qed

text \<open>
  The size computation of \<open>pool_create\<close> is unchecked: when \<open>block_size * block_count\<close> wraps to
  zero, \<open>malloc\<close> is asked for nothing, and if it answers with a non-null address the very first
  node write already falls outside what was allocated. Where nothing else happens to be mapped
  at that address the write faults, instead of the creation being refused.
\<close>

theorem pool_create_wrap_faults:
  assumes "real_block_size bs * cnt = 0" "cnt \<noteq> 0"
    and "malloc sizeof_pool m = (a, m1)" "a \<noteq> NULL" "malloc 0 m1 = (s, m2)" "s \<noteq> NULL"
    and "m2 s = None"
  shows "pool_create malloc cfree bs cnt m = None"
proof -
  have fault: "store_ptr m2 s h = None" for h
    using assms(7) by (cases "to_bytes 8 h") (auto simp: store_ptr_def to_bytes_def)
  have "link_blocks s (real_block_size bs) (Suc k) (NULL, m2) = None" for k
    by (induction k) (auto simp: link_block_def fault)
  moreover from assms(2) obtain k where "unat cnt = Suc k"
    by (metis not0_implies_Suc unat_eq_zero)
  ultimately show ?thesis
    using assms
    by (simp add: pool_create_def Let_def real_block_size_def [symmetric] del: link_blocks.simps)
qed

theorem pool_create_wrap_faults_witness:
  "pool_create demo_malloc (\<lambda>_ m. m) (2 ^ 63) 2 Map.empty = None"
proof (rule pool_create_wrap_faults)
  show "real_block_size (2 ^ 63) * 2 = 0"
    by (simp add: real_block_size_def sizeof_node_def)
  show "demo_malloc sizeof_pool Map.empty = (4096, \<lambda>x. if x \<in> span 4096 32 then Some 0 else None)"
    by (rule demo_malloc_pool)
  show "demo_malloc 0 (\<lambda>x. if x \<in> span 4096 32 then Some 0 else None) =
      (8192, \<lambda>x. if x \<in> span 4096 32 then Some 0 else None)"
    by (simp add: demo_malloc_def Let_def)
  show "(if (8192 :: addr) \<in> span 4096 32 then Some (0 :: byte) else None) = None"
    by (simp add: span_conv)
qed simp_all

end
