(* ===== verification/CStrings.thy ===== *)
theory CStrings
  imports Prelude
begin

section \<open>C strings and buffers\<close>

text \<open>
  A C string is the list of characters before its terminating NUL; a \<open>char\<close> array is the list of
  all its elements. The comparisons give what the code tests (\<open>strncmp(...) == 0\<close>), \<open>memcpy\<close> and
  \<open>write\<close> return \<^const>\<open>None\<close> where they would touch bytes outside the arrays they are given.
\<close>

abbreviation NUL :: char where "NUL \<equiv> CHR 0x00"
abbreviation LF :: char where "LF \<equiv> CHR 0x0A"

definition c_str :: "string \<Rightarrow> string" where
  "c_str buf = takeWhile (\<lambda>c. c \<noteq> NUL) buf"

definition strncmp_eq :: "string \<Rightarrow> string \<Rightarrow> nat \<Rightarrow> bool" where
  "strncmp_eq s t n \<longleftrightarrow> take n s = take n t"

definition strcmp_eq :: "string \<Rightarrow> string \<Rightarrow> bool" where
  "strcmp_eq s t \<longleftrightarrow> s = t"

text \<open>\<open>memcpy(dst + off, src, n)\<close>; \<open>src\<close> is a string with its terminator.\<close>

definition memcpy_at :: "string \<Rightarrow> nat \<Rightarrow> string \<Rightarrow> nat \<Rightarrow> string option" where
  "memcpy_at dst off src n =
    (if off + n \<le> length dst \<and> n \<le> Suc (length src)
     then Some (take off dst @ take n (src @ [NUL]) @ drop (off + n) dst) else None)"

text \<open>\<open>write(fd, s, n)\<close> with a string literal, and with an array: the bytes sent.\<close>

definition write_lit :: "string \<Rightarrow> nat \<Rightarrow> string option" where
  "write_lit s n = (if n \<le> Suc (length s) then Some (take n (s @ [NUL])) else None)"

definition write_arr :: "string \<Rightarrow> nat \<Rightarrow> string option" where
  "write_arr a n = (if n \<le> length a then Some (take n a) else None)"

text \<open>\<open>snprintf(resp, n, ...)\<close>: the text, cut so that the terminator fits.\<close>

definition snprintf :: "nat \<Rightarrow> string \<Rightarrow> string" where
  "snprintf n text = take (n - 1) text"

lemma c_str_no_nul: "NUL \<notin> set (c_str b)"
  by (auto simp: c_str_def dest: set_takeWhileD)

lemma length_c_str: "length (c_str b) \<le> length b"
  by (simp add: c_str_def length_takeWhile_le)

lemma c_str_id: "NUL \<notin> set s \<Longrightarrow> c_str s = s"
  unfolding c_str_def by (subst takeWhile_eq_all_conv) auto

lemma c_str_append_NUL: "NUL \<notin> set s \<Longrightarrow> c_str (s @ NUL # t) = s"
  by (simp add: c_str_def takeWhile_append)

lemma c_str_cut: "c_str (msg @ NUL # t) = c_str msg"
proof (cases "NUL \<in> set msg")
  case True
  then obtain ys zs where "msg = ys @ NUL # zs" "NUL \<notin> set ys" using split_list_first by metis
  then show ?thesis using c_str_append_NUL [of ys] by simp
next
  case False
  then show ?thesis by (simp add: c_str_append_NUL c_str_id)
qed

lemma memcpy_at_Some:
  "off + n \<le> length d \<Longrightarrow> n \<le> Suc (length s) \<Longrightarrow> \<exists>d'. memcpy_at d off s n = Some d'"
  by (simp add: memcpy_at_def)

lemma length_memcpy_at: "memcpy_at d off s n = Some d' \<Longrightarrow> length d' = length d"
  by (auto simp: memcpy_at_def split: if_splits)

lemma take_memcpy_at:
  "memcpy_at d off s n = Some d' \<Longrightarrow> n \<le> length s \<Longrightarrow> take (off + n) d' = take off d @ take n s"
  by (auto simp: memcpy_at_def split: if_splits)

lemma write_lit_full: "n = length s \<Longrightarrow> write_lit s n = Some s"
  by (simp add: write_lit_def)

end
