(* ===== verification/Resmgr.thy ===== *)
theory Resmgr
  imports CStrings
begin

section \<open>The device and the commands of the resource manager (resmgr.c)\<close>

text \<open>
  The device state \<open>device_t\<close> and \<open>handle_command\<close>. Each command locks the device, works on it and
  unlocks it, so a command is one atomic operation on the device; the answer is what it writes to
  the client's socket. \<^const>\<open>None\<close> is an access outside an array. The abstract device at the end is
  what the commands mean: a bounded append-only text with an access mode.
\<close>

subsection \<open>Data and operations, as in the code\<close>

definition DEVICE_BUF_SIZE :: u64 where "DEVICE_BUF_SIZE = 4096"
definition PERM_RW :: int where "PERM_RW = 0"
definition PERM_RO :: int where "PERM_RO = 1"
definition PERM_WO :: int where "PERM_WO = 2"
definition DEV_OPEN :: u32 where "DEV_OPEN = 1"
definition DEV_BUSY :: u32 where "DEV_BUSY = 2"

record device =
  dbuffer :: string
  dsize :: u64
  dflags :: u32
  dpermissions :: int

definition dev_initial :: device where
  "dev_initial = \<lparr>dbuffer = replicate (unat DEVICE_BUF_SIZE) NUL, dsize = 0, dflags = 0,
                  dpermissions = PERM_RW\<rparr>"

definition cmd_read :: "device \<Rightarrow> (string \<times> device) option" where
  "cmd_read d =
    (if dpermissions d = PERM_WO then do { r \<leftarrow> write_lit (''Permission denied'' @ [LF]) 18; Some (r, d) }
     else if dsize d > 0 then do { r \<leftarrow> write_arr (dbuffer d) (unat (dsize d)); Some (r, d) }
     else do { r \<leftarrow> write_lit (''<buffer empty>'' @ [LF]) 15; Some (r, d) })"

text \<open>\<open>strlen(data)\<close> bytes, or as many as still fit.\<close>

definition write_len :: "string \<Rightarrow> device \<Rightarrow> u64" where
  "write_len data d =
    (let len = of_nat (length data)
     in if len + dsize d > DEVICE_BUF_SIZE then DEVICE_BUF_SIZE - dsize d else len)"

definition cmd_write :: "string \<Rightarrow> device \<Rightarrow> (string \<times> device) option" where
  "cmd_write cmd d =
    (if dpermissions d = PERM_RO then do { r \<leftarrow> write_lit (''Permission denied'' @ [LF]) 18; Some (r, d) }
     else
      (let data = drop 6 cmd; len = write_len data d
       in do {
         buf \<leftarrow> memcpy_at (dbuffer d) (unat (dsize d)) data (unat len);
         let resp = snprintf 1024 (''OK, '' @ show_nat (unat len) @ '' bytes written'' @ [LF]);
         Some (resp, d\<lparr>dbuffer := buf, dsize := dsize d + len\<rparr>) }))"

definition cmd_info :: "device \<Rightarrow> (string \<times> device) option" where
  "cmd_info d =
    (let resp = snprintf 1024 (''Size='' @ show_nat (unat (dsize d)) @ '', Flags='' @
                  show_int (sint (dflags d)) @ '', Permissions='' @ show_int (dpermissions d) @ [LF])
     in Some (resp, d))"

definition cmd_clear :: "device \<Rightarrow> (string \<times> device) option" where
  "cmd_clear d =
    (if dpermissions d = PERM_RO then do { r \<leftarrow> write_lit (''Permission denied'' @ [LF]) 18; Some (r, d) }
     else do { r \<leftarrow> write_lit (''Buffer cleared'' @ [LF]) 15; Some (r, d\<lparr>dsize := 0\<rparr>) })"

definition cmd_setperm :: "string \<Rightarrow> device \<Rightarrow> (string \<times> device) option" where
  "cmd_setperm cmd d =
    (let arg = drop 8 cmd
     in if strncmp_eq arg ''rw'' 2 then do {
          r \<leftarrow> write_lit (''Permission set'' @ [LF]) 15; Some (r, d\<lparr>dpermissions := PERM_RW\<rparr>) }
        else if strncmp_eq arg ''ro'' 2 then do {
          r \<leftarrow> write_lit (''Permission set'' @ [LF]) 15; Some (r, d\<lparr>dpermissions := PERM_RO\<rparr>) }
        else if strncmp_eq arg ''wo'' 2 then do {
          r \<leftarrow> write_lit (''Permission set'' @ [LF]) 15; Some (r, d\<lparr>dpermissions := PERM_WO\<rparr>) }
        else do { r \<leftarrow> write_lit (''Unknown permission'' @ [LF]) 19; Some (r, d) })"

definition handle_command :: "string \<Rightarrow> device \<Rightarrow> (string \<times> device) option" where
  "handle_command cmd d =
    (if strncmp_eq cmd ''READ'' 4 then cmd_read d
     else if strncmp_eq cmd ''WRITE '' 6 then cmd_write cmd d
     else if strcmp_eq cmd (''INFO'' @ [LF]) then cmd_info d
     else if strcmp_eq cmd (''CLEAR'' @ [LF]) then cmd_clear d
     else if strncmp_eq cmd ''SETPERM '' 8 then cmd_setperm cmd d
     else do { r \<leftarrow> write_lit (''Unknown command'' @ [LF]) 16; Some (r, d) })"

text \<open>The two critical sections of \<open>client_thread\<close> around its command loop.\<close>

definition mark_busy :: "device \<Rightarrow> device" where
  "mark_busy d = d\<lparr>dflags := dflags d OR (DEV_OPEN OR DEV_BUSY)\<rparr>"

definition clear_busy :: "device \<Rightarrow> device" where
  "clear_busy d = d\<lparr>dflags := dflags d AND NOT DEV_BUSY\<rparr>"

text \<open>
  The command loop: the input is what the successive \<open>recv(fd, buf, 1023, 0)\<close> calls deliver; the
  empty chunk is a result of zero or an error, where the loop ends. The terminator is stored at
  \<open>buf[n]\<close>, which is in bounds as long as \<open>n < 1024\<close>.
\<close>

fun client_loop :: "string list \<Rightarrow> device \<Rightarrow> (string list \<times> device) option" where
  "client_loop [] d = Some ([], d)"
| "client_loop (chunk # rest) d =
     (if chunk = [] then Some ([], d)
      else if 1024 \<le> length chunk then None
      else do {
        (r, d') \<leftarrow> handle_command (c_str (chunk @ [NUL])) d;
        (rs, d'') \<leftarrow> client_loop rest d';
        Some (r # rs, d'') })"

definition client_thread :: "string list \<Rightarrow> device \<Rightarrow> (string list \<times> device) option" where
  "client_thread chunks d = do { (rs, d') \<leftarrow> client_loop chunks (mark_busy d); Some (rs, clear_busy d') }"

subsection \<open>The abstract device\<close>

datatype access = RW | RO | WO

record adevice =
  contents :: string
  access_of :: access
  aflags :: u32

datatype command = Read | Write string | Info | Clear | SetPerm access | BadPerm | Unknown

definition parse_command :: "string \<Rightarrow> command" where
  "parse_command cmd =
    (if take 4 cmd = ''READ'' then Read
     else if take 6 cmd = ''WRITE '' then Write (drop 6 cmd)
     else if cmd = ''INFO'' @ [LF] then Info
     else if cmd = ''CLEAR'' @ [LF] then Clear
     else if take 8 cmd = ''SETPERM '' then
       (if take 2 (drop 8 cmd) = ''rw'' then SetPerm RW
        else if take 2 (drop 8 cmd) = ''ro'' then SetPerm RO
        else if take 2 (drop 8 cmd) = ''wo'' then SetPerm WO
        else BadPerm)
     else Unknown)"

primrec perm_code :: "access \<Rightarrow> int" where
  "perm_code RW = 0" | "perm_code RO = 1" | "perm_code WO = 2"

definition access_code :: "int \<Rightarrow> access" where
  "access_code p = (if p = 1 then RO else if p = 2 then WO else RW)"

definition capacity :: nat where "capacity = 4096"

fun exec_command :: "command \<Rightarrow> adevice \<Rightarrow> string \<times> adevice" where
  "exec_command Read a =
     (if access_of a = WO then (''Permission denied'' @ [LF], a)
      else if contents a = [] then (''<buffer empty>'' @ [LF], a)
      else (contents a, a))"
| "exec_command (Write w) a =
     (if access_of a = RO then (''Permission denied'' @ [LF], a)
      else (''OK, '' @ show_nat (min (length w) (capacity - length (contents a))) @
              '' bytes written'' @ [LF],
            a\<lparr>contents := take capacity (contents a @ w)\<rparr>))"
| "exec_command Info a =
     (''Size='' @ show_nat (length (contents a)) @ '', Flags='' @ show_int (sint (aflags a)) @
        '', Permissions='' @ show_int (perm_code (access_of a)) @ [LF], a)"
| "exec_command Clear a =
     (if access_of a = RO then (''Permission denied'' @ [LF], a)
      else (''Buffer cleared'' @ [LF], a\<lparr>contents := []\<rparr>))"
| "exec_command (SetPerm p) a = (''Permission set'' @ [LF], a\<lparr>access_of := p\<rparr>)"
| "exec_command BadPerm a = (''Unknown permission'' @ [LF], a)"
| "exec_command Unknown a = (''Unknown command'' @ [LF], a)"

definition abs_dev :: "device \<Rightarrow> adevice" where
  "abs_dev d = \<lparr>contents = take (unat (dsize d)) (dbuffer d),
                access_of = access_code (dpermissions d), aflags = dflags d\<rparr>"

definition dev_inv :: "device \<Rightarrow> bool" where
  "dev_inv d \<longleftrightarrow> length (dbuffer d) = 4096 \<and> unat (dsize d) \<le> 4096 \<and>
     dpermissions d \<in> {PERM_RW, PERM_RO, PERM_WO}"

lemmas perm_defs = PERM_RW_def PERM_RO_def PERM_WO_def
lemmas cmd_defs = cmd_read_def cmd_write_def cmd_info_def cmd_clear_def cmd_setperm_def

lemma dev_inv_initial [simp]: "dev_inv dev_initial"
  by (simp add: dev_inv_def dev_initial_def DEVICE_BUF_SIZE_def)

lemma abs_dev_initial: "abs_dev dev_initial = \<lparr>contents = [], access_of = RW, aflags = 0\<rparr>"
  by (simp add: abs_dev_def dev_initial_def access_code_def PERM_RW_def)

lemma length_contents: "dev_inv d \<Longrightarrow> length (contents (abs_dev d)) = unat (dsize d)"
  by (simp add: abs_dev_def dev_inv_def)

subsection \<open>Every command refines its meaning\<close>

lemma length_show_int:
  assumes "\<bar>i\<bar> < 10 ^ k" "0 < k"
  shows "length (show_int i) \<le> Suc k"
proof -
  have "nat \<bar>i\<bar> < 10 ^ k" using assms(1) by (simp add: nat_less_iff)
  then have "length (show_nat (nat \<bar>i\<bar>)) \<le> k" using assms(2) by (rule length_show_nat)
  then show ?thesis by (cases "i < 0") (auto simp: show_int_def)
qed

lemma snprintf_fits: "length s < n \<Longrightarrow> snprintf n s = s"
  by (simp add: snprintf_def)

lemma perm_code_access: "dev_inv d \<Longrightarrow> perm_code (access_of (abs_dev d)) = dpermissions d"
  by (auto simp: dev_inv_def abs_dev_def access_code_def perm_defs)

lemma access_RO: "dev_inv d \<Longrightarrow> access_of (abs_dev d) = RO \<longleftrightarrow> dpermissions d = PERM_RO"
  and access_WO: "dev_inv d \<Longrightarrow> access_of (abs_dev d) = WO \<longleftrightarrow> dpermissions d = PERM_WO"
  by (auto simp: dev_inv_def abs_dev_def access_code_def perm_defs)

lemma contents_empty: "dev_inv d \<Longrightarrow> contents (abs_dev d) = [] \<longleftrightarrow> dsize d = 0"
  using length_contents [of d] by (metis length_0_conv unat_0 unat_eq_zero)

lemma length_sint_u32: "length (show_int (sint (f :: u32))) \<le> 11"
proof -
  have "- 2147483648 \<le> sint f" "sint f < 2147483648"
    using sint_range_size [of f] by (simp_all add: word_size)
  then have "\<bar>sint f\<bar> < 10 ^ 10" by (simp add: abs_less_iff)
  from length_show_int [OF this] show ?thesis by simp
qed

lemma length_info: "dev_inv d \<Longrightarrow> length (''Size='' @ show_nat (unat (dsize d)) @ '', Flags='' @
    show_int (sint (dflags d)) @ '', Permissions='' @ show_int (dpermissions d) @ [LF]) < 1024"
  using length_show_nat [of "unat (dsize d)" 4] length_sint_u32 [of "dflags d"]
    length_show_int [of "dpermissions d" 1]
  by (auto simp: dev_inv_def perm_defs)

lemma unat_write_len:
  assumes len: "length w < 2 ^ 32" and s: "unat (dsize d) \<le> 4096"
  shows "unat (write_len w d) = min (length w) (capacity - unat (dsize d))"
proof -
  have lw: "unat (of_nat (length w) :: u64) = length w"
    using len by (simp add: unat_of_nat take_bit_nat_eq_self)
  have lws: "unat (of_nat (length w) + dsize d) = length w + unat (dsize d)"
    using len s unfolding unat_word_ariths lw by (simp add: mod_less)
  have "unat (4096 - dsize d) = 4096 - unat (dsize d)"
    using s by (simp add: unat_sub word_le_nat_alt)
  with s show ?thesis
    by (auto simp: write_len_def Let_def word_less_nat_alt lws lw capacity_def DEVICE_BUF_SIZE_def)
qed

lemma cmd_write_refines:
  assumes inv: "dev_inv d" and rw: "dpermissions d \<noteq> PERM_RO" and len: "length cmd < 2 ^ 32"
  shows "\<exists>d'. cmd_write cmd d = Some (''OK, '' @
      show_nat (min (length (drop 6 cmd)) (capacity - unat (dsize d))) @ '' bytes written'' @ [LF], d') \<and>
    dev_inv d' \<and> abs_dev d' = (abs_dev d)\<lparr>contents := take capacity (contents (abs_dev d) @ drop 6 cmd)\<rparr>"
proof -
  define w where "w = drop 6 cmd"
  define l where "l = write_len w d"
  let ?s = "unat (dsize d)"
  from inv have s: "?s \<le> 4096" and b: "length (dbuffer d) = 4096" by (auto simp: dev_inv_def)
  have l: "unat l = min (length w) (capacity - ?s)"
    using unat_write_len [of w d] len s by (simp add: l_def w_def)
  then have n: "?s + unat l \<le> 4096" "unat l \<le> length w" using s by (auto simp: capacity_def)
  then have "?s + unat l \<le> length (dbuffer d)" "unat l \<le> Suc (length w)" using b by linarith+
  then obtain buf where buf: "memcpy_at (dbuffer d) ?s w (unat l) = Some buf"
    using memcpy_at_Some by blast
  have sz: "unat (dsize d + l) = ?s + unat l" using n by (simp add: unat_word_ariths)
  have small: "unat l < 10 ^ 4" using n by simp
  have "length (''OK, '' @ show_nat (unat l) @ '' bytes written'' @ [LF]) < 1024"
    using length_show_nat [OF small] by simp
  then have "cmd_write cmd d = Some (''OK, '' @ show_nat (unat l) @ '' bytes written'' @ [LF],
      d\<lparr>dbuffer := buf, dsize := dsize d + l\<rparr>)"
    using rw buf by (simp add: cmd_write_def Let_def l_def [symmetric] w_def [symmetric] snprintf_fits)
  moreover have "take (?s + unat l) buf = take capacity (take ?s (dbuffer d) @ w)"
    using take_memcpy_at [OF buf n(2)] b s l by (simp add: capacity_def min_def)
  moreover have "dev_inv (d\<lparr>dbuffer := buf, dsize := dsize d + l\<rparr>)"
    using inv n length_memcpy_at [OF buf] by (simp add: dev_inv_def sz)
  ultimately show ?thesis by (simp add: abs_dev_def sz l w_def [symmetric])
qed

lemma handle_command_exec:
  assumes inv: "dev_inv d" and len: "length cmd < 2 ^ 32"
  shows "\<exists>r d'. handle_command cmd d = Some (r, d') \<and> dev_inv d' \<and>
    exec_command (parse_command cmd) (abs_dev d) = (r, abs_dev d')"
proof -
  note acc = access_RO [OF inv] access_WO [OF inv]
  have sz: "unat (dsize d) \<le> length (dbuffer d)" using inv by (simp add: dev_inv_def)
  show ?thesis
  proof (cases "parse_command cmd")
    case Read
    then have "handle_command cmd d = cmd_read d"
      by (simp add: parse_command_def handle_command_def strncmp_eq_def split: if_splits)
    with Read inv acc contents_empty [OF inv] sz show ?thesis
      by (auto simp: cmd_read_def write_lit_full write_arr_def word_neq_0_conv [symmetric])
        (simp_all add: abs_dev_def)
  next
    case (Write w)
    then have h: "handle_command cmd d = cmd_write cmd d" "w = drop 6 cmd"
      by (auto simp: parse_command_def handle_command_def strncmp_eq_def split: if_splits)
    show ?thesis
    proof (cases "dpermissions d = PERM_RO")
      case True
      with Write h inv acc show ?thesis by (simp add: cmd_write_def write_lit_full)
    next
      case False
      from cmd_write_refines [OF inv False len] Write h False acc length_contents [OF inv]
      show ?thesis by auto
    qed
  next
    case Info
    then have "handle_command cmd d = cmd_info d"
      by (simp add: parse_command_def handle_command_def strncmp_eq_def strcmp_eq_def split: if_splits)
    with Info inv perm_code_access [OF inv] length_contents [OF inv] length_info [OF inv]
    show ?thesis by (simp add: cmd_info_def snprintf_fits abs_dev_def)
  next
    case Clear
    then have "handle_command cmd d = cmd_clear d"
      by (simp add: parse_command_def handle_command_def strncmp_eq_def strcmp_eq_def split: if_splits)
    with Clear inv acc show ?thesis
      by (auto simp: cmd_clear_def write_lit_full dev_inv_def abs_dev_def)
  next
    case (SetPerm p)
    then have h: "handle_command cmd d = cmd_setperm cmd d"
      by (simp add: parse_command_def handle_command_def strncmp_eq_def strcmp_eq_def split: if_splits)
    from SetPerm have "take 2 (drop 8 cmd) = (case p of RW \<Rightarrow> ''rw'' | RO \<Rightarrow> ''ro'' | WO \<Rightarrow> ''wo'')"
      by (auto simp: parse_command_def split: if_splits)
    with h SetPerm inv show ?thesis
      by (cases p) (auto simp: cmd_setperm_def strncmp_eq_def write_lit_full dev_inv_def abs_dev_def
          access_code_def perm_defs)
  next
    case BadPerm
    then have "handle_command cmd d = cmd_setperm cmd d"
      "take 2 (drop 8 cmd) \<noteq> ''rw''" "take 2 (drop 8 cmd) \<noteq> ''ro''" "take 2 (drop 8 cmd) \<noteq> ''wo''"
      by (auto simp: parse_command_def handle_command_def strncmp_eq_def strcmp_eq_def split: if_splits)
    with BadPerm inv show ?thesis by (simp add: cmd_setperm_def strncmp_eq_def write_lit_full)
  next
    case Unknown
    then have "handle_command cmd d =
        do { r \<leftarrow> write_lit (''Unknown command'' @ [LF]) 16; Some (r, d) }"
      by (auto simp: parse_command_def handle_command_def strncmp_eq_def strcmp_eq_def split: if_splits)
    with Unknown inv show ?thesis by (simp add: write_lit_full)
  qed
qed

end
