(* ===== verification/Syscalls.thy ===== *)
theory Syscalls
  imports Prelude
begin

section \<open>System-call traces of the programs' main functions\<close>

text \<open>
  The set-up and tear-down code of a \<open>main\<close> is a sequence of system calls whose results decide how
  it goes on. A model of it takes those results as arguments and returns the trace of the calls
  that create or release something, with the exit status (\<^const>\<open>None\<close>: not terminated yet, the
  results supplied so far are used up). Descriptors and handles are numbers, named kernel objects
  are strings. \<open>open_fds\<close> and \<open>live_names\<close> read off a trace what is still held at its end.
\<close>

datatype act =
    Opened int          \<comment> \<open>a call returned this descriptor or handle\<close>
  | Closed int
  | HandedOver int      \<comment> \<open>passed to a thread that closes it\<close>
  | NameCreated string  \<comment> \<open>a name now exists in the file system or kernel\<close>
  | Unlinked string
  | Message string      \<comment> \<open>text on stdout or stderr\<close>

type_synonym exit_status = "nat option"

abbreviation (input) EXIT_SUCCESS :: nat where "EXIT_SUCCESS \<equiv> 0"
abbreviation (input) EXIT_FAILURE :: nat where "EXIT_FAILURE \<equiv> 1"

primrec open_fds :: "act list \<Rightarrow> int set \<Rightarrow> int set" where
  "open_fds [] S = S"
| "open_fds (a # as) S = open_fds as
     (case a of Opened fd \<Rightarrow> insert fd S | Closed fd \<Rightarrow> S - {fd} | HandedOver fd \<Rightarrow> S - {fd} | _ \<Rightarrow> S)"

primrec live_names :: "act list \<Rightarrow> string set \<Rightarrow> string set" where
  "live_names [] S = S"
| "live_names (a # as) S = live_names as
     (case a of NameCreated n \<Rightarrow> insert n S | Unlinked n \<Rightarrow> S - {n} | _ \<Rightarrow> S)"

text \<open>Every \<open>close\<close> of a trace is of a descriptor that is open at that point.\<close>

primrec closes_open :: "act list \<Rightarrow> int set \<Rightarrow> bool" where
  "closes_open [] S \<longleftrightarrow> True"
| "closes_open (a # as) S \<longleftrightarrow>
     (case a of Opened fd \<Rightarrow> closes_open as (insert fd S)
      | Closed fd \<Rightarrow> fd \<in> S \<and> closes_open as (S - {fd})
      | HandedOver fd \<Rightarrow> fd \<in> S \<and> closes_open as (S - {fd})
      | _ \<Rightarrow> closes_open as S)"

lemma open_fds_append [simp]: "open_fds (as @ bs) S = open_fds bs (open_fds as S)"
  by (induction as arbitrary: S) auto

lemma live_names_append [simp]: "live_names (as @ bs) S = live_names bs (live_names as S)"
  by (induction as arbitrary: S) auto

lemma closes_open_append [simp]:
  "closes_open (as @ bs) S \<longleftrightarrow> closes_open as S \<and> closes_open bs (open_fds as S)"
  by (induction as arbitrary: S) (auto split: act.splits)

end
