(* ===== verification/ResmgrServer.thy ===== *)
theory ResmgrServer
  imports Resmgr Syscalls
begin

section \<open>The resource manager's server and client (resmgr.c, client.c)\<close>

text \<open>
  The contract between the command handler and its callers as a locale, interpreted on
  \<open>handle_command\<close>; the server as a step relation in which any number of client threads interleave
  at the granularity of the device lock, refined by a server over the abstract device; the main
  functions of the server and of the client program as traces of their system calls.
\<close>

subsection \<open>The contract of a command handler\<close>

primrec handle_all :: "('c \<Rightarrow> 'd \<Rightarrow> ('r \<times> 'd) option) \<Rightarrow> 'c list \<Rightarrow> 'd \<Rightarrow> ('r list \<times> 'd) option" where
  "handle_all h [] d = Some ([], d)"
| "handle_all h (c # cs) d =
     do { (r, d') \<leftarrow> h c d; (rs, d'') \<leftarrow> handle_all h cs d'; Some (r # rs, d'') }"

primrec exec_all :: "('c \<Rightarrow> 'a \<Rightarrow> 'r \<times> 'a) \<Rightarrow> 'c list \<Rightarrow> 'a \<Rightarrow> 'r list \<times> 'a" where
  "exec_all ex [] a = ([], a)"
| "exec_all ex (c # cs) a =
     (let (r, a') = ex c a; (rs, a'') = exec_all ex cs a' in (r # rs, a''))"

locale command_service =
  fixes handle :: "'c \<Rightarrow> 'd \<Rightarrow> ('r \<times> 'd) option"
    and ex :: "'c \<Rightarrow> 'a \<Rightarrow> 'r \<times> 'a"
    and fine :: "'c \<Rightarrow> bool"
    and inv :: "'d \<Rightarrow> bool"
    and absd :: "'d \<Rightarrow> 'a"
  assumes handle_ex: "inv d \<Longrightarrow> fine c \<Longrightarrow>
    \<exists>r d'. handle c d = Some (r, d') \<and> inv d' \<and> ex c (absd d) = (r, absd d')"
begin

lemma handle_total: "inv d \<Longrightarrow> fine c \<Longrightarrow> handle c d \<noteq> None"
  using handle_ex by force

lemma handle_step:
  "inv d \<Longrightarrow> fine c \<Longrightarrow> handle c d = Some (r, d') \<Longrightarrow> inv d' \<and> ex c (absd d) = (r, absd d')"
  using handle_ex by force

lemma handle_all_ex:
  "inv d \<Longrightarrow> \<forall>c \<in> set cs. fine c \<Longrightarrow>
   \<exists>rs d'. handle_all handle cs d = Some (rs, d') \<and> inv d' \<and> exec_all ex cs (absd d) = (rs, absd d')"
proof (induction cs arbitrary: d)
  case Nil
  then show ?case by simp
next
  case (Cons c cs)
  then obtain r d1 where 1: "handle c d = Some (r, d1)" "inv d1" "ex c (absd d) = (r, absd d1)"
    using handle_ex [of d c] by auto
  from Cons.IH [OF 1(2)] Cons.prems(2) have "\<exists>rs d2. handle_all handle cs d1 = Some (rs, d2) \<and>
      inv d2 \<and> exec_all ex cs (absd d1) = (rs, absd d2)" by simp
  with 1 show ?case by auto
qed

end

text \<open>A chunk received by \<open>recv(fd, buf, 1023, 0)\<close>, and the command it is read as.\<close>

definition chunk_ok :: "string \<Rightarrow> bool" where
  "chunk_ok c \<longleftrightarrow> c \<noteq> [] \<and> length c < 1024"

definition chunk_text :: "string \<Rightarrow> string" where
  "chunk_text c = c_str (c @ [NUL])"

definition handle_chunk :: "string \<Rightarrow> device \<Rightarrow> (string \<times> device) option" where
  "handle_chunk c = handle_command (chunk_text c)"

definition exec_chunk :: "string \<Rightarrow> adevice \<Rightarrow> string \<times> adevice" where
  "exec_chunk c = exec_command (parse_command (chunk_text c))"

lemma length_chunk_text: "chunk_ok c \<Longrightarrow> length (chunk_text c) < 2 ^ 32"
  using length_c_str [of "c @ [NUL]"] by (simp add: chunk_text_def chunk_ok_def)

interpretation resmgr: command_service handle_chunk exec_chunk chunk_ok dev_inv abs_dev
  unfolding handle_chunk_def exec_chunk_def
  by unfold_locales (blast intro: handle_command_exec length_chunk_text)

lemma client_loop_handle_all:
  "\<forall>c \<in> set cs. chunk_ok c \<Longrightarrow> client_loop cs d = handle_all handle_chunk cs d"
  by (induction cs arbitrary: d)
    (auto simp: chunk_ok_def handle_chunk_def chunk_text_def)

subsection \<open>Client threads on the shared device\<close>

datatype phase = Accepted | Serving | Leaving

record server =
  sdev :: device
  sconns :: "nat \<Rightarrow> phase option"
  replies :: "(nat \<times> string) list"

definition server_initial :: server where
  "server_initial = \<lparr>sdev = dev_initial, sconns = Map.empty, replies = []\<rparr>"

inductive srv_step :: "server \<Rightarrow> server \<Rightarrow> bool" where
  accept: "sconns s fd = None \<Longrightarrow>
     srv_step s (s\<lparr>sconns := (sconns s)(fd \<mapsto> Accepted)\<rparr>)"
| mark: "sconns s fd = Some Accepted \<Longrightarrow>
     srv_step s (s\<lparr>sdev := mark_busy (sdev s), sconns := (sconns s)(fd \<mapsto> Serving)\<rparr>)"
| serve: "sconns s fd = Some Serving \<Longrightarrow> chunk_ok c \<Longrightarrow>
     handle_chunk c (sdev s) = Some (r, d) \<Longrightarrow>
     srv_step s (s\<lparr>sdev := d, replies := replies s @ [(fd, r)]\<rparr>)"
| hang_up: "sconns s fd = Some Serving \<Longrightarrow>
     srv_step s (s\<lparr>sdev := clear_busy (sdev s), sconns := (sconns s)(fd \<mapsto> Leaving)\<rparr>)"
| close_fd: "sconns s fd = Some Leaving \<Longrightarrow>
     srv_step s (s\<lparr>sconns := (sconns s)(fd := None)\<rparr>)"

text \<open>The same server over the abstract device.\<close>

record aserver =
  adev :: adevice
  aconns :: "nat \<Rightarrow> phase option"
  areplies :: "(nat \<times> string) list"

inductive asrv_step :: "aserver \<Rightarrow> aserver \<Rightarrow> bool" where
  a_accept: "aconns s fd = None \<Longrightarrow>
     asrv_step s (s\<lparr>aconns := (aconns s)(fd \<mapsto> Accepted)\<rparr>)"
| a_mark: "aconns s fd = Some Accepted \<Longrightarrow>
     asrv_step s (s\<lparr>adev := (adev s)\<lparr>aflags := aflags (adev s) OR 3\<rparr>,
                   aconns := (aconns s)(fd \<mapsto> Serving)\<rparr>)"
| a_serve: "aconns s fd = Some Serving \<Longrightarrow> exec_chunk c (adev s) = (r, a) \<Longrightarrow>
     asrv_step s (s\<lparr>adev := a, areplies := areplies s @ [(fd, r)]\<rparr>)"
| a_hang_up: "aconns s fd = Some Serving \<Longrightarrow>
     asrv_step s (s\<lparr>adev := (adev s)\<lparr>aflags := aflags (adev s) AND NOT 2\<rparr>,
                   aconns := (aconns s)(fd \<mapsto> Leaving)\<rparr>)"
| a_close: "aconns s fd = Some Leaving \<Longrightarrow>
     asrv_step s (s\<lparr>aconns := (aconns s)(fd := None)\<rparr>)"

definition abs_server :: "server \<Rightarrow> aserver" where
  "abs_server s = \<lparr>adev = abs_dev (sdev s), aconns = sconns s, areplies = replies s\<rparr>"

text \<open>
  The invariant: the device is well formed, a serving thread has set \<open>DEV_OPEN\<close>, and a set
  \<open>DEV_BUSY\<close> means that some thread serves.
\<close>

definition srv_inv :: "server \<Rightarrow> bool" where
  "srv_inv s \<longleftrightarrow> dev_inv (sdev s) \<and>
     ((\<exists>fd. sconns s fd = Some Serving) \<longrightarrow> bit (dflags (sdev s)) 0) \<and>
     (bit (dflags (sdev s)) 1 \<longrightarrow> (\<exists>fd. sconns s fd = Some Serving))"

lemma bit_flags [simp]:
  "bit (f OR (DEV_OPEN OR DEV_BUSY)) 0" "bit (f OR (DEV_OPEN OR DEV_BUSY)) (Suc 0)"
  "bit (f AND NOT DEV_BUSY) 0 = bit f 0" "\<not> bit (f AND NOT DEV_BUSY) (Suc 0)"
  by (simp_all add: DEV_OPEN_def DEV_BUSY_def bit_or_iff bit_and_iff bit_not_iff bit_1_iff bit_2_iff)

lemma dev_inv_flags [simp]: "dev_inv (d\<lparr>dflags := f\<rparr>) = dev_inv d"
  by (simp add: dev_inv_def)

lemma abs_mark: "abs_dev (mark_busy d) = (abs_dev d)\<lparr>aflags := aflags (abs_dev d) OR 3\<rparr>"
  by (simp add: abs_dev_def mark_busy_def DEV_OPEN_def DEV_BUSY_def)

lemma abs_clear: "abs_dev (clear_busy d) = (abs_dev d)\<lparr>aflags := aflags (abs_dev d) AND NOT 2\<rparr>"
  by (simp add: abs_dev_def clear_busy_def DEV_BUSY_def)

lemma exec_command_flags: "aflags (snd (exec_command c a)) = aflags a"
  by (cases c) auto

lemma handle_chunk_flags:
  "dev_inv d \<Longrightarrow> chunk_ok c \<Longrightarrow> handle_chunk c d = Some (r, d') \<Longrightarrow> dflags d' = dflags d"
  using resmgr.handle_step [of d c r d'] exec_command_flags [of "parse_command (chunk_text c)" "abs_dev d"]
  by (simp add: exec_chunk_def abs_dev_def)

lemma srv_step_sim:
  assumes inv: "srv_inv s" and st: "srv_step s t"
  shows "srv_inv t \<and> asrv_step (abs_server s) (abs_server t)"
  using st
proof cases
  case (accept fd)
  then have "(\<exists>g. sconns t g = Some Serving) \<longleftrightarrow> (\<exists>g. sconns s g = Some Serving)"
    by (auto simp: fun_upd_apply split: if_splits) (metis option.distinct(1))
  with accept show ?thesis
    using inv asrv_step.a_accept [of "abs_server s" fd] by (simp add: srv_inv_def abs_server_def del: fun_upd_apply)
next
  case (mark fd)
  then show ?thesis
    using inv asrv_step.a_mark [of "abs_server s" fd] abs_mark [of "sdev s"]
    by (auto simp: srv_inv_def abs_server_def mark_busy_def)
next
  case (serve fd c r d)
  from inv have d: "dev_inv (sdev s)" by (simp add: srv_inv_def)
  from resmgr.handle_step [OF d serve(3,4)] handle_chunk_flags [OF d serve(3,4)] show ?thesis
    using inv serve asrv_step.a_serve [of "abs_server s" fd c r "abs_dev d"]
    by (auto simp: srv_inv_def abs_server_def)
next
  case (hang_up fd)
  then show ?thesis
    using inv asrv_step.a_hang_up [of "abs_server s" fd] abs_clear [of "sdev s"]
    by (auto simp: srv_inv_def abs_server_def clear_busy_def)
next
  case (close_fd fd)
  then have "(\<exists>g. sconns t g = Some Serving) \<longleftrightarrow> (\<exists>g. sconns s g = Some Serving)"
    by (auto simp: fun_upd_apply split: if_splits) (metis option.inject phase.distinct(5))
  with close_fd show ?thesis
    using inv asrv_step.a_close [of "abs_server s" fd] by (simp add: srv_inv_def abs_server_def del: fun_upd_apply)
qed

interpretation srv_run: simulation "\<lambda>s. s = server_initial" srv_step srv_inv
    "\<lambda>a. a = abs_server server_initial" asrv_step abs_server
proof unfold_locales
  show "srv_inv s" if "s = server_initial" for s
    using that by (simp add: srv_inv_def server_initial_def dev_initial_def
        dev_inv_initial [unfolded dev_initial_def])
qed (use srv_step_sim in blast)+

lemma chunk_okI: "c \<noteq> [] \<Longrightarrow> length c < 1024 \<Longrightarrow> chunk_ok c"
  by (simp add: chunk_ok_def)

subsection \<open>The device as a text store\<close>

lemma chunk_text_id: "NUL \<notin> set c \<Longrightarrow> chunk_text c = c"
  by (simp add: chunk_text_def c_str_def takeWhile_append1 [of NUL] takeWhile_append)

lemma exec_chunk_write:
  assumes "NUL \<notin> set w" "access_of a \<noteq> RO"
  shows "snd (exec_chunk (''WRITE '' @ w) a) = a\<lparr>contents := take capacity (contents a @ w)\<rparr>"
  using assms by (simp add: exec_chunk_def chunk_text_id parse_command_def)

lemma take_take_append: "take n (take n (a @ b) @ c) = take n (a @ b @ c)"
  by (auto simp: min_def)

lemma exec_all_writes:
  assumes "\<forall>w \<in> set ws. NUL \<notin> set w" "access_of a \<noteq> RO" "length (contents a) \<le> capacity"
  shows "snd (exec_all exec_chunk (map (\<lambda>w. ''WRITE '' @ w) ws) a) =
           a\<lparr>contents := take capacity (contents a @ concat ws)\<rparr>"
  using assms
proof (induction ws arbitrary: a)
  case Nil
  then show ?case by simp
next
  case (Cons w ws)
  let ?a = "a\<lparr>contents := take capacity (contents a @ w)\<rparr>"
  from Cons.prems have "snd (exec_chunk (''WRITE '' @ w) a) = a\<lparr>contents := take capacity (contents a @ w)\<rparr>"
    by (intro exec_chunk_write) auto
  moreover from Cons.IH [of ?a] Cons.prems have "snd (exec_all exec_chunk
      (map (\<lambda>w. ''WRITE '' @ w) ws) ?a) = ?a\<lparr>contents := take capacity (contents ?a @ concat ws)\<rparr>"
    by simp
  ultimately show ?case
    by (simp add: split_beta Let_def take_take_append del: take_append)
qed

lemma exec_all_append:
  "exec_all ex (cs @ ds) a =
    (let (rs, a') = exec_all ex cs a; (rs', a'') = exec_all ex ds a' in (rs @ rs', a''))"
  by (induction cs arbitrary: a) (auto simp: split_beta Let_def)

lemma exec_all_length: "length (fst (exec_all ex cs a)) = length cs"
  by (induction cs arbitrary: a) (auto simp: split_beta Let_def)

subsection \<open>The main function of the server\<close>

definition EXAMPLE_SOCK_PATH :: string where
  "EXAMPLE_SOCK_PATH = ''/tmp/example_resmgr.sock''"

text \<open>\<open>options\<close>: what \<open>getopt\<close> returns before its \<open>-1\<close>, in order.\<close>

definition options :: "string \<Rightarrow> nat" where
  "options opts = foldl (\<lambda>optv opt. if opt = CHR ''v'' then optv + 1 else optv) 0 opts"

text \<open>
  The results of \<open>accept\<close>: a new descriptor, with whether \<open>pthread_create\<close> for it succeeds; the
  error \<open>EINTR\<close>; any other error. With the results used up the server still waits.
\<close>

datatype accept_result = Conn int bool | Accept_EINTR | Accept_error

fun accept_loop :: "accept_result list \<Rightarrow> act list \<times> bool" where
  "accept_loop [] = ([], False)"
| "accept_loop (Accept_EINTR # rs) = accept_loop rs"
| "accept_loop (Accept_error # rs) = ([Message ''accept''], True)"
| "accept_loop (Conn fd created # rs) =
     (let (as, ended) = accept_loop rs
      in (Opened fd # (if created then [HandedOver fd] else [Message ''pthread_create'', Closed fd]) @ as,
          ended))"

definition resmgr_main :: "int option \<Rightarrow> bool \<Rightarrow> bool \<Rightarrow> accept_result list \<Rightarrow> act list \<times> exit_status" where
  "resmgr_main sock bind_ok listen_ok accepts =
    (case sock of None \<Rightarrow> ([Message ''socket''], Some EXIT_FAILURE)
     | Some listen_fd \<Rightarrow>
        if \<not> bind_ok then
          ([Opened listen_fd, Unlinked EXAMPLE_SOCK_PATH, Message ''bind'', Closed listen_fd],
           Some EXIT_FAILURE)
        else if \<not> listen_ok then
          ([Opened listen_fd, Unlinked EXAMPLE_SOCK_PATH, NameCreated EXAMPLE_SOCK_PATH,
            Message ''listen'', Closed listen_fd, Unlinked EXAMPLE_SOCK_PATH], Some EXIT_FAILURE)
        else
          (let (as, ended) = accept_loop accepts;
               start = [Opened listen_fd, Unlinked EXAMPLE_SOCK_PATH, NameCreated EXAMPLE_SOCK_PATH]
           in if ended
              then (start @ as @ [Closed listen_fd, Unlinked EXAMPLE_SOCK_PATH], Some EXIT_SUCCESS)
              else (start @ as, None)))"

definition on_signal :: "int \<Rightarrow> act list \<times> exit_status" where
  "on_signal listen_fd =
    ((if listen_fd \<noteq> - 1 then [Closed listen_fd] else []) @ [Unlinked EXAMPLE_SOCK_PATH],
     Some 0)"

text \<open>\<open>install_signals\<close>: what becomes of each signal; a handler that interrupts does not restart the call.\<close>

datatype signo = SIGINT | SIGTERM | SIGPIPE
datatype disposition = Default | Handler "int \<Rightarrow> act list \<times> exit_status"

definition install_signals :: "(signo \<Rightarrow> disposition) \<Rightarrow> signo \<Rightarrow> disposition" where
  "install_signals d = d(SIGINT := Handler on_signal, SIGTERM := Handler on_signal)"

text \<open>\<open>SIGPIPE\<close>, which a \<open>write\<close> to a closed socket raises, is left as it was: it ends the process.\<close>

lemma install_signals_simps [simp]:
  "install_signals d SIGINT = Handler on_signal" "install_signals d SIGTERM = Handler on_signal"
  "install_signals d SIGPIPE = d SIGPIPE"
  by (simp_all add: install_signals_def)

lemma accept_loop_fds:
  assumes "\<forall>fd b. Conn fd b \<in> set rs \<longrightarrow> fd \<notin> S"
  shows "open_fds (fst (accept_loop rs)) S = S \<and> live_names (fst (accept_loop rs)) N = N \<and>
         closes_open (fst (accept_loop rs)) S"
  using assms by (induction rs rule: accept_loop.induct) (auto simp: split_beta Let_def)

subsection \<open>The client program\<close>

text \<open>
  \<open>client.c\<close>: the arguments are the results of \<open>socket\<close>, \<open>connect\<close>, \<open>send\<close> (the count it returns) and
  \<open>recv\<close> (\<^const>\<open>None\<close>: an error; otherwise the bytes, at most 1023).
\<close>

definition client_main ::
  "string list \<Rightarrow> int option \<Rightarrow> bool \<Rightarrow> int \<Rightarrow> string option \<Rightarrow> act list \<times> exit_status" where
  "client_main argv sock connected sent received =
    (if length argv < 2 then ([Message ''usage''], Some EXIT_FAILURE)
     else case sock of None \<Rightarrow> ([Message ''socket''], Some EXIT_FAILURE)
     | Some fd \<Rightarrow>
        if \<not> connected then ([Opened fd, Message ''connect'', Closed fd], Some EXIT_FAILURE)
        else
         (let msg = argv ! 1; len = length msg
          in if sent \<noteq> int len then ([Opened fd, Message ''send'', Closed fd], Some EXIT_FAILURE)
             else case received of
               None \<Rightarrow> ([Opened fd, Message ''recv'', Closed fd], Some EXIT_FAILURE)
             | Some buf \<Rightarrow>
                 ([Opened fd, Message (''response: '' @ c_str (buf @ [NUL]) @ [LF]), Closed fd],
                  Some EXIT_SUCCESS)))"

subsection \<open>Properties\<close>

text \<open>
  C5. Every command text, on every well-formed device, runs without an access outside an array,
  keeps the device well formed, and has exactly the answer and the effect of the command it
  parses to on the abstract device: a text of at most 4096 bytes that writes extend and cut at
  the capacity, with reads and writes refused by the access mode.
\<close>

theorem handle_command_refines:
  assumes "dev_inv d" "length cmd < 2 ^ 32"
  shows "\<exists>r d'. handle_command cmd d = Some (r, d') \<and> dev_inv d' \<and>
    exec_command (parse_command cmd) (abs_dev d) = (r, abs_dev d')"
  using assms by (rule handle_command_exec)

theorem handle_command_refines_witness:
  "\<exists>r d'. handle_command ''WRITE abc'' dev_initial = Some (r, d') \<and>
     contents (abs_dev d') = ''abc'' \<and> r = ''OK, 3 bytes written'' @ [LF]"
proof -
  obtain r d' where "handle_command ''WRITE abc'' dev_initial = Some (r, d')"
    and ex: "exec_command (parse_command ''WRITE abc'') (abs_dev dev_initial) = (r, abs_dev d')"
    using handle_command_refines [OF dev_inv_initial, of "''WRITE abc''"] by auto
  moreover from ex have "abs_dev d' = \<lparr>contents = ''abc'', access_of = RW, aflags = 0\<rparr>"
    "r = ''OK, 3 bytes written'' @ [LF]"
    by (simp_all add: parse_command_def abs_dev_initial capacity_def show_nat.simps)
  ultimately show ?thesis by simp
qed

text \<open>
  C2. However client threads interleave, the server refines the abstract server in which each
  command is one atomic operation on the abstract device; in every reachable state the stored
  text is within its 4096 bytes and every chunk a client can send is handled without a fault.
\<close>

theorem server_linearizes:
  assumes "srv_step\<^sup>*\<^sup>* server_initial t"
  shows "asrv_step\<^sup>*\<^sup>* (abs_server server_initial) (abs_server t) \<and>
    length (contents (adev (abs_server t))) \<le> 4096 \<and>
    (\<forall>c. chunk_ok c \<longrightarrow> handle_chunk c (sdev t) \<noteq> None)"
proof -
  from assms have "srv_inv t" using srv_run.inv_run by blast
  then have d: "dev_inv (sdev t)" by (simp add: srv_inv_def)
  with assms length_contents [OF d] resmgr.handle_total [OF d] srv_run.sim_run show ?thesis
    by (auto simp: abs_server_def dev_inv_def)
qed

lemma two_clients:
  "srv_step\<^sup>*\<^sup>* server_initial (server_initial\<lparr>sdev := clear_busy (mark_busy (mark_busy dev_initial)),
     sconns := Map.empty(4 \<mapsto> Leaving, 5 \<mapsto> Serving)\<rparr>)"
proof -
  let ?i = server_initial
  let ?s1 = "?i\<lparr>sconns := Map.empty(4 \<mapsto> Accepted)\<rparr>"
  let ?s2 = "?i\<lparr>sdev := mark_busy dev_initial, sconns := Map.empty(4 \<mapsto> Serving)\<rparr>"
  let ?s3 = "?i\<lparr>sdev := mark_busy dev_initial, sconns := Map.empty(4 \<mapsto> Serving, 5 \<mapsto> Accepted)\<rparr>"
  let ?s4 = "?i\<lparr>sdev := mark_busy (mark_busy dev_initial),
                sconns := Map.empty(4 \<mapsto> Serving, 5 \<mapsto> Serving)\<rparr>"
  let ?s5 = "?i\<lparr>sdev := clear_busy (mark_busy (mark_busy dev_initial)),
                sconns := Map.empty(4 \<mapsto> Leaving, 5 \<mapsto> Serving)\<rparr>"
  have "srv_step ?i ?s1" using srv_step.accept [of ?i 4] by (simp add: server_initial_def)
  moreover have "srv_step ?s1 ?s2" using srv_step.mark [of ?s1 4] by (simp add: server_initial_def)
  moreover have "srv_step ?s2 ?s3" using srv_step.accept [of ?s2 5] by (simp add: server_initial_def)
  moreover have "srv_step ?s3 ?s4" using srv_step.mark [of ?s3 5] by (simp add: server_initial_def)
  moreover have "srv_step ?s4 ?s5"
    using srv_step.hang_up [of ?s4 4] by (simp add: server_initial_def fun_upd_twist)
  ultimately show ?thesis by (meson converse_rtranclp_into_rtranclp rtranclp.rtrancl_refl)
qed

theorem server_linearizes_witness:
  "\<exists>t. srv_step\<^sup>*\<^sup>* server_initial t \<and> sconns t 5 = Some Serving \<and>
     asrv_step\<^sup>*\<^sup>* (abs_server server_initial) (abs_server t) \<and>
     handle_chunk ''INFO'' (sdev t) \<noteq> None"
  using server_linearizes [OF two_clients] two_clients
  by (intro exI conjI) (auto simp: chunk_ok_def)

text \<open>
  C11. What clients write is what they read back: a session on the fresh device that sends any
  number of \<open>WRITE\<close> commands and then \<open>READ\<close> gets as its last answer the concatenation of all
  payloads, cut at the capacity of 4096 bytes (or the empty-buffer notice).
\<close>

theorem resmgr_read_back:
  assumes "\<forall>w \<in> set ws. NUL \<notin> set w \<and> length w \<le> 1017"
  shows "\<exists>rs d'. client_thread (map (\<lambda>w. ''WRITE '' @ w) ws @ [''READ'']) dev_initial = Some (rs, d') \<and>
    length rs = Suc (length ws) \<and>
    last rs = (if concat ws = [] then ''<buffer empty>'' @ [LF] else take 4096 (concat ws))"
proof -
  let ?cs = "map (\<lambda>w. ''WRITE '' @ w) ws" and ?d = "mark_busy dev_initial"
  have ok: "\<forall>c \<in> set (?cs @ [''READ'']). chunk_ok c" using assms by (auto simp: chunk_ok_def)
  have inv: "dev_inv ?d" using dev_inv_initial by (simp add: mark_busy_def)
  from resmgr.handle_all_ex [OF inv ok] obtain rs d' where
    run: "client_loop (?cs @ [''READ'']) ?d = Some (rs, d')" and
    ex: "exec_all exec_chunk (?cs @ [''READ'']) (abs_dev ?d) = (rs, abs_dev d')"
    using client_loop_handle_all [OF ok] by auto
  let ?a = "snd (exec_all exec_chunk ?cs (abs_dev ?d))"
  have a: "?a = (abs_dev ?d)\<lparr>contents := take capacity (concat ws)\<rparr>"
    using exec_all_writes [of ws "abs_dev ?d"] assms abs_dev_initial
    by (simp add: abs_mark)
  from ex have rs: "rs = fst (exec_all exec_chunk ?cs (abs_dev ?d)) @ [fst (exec_chunk ''READ'' ?a)]"
    by (auto simp: exec_all_append split_beta Let_def)
  have "fst (exec_chunk ''READ'' ?a) =
      (if concat ws = [] then ''<buffer empty>'' @ [LF] else take 4096 (concat ws))"
    unfolding a
    by (simp add: exec_chunk_def chunk_text_id parse_command_def abs_mark abs_dev_initial capacity_def)
  with rs run show ?thesis by (simp add: client_thread_def exec_all_length)
qed

theorem resmgr_read_back_witness:
  "\<exists>rs d'. client_thread [''WRITE ab'', ''WRITE c'', ''READ''] dev_initial = Some (rs, d') \<and>
     last rs = ''abc''"
  using resmgr_read_back [of "[''ab'', ''c'']"] by auto

text \<open>
  C33. The access mode is enforced by every command. On a read-only device no command but \<open>SETPERM\<close>
  changes the stored text. On a write-only device the answers reveal nothing of the text but its
  length: two devices that differ in the text only give the same answer to every command.
\<close>

theorem permissions_enforced:
  assumes "dev_inv d" "dev_inv e" "length cmd < 2 ^ 32"
  shows "(dpermissions d = PERM_RO \<and> handle_command cmd d = Some (r, d') \<and>
            (\<forall>p. parse_command cmd \<noteq> SetPerm p) \<longrightarrow> contents (abs_dev d') = contents (abs_dev d)) \<and>
    (dpermissions d = PERM_WO \<and> dpermissions e = PERM_WO \<and> dsize d = dsize e \<and> dflags d = dflags e \<longrightarrow>
       map_option fst (handle_command cmd d) = map_option fst (handle_command cmd e))"
proof (intro conjI impI)
  assume ro: "dpermissions d = PERM_RO \<and> handle_command cmd d = Some (r, d') \<and>
    (\<forall>p. parse_command cmd \<noteq> SetPerm p)"
  from handle_command_exec [OF assms(1,3)] ro have
    "exec_command (parse_command cmd) (abs_dev d) = (r, abs_dev d')" by auto
  with ro access_RO [OF assms(1)] show "contents (abs_dev d') = contents (abs_dev d)"
    by (cases "parse_command cmd") (auto split: if_splits)
next
  assume wo: "dpermissions d = PERM_WO \<and> dpermissions e = PERM_WO \<and> dsize d = dsize e \<and>
    dflags d = dflags e"
  have "fst (exec_command c (abs_dev d)) = fst (exec_command c (abs_dev e))" for c
    using wo access_WO [OF assms(1)] access_WO [OF assms(2)] length_contents [OF assms(1)]
      length_contents [OF assms(2)] perm_code_access [OF assms(1)] perm_code_access [OF assms(2)]
    by (cases c) (auto simp: abs_dev_def access_code_def)
  with handle_command_exec [OF assms(1,3)] handle_command_exec [OF assms(2,3)]
  show "map_option fst (handle_command cmd d) = map_option fst (handle_command cmd e)"
    by (metis fst_conv option.simps(9))
qed

theorem permissions_enforced_witness:
  "\<exists>r d'. handle_command ''WRITE x'' (dev_initial\<lparr>dpermissions := PERM_RO\<rparr>) = Some (r, d') \<and>
     contents (abs_dev d') = contents (abs_dev (dev_initial\<lparr>dpermissions := PERM_RO\<rparr>))"
proof -
  have inv: "dev_inv (dev_initial\<lparr>dpermissions := PERM_RO\<rparr>)"
    using dev_inv_initial by (simp add: dev_inv_def)
  from handle_command_exec [OF inv, of "''WRITE x''"] obtain r d' where
    h: "handle_command ''WRITE x'' (dev_initial\<lparr>dpermissions := PERM_RO\<rparr>) = Some (r, d')" by auto
  with permissions_enforced [OF inv inv, of "''WRITE x''" r d'] show ?thesis
    by (auto simp: parse_command_def)
qed

text \<open>
  The device flags in every reachable state: a thread that serves a client has set \<open>DEV_OPEN\<close>,
  and \<open>DEV_BUSY\<close> is set only while some thread serves a client.
\<close>

lemma server_flags_sound:
  assumes "srv_step\<^sup>*\<^sup>* server_initial t"
  shows "(sconns t fd = Some Serving \<longrightarrow> dflags (sdev t) AND DEV_OPEN \<noteq> 0) \<and>
    (dflags (sdev t) AND DEV_BUSY \<noteq> 0 \<longrightarrow> (\<exists>g. sconns t g = Some Serving))"
proof -
  have open_bit: "f AND DEV_OPEN \<noteq> 0 \<longleftrightarrow> bit f 0" for f :: u32
    by (simp add: DEV_OPEN_def and_one_eq bit_0 even_iff_mod_2_eq_zero odd_iff_mod_2_eq_one)
  have busy_bit: "f AND DEV_BUSY \<noteq> 0 \<longleftrightarrow> bit f 1" for f :: u32
    using and_exp_eq_0_iff_not_bit [of f 1] by (simp add: DEV_BUSY_def)
  from assms have "srv_inv t" using srv_run.inv_run by blast
  then show ?thesis unfolding open_bit busy_bit by (auto simp: srv_inv_def)
qed

text \<open>
  \<open>DEV_BUSY\<close> is no count of the clients: the first client that hangs up clears it, so a state is
  reachable in which a thread serves a client while the flag is clear.
\<close>

theorem busy_flag_lost:
  "\<exists>t. srv_step\<^sup>*\<^sup>* server_initial t \<and> sconns t 5 = Some Serving \<and> dflags (sdev t) AND DEV_BUSY = 0"
proof -
  let ?t = "server_initial\<lparr>sdev := clear_busy (mark_busy (mark_busy dev_initial)),
              sconns := Map.empty(4 \<mapsto> Leaving, 5 \<mapsto> Serving)\<rparr>"
  have "sconns ?t 5 = Some Serving" "dflags (sdev ?t) AND DEV_BUSY = 0"
    by (simp_all add: clear_busy_def and.assoc)
  with two_clients show ?thesis by blast
qed

text \<open>
  The server releases what it acquired: on each way out of \<open>main\<close> every descriptor it opened is
  closed or with a client thread, no descriptor is closed twice, and the socket's name is gone; a
  server still waiting in \<open>accept\<close> leaves the same state when a signal ends it.
\<close>

theorem resmgr_main_releases:
  assumes "\<forall>fd b. Conn fd b \<in> set accepts \<longrightarrow> fd \<noteq> l" "l \<noteq> -1"
    "resmgr_main (Some l) bind_ok listen_ok accepts = (tr, ex)"
  shows "let full = (if ex = None then tr @ fst (on_signal l) else tr)
    in closes_open full {} \<and> open_fds full {} = {} \<and>
       (bind_ok \<longrightarrow> EXAMPLE_SOCK_PATH \<notin> live_names full N)"
proof -
  have "\<forall>fd b. Conn fd b \<in> set accepts \<longrightarrow> fd \<notin> {l}" using assms(1) by blast
  note fds = accept_loop_fds [OF this]
  from assms(2,3) fds [of "insert EXAMPLE_SOCK_PATH (N - {EXAMPLE_SOCK_PATH})"] show ?thesis
    by (auto simp: resmgr_main_def on_signal_def Let_def split_beta split: if_splits)
qed

theorem resmgr_main_releases_witness:
  "let tr = fst (resmgr_main (Some 3) True True [Conn 4 True, Accept_EINTR, Conn 5 False])
   in closes_open (tr @ fst (on_signal 3)) {} \<and> open_fds (tr @ fst (on_signal 3)) {} = {}"
proof -
  have run: "resmgr_main (Some 3) True True [Conn 4 True, Accept_EINTR, Conn 5 False] =
    ([Opened 3, Unlinked EXAMPLE_SOCK_PATH, NameCreated EXAMPLE_SOCK_PATH, Opened 4, HandedOver 4,
      Opened 5, Message ''pthread_create'', Closed 5], None)"
    by (simp add: resmgr_main_def)
  from resmgr_main_releases [OF _ _ run] show ?thesis by (simp add: run Let_def)
qed

lemma exec_command_grows:
  "c \<noteq> Clear \<Longrightarrow> length (contents a) \<le> capacity \<Longrightarrow>
   take (length (contents a)) (contents (snd (exec_command c a))) = contents a"
  by (cases c) auto

text \<open>
  \<open>client.c\<close> sends its argument without a line feed, while the server compares \<open>INFO\<close> and \<open>CLEAR\<close>
  with their line feed: whatever one-line argument the client is given, the server's text only
  grows, and the arguments \<open>INFO\<close> and \<open>CLEAR\<close> are printed back as an unknown command.
\<close>

theorem client_cannot_clear:
  assumes "dev_inv d" "chunk_ok msg" "NUL \<notin> set msg" "LF \<notin> set msg"
  shows "\<exists>r d'. handle_chunk msg d = Some (r, d') \<and>
    take (length (contents (abs_dev d))) (contents (abs_dev d')) = contents (abs_dev d) \<and>
    (msg = ''INFO'' \<or> msg = ''CLEAR'' \<longrightarrow> d' = d \<and>
      client_main [prog, msg] (Some fd) True (int (length msg)) (Some r) =
        ([Opened fd, Message (''response: Unknown command'' @ [LF, LF]), Closed fd], Some EXIT_SUCCESS))"
proof -
  from resmgr.handle_ex [OF assms(1,2)] obtain r d' where h: "handle_chunk msg d = Some (r, d')"
    and ex: "exec_command (parse_command msg) (abs_dev d) = (r, abs_dev d')"
    by (auto simp: exec_chunk_def chunk_text_id [OF assms(3)])
  have p: "parse_command msg \<noteq> Info" "parse_command msg \<noteq> Clear"
    using assms(4) by (auto simp: parse_command_def)
  have "length (contents (abs_dev d)) \<le> capacity"
    using length_contents [OF assms(1)] assms(1) by (simp add: dev_inv_def capacity_def)
  with p exec_command_grows [of "parse_command msg" "abs_dev d"]
  have "take (length (contents (abs_dev d))) (contents (abs_dev d')) = contents (abs_dev d)"
    by (simp add: ex)
  moreover have "r = ''Unknown command'' @ [LF] \<and> d' = d" if "msg = ''INFO'' \<or> msg = ''CLEAR''"
    using that h by (auto simp: handle_chunk_def chunk_text_id handle_command_def strncmp_eq_def
        strcmp_eq_def write_lit_full)
  ultimately show ?thesis using h by (auto simp: client_main_def c_str_def)
qed

theorem client_cannot_clear_witness:
  "\<exists>r d'. handle_chunk ''CLEAR'' dev_initial = Some (r, d') \<and> d' = dev_initial"
  using client_cannot_clear [OF dev_inv_initial, of "''CLEAR''"] by (auto simp: chunk_ok_def)

end
