(* ===== verification/ShmRing.thy ===== *)
theory ShmRing
  imports Prelude
begin

section \<open>The ring buffer in shared memory (shm_common.h, shm_producer.c, shm_consumer.c)\<close>

text \<open>
  Producer and consumer are two processes; each statement of their loops that touches shared state
  is one atomic step, \<open>prod_step\<close> and \<open>cons_step\<close>, named by a program counter. The two kernel
  semaphores are counters. A signal sets \<open>done\<close>; where it finds the process blocked in \<open>sem_wait\<close>
  the call either is restarted or returns \<open>EINTR\<close>, and since both programs ignore the result and
  leave \<open>sa_flags\<close> uninitialised, \<open>ring_step\<close> has that as a parameter. What the processes print is
  part of the state.
\<close>

subsection \<open>Shared data and program counters\<close>

abbreviation BUFFER_SIZE :: nat where "BUFFER_SIZE \<equiv> 10"

record shared_data =
  slots :: "u64 list"
  head :: int
  tail :: int

datatype ppc = PLoop | PWait | PStore | PPrint | PHead | PCount | PPost | PSleep | PExit
datatype cpc = COff | CLoop | CWait | CLoad | CPrint | CTail | CPost | CSleep

record ring = shared_data +
  sem_prod :: nat
  sem_cons :: nat
  names :: bool           \<comment> \<open>the names of the segment and the semaphores exist\<close>
  ppc :: ppc
  pdone :: bool
  counter :: u64
  pout :: "(u64 \<times> int) list"
  cpc :: cpc
  cdone :: bool
  cvalue :: u64
  cout :: "(u64 \<times> int) list"

text \<open>\<open>sem_open(name, O_CREAT, mode, n)\<close> keeps the value of a semaphore that exists already.\<close>

definition sem_open_creat :: "nat option \<Rightarrow> nat \<Rightarrow> nat" where
  "sem_open_creat old n = (case old of None \<Rightarrow> n | Some v \<Rightarrow> v)"

text \<open>The producer before its loop; \<open>mem\<close> is what the mapped segment holds.\<close>

definition producer_start :: "u64 list \<Rightarrow> nat option \<Rightarrow> nat option \<Rightarrow> ring" where
  "producer_start mem old_prod old_cons =
     \<lparr>slots = mem, head = 0, tail = 0,
      sem_prod = sem_open_creat old_prod BUFFER_SIZE, sem_cons = sem_open_creat old_cons 0,
      names = True, ppc = PLoop, pdone = False, counter = 0, pout = [],
      cpc = COff, cdone = False, cvalue = 0, cout = []\<rparr>"

definition in_ring :: "int \<Rightarrow> bool" where
  "in_ring i \<longleftrightarrow> 0 \<le> i \<and> i < int BUFFER_SIZE"

definition next_index :: "int \<Rightarrow> int" where
  "next_index i = (i + 1) smod int BUFFER_SIZE"

subsection \<open>The two loops\<close>

text \<open>
  \<^const>\<open>None\<close>: the process has ended, is blocked in \<open>sem_wait\<close>, or would access the array out of
  bounds.
\<close>

definition prod_step :: "ring \<Rightarrow> ring option" where
  "prod_step s = (case ppc s of
     PLoop \<Rightarrow> Some (if pdone s then s\<lparr>ppc := PExit, names := False\<rparr> else s\<lparr>ppc := PWait\<rparr>)
   | PWait \<Rightarrow> if 0 < sem_prod s then Some (s\<lparr>sem_prod := sem_prod s - 1, ppc := PStore\<rparr>) else None
   | PStore \<Rightarrow> if in_ring (head s)
       then Some (s\<lparr>slots := (slots s)[nat (head s) := counter s], ppc := PPrint\<rparr>) else None
   | PPrint \<Rightarrow> Some (s\<lparr>pout := pout s @ [(counter s, head s)], ppc := PHead\<rparr>)
   | PHead \<Rightarrow> Some (s\<lparr>head := next_index (head s), ppc := PCount\<rparr>)
   | PCount \<Rightarrow> Some (s\<lparr>counter := counter s + 1, ppc := PPost\<rparr>)
   | PPost \<Rightarrow> Some (s\<lparr>sem_cons := sem_cons s + 1, ppc := PSleep\<rparr>)
   | PSleep \<Rightarrow> Some (s\<lparr>ppc := PLoop\<rparr>)
   | PExit \<Rightarrow> None)"

definition cons_step :: "ring \<Rightarrow> ring option" where
  "cons_step s = (case cpc s of
     COff \<Rightarrow> if names s then Some (s\<lparr>cpc := CLoop, cdone := False\<rparr>) else None
   | CLoop \<Rightarrow> Some (if cdone s then s\<lparr>cpc := COff\<rparr> else s\<lparr>cpc := CWait\<rparr>)
   | CWait \<Rightarrow> if 0 < sem_cons s then Some (s\<lparr>sem_cons := sem_cons s - 1, cpc := CLoad\<rparr>) else None
   | CLoad \<Rightarrow> if in_ring (tail s)
       then Some (s\<lparr>cvalue := slots s ! nat (tail s), cpc := CPrint\<rparr>) else None
   | CPrint \<Rightarrow> Some (s\<lparr>cout := cout s @ [(cvalue s, tail s)], cpc := CTail\<rparr>)
   | CTail \<Rightarrow> Some (s\<lparr>tail := next_index (tail s), cpc := CPost\<rparr>)
   | CPost \<Rightarrow> Some (s\<lparr>sem_prod := sem_prod s + 1, cpc := CSleep\<rparr>)
   | CSleep \<Rightarrow> Some (s\<lparr>cpc := CLoop\<rparr>))"

text \<open>
  \<open>term\<close> runs on a signal. A process blocked in \<open>sem_wait\<close> goes on behind the call when the call is
  not restarted.
\<close>

definition prod_signal :: "bool \<Rightarrow> ring \<Rightarrow> ring" where
  "prod_signal restart s =
     s\<lparr>pdone := True,
       ppc := (if \<not> restart \<and> ppc s = PWait \<and> sem_prod s = 0 then PStore else ppc s)\<rparr>"

definition cons_signal :: "bool \<Rightarrow> ring \<Rightarrow> ring" where
  "cons_signal restart s =
     s\<lparr>cdone := True,
       cpc := (if \<not> restart \<and> cpc s = CWait \<and> sem_cons s = 0 then CLoad else cpc s)\<rparr>"

inductive ring_step :: "bool \<Rightarrow> ring \<Rightarrow> ring \<Rightarrow> bool" for restart where
  produce: "prod_step s = Some t \<Longrightarrow> ring_step restart s t"
| consume: "cons_step s = Some t \<Longrightarrow> ring_step restart s t"
| signal_producer: "ring_step restart s (prod_signal restart s)"
| signal_consumer: "ring_step restart s (cons_signal restart s)"

subsection \<open>Specification: a bounded first-in first-out queue\<close>

record fifo =
  queue :: "u64 list"
  entered :: nat
  taken :: "u64 list"

inductive fifo_step :: "fifo \<Rightarrow> fifo \<Rightarrow> bool" where
  enqueue: "length (queue q) < BUFFER_SIZE \<Longrightarrow>
     fifo_step q (q\<lparr>queue := queue q @ [of_nat (entered q)], entered := Suc (entered q)\<rparr>)"
| dequeue: "queue q = v # vs \<Longrightarrow>
     fifo_step q (q\<lparr>queue := vs, taken := taken q @ [v]\<rparr>)"

definition fifo_empty :: fifo where
  "fifo_empty = \<lparr>queue = [], entered = 0, taken = []\<rparr>"

subsection \<open>Counting the passes of each statement\<close>

definition slot_of :: "nat \<Rightarrow> nat" where
  "slot_of n = n mod BUFFER_SIZE"

lemma slot_of_less [simp]: "slot_of n < BUFFER_SIZE"
  by (simp add: slot_of_def)

definition n_stored :: "ring \<Rightarrow> nat" where
  "n_stored s = length (pout s) + (if ppc s = PPrint then 1 else 0)"

definition n_loaded :: "ring \<Rightarrow> nat" where
  "n_loaded s = length (cout s) + (if cpc s = CPrint then 1 else 0)"

definition p_waits :: "ring \<Rightarrow> nat" where
  "p_waits s = length (pout s) + (if ppc s = PStore \<or> ppc s = PPrint then 1 else 0)"

definition p_posts :: "ring \<Rightarrow> nat" where
  "p_posts s = length (pout s) - (if ppc s = PHead \<or> ppc s = PCount \<or> ppc s = PPost then 1 else 0)"

definition c_waits :: "ring \<Rightarrow> nat" where
  "c_waits s = length (cout s) + (if cpc s = CLoad \<or> cpc s = CPrint then 1 else 0)"

definition c_posts :: "ring \<Rightarrow> nat" where
  "c_posts s = length (cout s) - (if cpc s = CTail \<or> cpc s = CPost then 1 else 0)"

definition printed :: "nat \<Rightarrow> (u64 \<times> int) list" where
  "printed n = map (\<lambda>i. (of_nat i, int (slot_of i))) [0..<n]"

definition in_order :: "(u64 \<times> int) list \<Rightarrow> bool" where
  "in_order out \<longleftrightarrow> out = printed (length out)"

definition ring_inv :: "ring \<Rightarrow> bool" where
  "ring_inv s \<longleftrightarrow> length (slots s) = BUFFER_SIZE \<and>
     (ppc s \<in> {PHead, PCount, PPost} \<longrightarrow> pout s \<noteq> []) \<and> (cpc s \<in> {CTail, CPost} \<longrightarrow> cout s \<noteq> []) \<and>
     head s = int (slot_of (length (pout s) - (if ppc s = PHead then 1 else 0))) \<and>
     tail s = int (slot_of (length (cout s) - (if cpc s = CTail then 1 else 0))) \<and>
     counter s = of_nat (length (pout s) - (if ppc s = PHead \<or> ppc s = PCount then 1 else 0)) \<and>
     sem_prod s + p_waits s = BUFFER_SIZE + c_posts s \<and>
     sem_cons s + c_waits s = p_posts s \<and>
     (\<forall>i. n_loaded s \<le> i \<and> i < n_stored s \<longrightarrow> slots s ! (slot_of i) = of_nat i) \<and>
     (cpc s = CPrint \<longrightarrow> cvalue s = of_nat (length (cout s))) \<and>
     in_order (pout s) \<and> in_order (cout s)"

definition abs_ring :: "ring \<Rightarrow> fifo" where
  "abs_ring s = \<lparr>queue = map of_nat [n_loaded s..<n_stored s], entered = n_stored s,
                 taken = map of_nat [0..<n_loaded s]\<rparr>"

lemmas counts = n_stored_def n_loaded_def p_waits_def p_posts_def c_waits_def c_posts_def

lemma printed_Suc: "printed (Suc n) = printed n @ [(of_nat n, int (slot_of n))]"
  by (simp add: printed_def)

lemma length_printed [simp]: "length (printed n) = n"
  by (simp add: printed_def)

lemma next_index: "next_index (int (slot_of n)) = int (slot_of (Suc n))"
proof -
  have "next_index (int (slot_of n)) = (int (n mod 10) + 1) mod 10"
    by (simp add: next_index_def smod_nonneg slot_of_def)
  also have "\<dots> = int (Suc n mod 10)" by (simp add: zmod_int mod_simps add.commute)
  finally show ?thesis by (simp add: slot_of_def)
qed

lemma in_ring_slot [simp]: "in_ring (int (slot_of n))"
  by (simp add: in_ring_def)


subsection \<open>Every step keeps the invariant and refines the queue\<close>

lemma in_order_snoc: "in_order xs \<Longrightarrow>
   in_order (xs @ [(of_nat (length xs), int (slot_of (length xs)))])"
  unfolding in_order_def by (metis length_append_singleton printed_Suc)

lemma slots_bounds:
  assumes "ring_inv s"
  shows "n_loaded s \<le> n_stored s \<and> n_stored s \<le> n_loaded s + BUFFER_SIZE \<and>
    (ppc s = PStore \<longrightarrow> n_stored s < n_loaded s + BUFFER_SIZE) \<and>
    (cpc s = CLoad \<longrightarrow> n_loaded s < n_stored s)"
proof -
  have sems: "sem_prod s + p_waits s = BUFFER_SIZE + c_posts s" "sem_cons s + c_waits s = p_posts s"
    using assms by (simp_all add: ring_inv_def)
  have "p_posts s \<le> n_stored s" "c_posts s \<le> n_loaded s" "n_loaded s \<le> c_waits s"
    "n_stored s \<le> p_waits s" "ppc s = PStore \<longrightarrow> n_stored s < p_waits s"
    "cpc s = CLoad \<longrightarrow> n_loaded s < c_waits s"
    by (auto simp: counts)
  with sems show ?thesis by linarith
qed

lemma store_keeps_slots:
  assumes "\<forall>i. l \<le> i \<and> i < n \<longrightarrow> xs ! (slot_of i) = (of_nat i :: u64)"
    and "length xs = BUFFER_SIZE" "n < l + BUFFER_SIZE" "l \<le> i" "i < Suc n"
  shows "xs[slot_of n := of_nat n] ! (slot_of i) = of_nat i"
proof (cases "i = n")
  case False
  with assms have "l \<le> i" "i < n" by auto
  moreover have "slot_of i \<noteq> slot_of n"
  proof
    assume "slot_of i = slot_of n"
    then have "BUFFER_SIZE dvd n - i" using \<open>i < n\<close>
      unfolding slot_of_def by (metis mod_eq_dvd_iff_nat less_imp_le)
    moreover have "0 < n - i" "n - i < BUFFER_SIZE" using assms \<open>i < n\<close> by auto
    ultimately show False using nat_dvd_not_less by blast
  qed
  ultimately show ?thesis using assms by simp
qed (use assms in simp)

lemma prod_step_inv:
  assumes inv: "ring_inv s" and st: "prod_step s = Some t"
  shows "ring_inv t"
proof -
  note parts = inv [unfolded ring_inv_def]
  show ?thesis
  proof (cases "ppc s")
    case PStore
    with st parts have t: "t = s\<lparr>slots := (slots s)[slot_of (length (pout s)) :=
        of_nat (length (pout s))], ppc := PPrint\<rparr>"
      by (simp add: prod_step_def)
    have sl: "length (slots s) = BUFFER_SIZE"
      "\<forall>i. n_loaded s \<le> i \<and> i < length (pout s) \<longrightarrow> slots s ! (slot_of i) = of_nat i"
      using parts PStore by (simp_all add: n_stored_def)
    have "length (pout s) < n_loaded s + BUFFER_SIZE"
      using slots_bounds [OF inv] PStore by (simp add: n_stored_def)
    from store_keeps_slots [OF sl(2,1) this]
    have "\<forall>i. n_loaded t \<le> i \<and> i < n_stored t \<longrightarrow> slots t ! (slot_of i) = of_nat i"
      by (simp add: t n_stored_def n_loaded_def)
    then show ?thesis using parts PStore by (simp add: ring_inv_def t counts)
  next
    case PPrint
    with st parts have t: "t = s\<lparr>pout := pout s @ [(of_nat (length (pout s)),
        int (slot_of (length (pout s))))], ppc := PHead\<rparr>"
      by (simp add: prod_step_def)
    have "n_stored t = n_stored s" "n_loaded t = n_loaded s" "p_waits t = p_waits s"
      "p_posts t = p_posts s" "c_waits t = c_waits s" "c_posts t = c_posts s"
      using PPrint by (simp_all add: t counts)
    with in_order_snoc [of "pout s"] parts PPrint show ?thesis
      unfolding ring_inv_def t by (intro conjI; elim conjE; simp)
  next
    case PHead
    with parts have "next_index (head s) = int (slot_of (length (pout s)))"
      by (simp add: next_index del: One_nat_def)
    with PHead st have t: "t = s\<lparr>head := int (slot_of (length (pout s))), ppc := PCount\<rparr>"
      by (simp add: prod_step_def)
    from parts PHead show ?thesis
      unfolding ring_inv_def t by (intro conjI; elim conjE; simp add: counts)
  next
    case PCount
    with parts have "counter s + 1 = of_nat (length (pout s))" by (cases "pout s") auto
    with PCount st have t: "t = s\<lparr>counter := of_nat (length (pout s)), ppc := PPost\<rparr>"
      by (simp add: prod_step_def)
    from parts PCount show ?thesis
      unfolding ring_inv_def t by (intro conjI; elim conjE; simp add: counts)
  next
    case PPost
    with st have t: "t = s\<lparr>sem_cons := sem_cons s + 1, ppc := PSleep\<rparr>" by (simp add: prod_step_def)
    from parts PPost have "sem_cons s + c_waits s = length (pout s) - 1" "0 < length (pout s)"
      by (simp_all add: p_posts_def)
    then have "Suc (sem_cons s + c_waits s) = length (pout s)" by linarith
    with parts PPost show ?thesis
      unfolding ring_inv_def t by (intro conjI; elim conjE; simp add: counts)
  next
    case PLoop
    with st have t: "t = s\<lparr>ppc := (if pdone s then PExit else PWait),
        names := (names s \<and> \<not> pdone s)\<rparr>"
      by (auto simp: prod_step_def split: if_splits)
    from parts PLoop show ?thesis
      unfolding ring_inv_def t by (intro conjI; elim conjE; simp add: counts)
  next
    case PWait
    with st have t: "t = s\<lparr>sem_prod := sem_prod s - 1, ppc := PStore\<rparr>" "0 < sem_prod s"
      by (simp_all add: prod_step_def split: if_splits)
    from parts PWait t(2) show ?thesis
      unfolding ring_inv_def t(1) by (intro conjI; elim conjE; simp add: counts)
  next
    case PSleep
    with st have t: "t = s\<lparr>ppc := PLoop\<rparr>" by (simp add: prod_step_def)
    from parts PSleep show ?thesis
      unfolding ring_inv_def t by (intro conjI; elim conjE; simp add: counts)
  next
    case PExit
    with st show ?thesis by (simp add: prod_step_def)
  qed
qed

lemma cons_step_inv:
  assumes inv: "ring_inv s" and st: "cons_step s = Some t"
  shows "ring_inv t"
proof -
  note parts = inv [unfolded ring_inv_def]
  show ?thesis
  proof (cases "cpc s")
    case CLoad
    have "n_loaded s = length (cout s)" using CLoad by (simp add: n_loaded_def)
    with slots_bounds [OF inv] CLoad parts
    have "slots s ! (slot_of (length (cout s))) = of_nat (length (cout s))" by simp
    with CLoad st parts have t: "t = s\<lparr>cvalue := of_nat (length (cout s)), cpc := CPrint\<rparr>"
      by (simp add: cons_step_def)
    from parts CLoad show ?thesis
      unfolding ring_inv_def t by (intro conjI; elim conjE; simp add: counts)
  next
    case CPrint
    with st parts have t: "t = s\<lparr>cout := cout s @ [(of_nat (length (cout s)),
        int (slot_of (length (cout s))))], cpc := CTail\<rparr>"
      by (simp add: cons_step_def)
    have "n_stored t = n_stored s" "n_loaded t = n_loaded s" "p_waits t = p_waits s"
      "p_posts t = p_posts s" "c_waits t = c_waits s" "c_posts t = c_posts s"
      using CPrint by (simp_all add: t counts)
    with in_order_snoc [of "cout s"] parts CPrint show ?thesis
      unfolding ring_inv_def t by (intro conjI; elim conjE; simp)
  next
    case CTail
    with parts have "next_index (tail s) = int (slot_of (length (cout s)))"
      by (simp add: next_index del: One_nat_def)
    with CTail st have t: "t = s\<lparr>tail := int (slot_of (length (cout s))), cpc := CPost\<rparr>"
      by (simp add: cons_step_def)
    from parts CTail show ?thesis
      unfolding ring_inv_def t by (intro conjI; elim conjE; simp add: counts)
  next
    case CPost
    with st have t: "t = s\<lparr>sem_prod := sem_prod s + 1, cpc := CSleep\<rparr>" by (simp add: cons_step_def)
    from parts CPost have "sem_prod s + p_waits s = BUFFER_SIZE + (length (cout s) - 1)"
      "0 < length (cout s)" by (simp_all add: c_posts_def)
    then have "Suc (sem_prod s + p_waits s) = BUFFER_SIZE + length (cout s)" by linarith
    with parts CPost show ?thesis
      unfolding ring_inv_def t by (intro conjI; elim conjE; simp add: counts)
  next
    case CSleep
    with st have t: "t = s\<lparr>cpc := CLoop\<rparr>" by (simp add: cons_step_def)
    from parts CSleep show ?thesis
      unfolding ring_inv_def t by (intro conjI; elim conjE; simp add: counts)
  next
    case CLoop
    with st have t: "t = s\<lparr>cpc := (if cdone s then COff else CWait)\<rparr>"
      by (auto simp: cons_step_def split: if_splits)
    from parts CLoop show ?thesis
      unfolding ring_inv_def t by (intro conjI; elim conjE; simp add: counts)
  next
    case CWait
    with st have t: "t = s\<lparr>sem_cons := sem_cons s - 1, cpc := CLoad\<rparr>" "0 < sem_cons s"
      by (simp_all add: cons_step_def split: if_splits)
    from parts CWait t(2) show ?thesis
      unfolding ring_inv_def t(1) by (intro conjI; elim conjE; simp add: counts)
  next
    case COff
    with st have t: "t = s\<lparr>cpc := CLoop, cdone := False\<rparr>" by (simp add: cons_step_def split: if_splits)
    from parts COff show ?thesis
      unfolding ring_inv_def t by (intro conjI; elim conjE; simp add: counts)
  qed
qed

lemma signal_inv: "ring_inv s \<Longrightarrow> ring_inv (prod_signal True s) \<and> ring_inv (cons_signal True s)"
  by (simp add: ring_inv_def prod_signal_def cons_signal_def counts)

lemma ring_inv_start:
  "length mem = BUFFER_SIZE \<Longrightarrow> ring_inv (producer_start mem None None)"
  by (simp add: ring_inv_def producer_start_def sem_open_creat_def counts slot_of_def in_order_def
      printed_def)

lemma prod_step_abs:
  assumes inv: "ring_inv s" and st: "prod_step s = Some t"
  shows "abs_ring t = abs_ring s \<or> fifo_step (abs_ring s) (abs_ring t)"
proof (cases "ppc s")
  case PStore
  from slots_bounds [OF inv] PStore have "n_loaded s \<le> n_stored s" "n_stored s < n_loaded s + BUFFER_SIZE"
    by auto
  moreover have "n_stored t = Suc (n_stored s)" "n_loaded t = n_loaded s"
    using st PStore by (auto simp: prod_step_def n_stored_def n_loaded_def split: if_splits)
  ultimately show ?thesis using fifo_step.enqueue [of "abs_ring s"] by (simp add: abs_ring_def)
qed (use st in \<open>auto simp: prod_step_def abs_ring_def n_stored_def n_loaded_def split: if_splits\<close>)

lemma cons_step_abs:
  assumes inv: "ring_inv s" and st: "cons_step s = Some t"
  shows "abs_ring t = abs_ring s \<or> fifo_step (abs_ring s) (abs_ring t)"
proof (cases "cpc s")
  case CLoad
  from slots_bounds [OF inv] CLoad have "n_loaded s < n_stored s" by auto
  then have "queue (abs_ring s) = of_nat (n_loaded s) # map of_nat [Suc (n_loaded s)..<n_stored s]"
    by (simp add: abs_ring_def upt_conv_Cons)
  moreover have "n_stored t = n_stored s" "n_loaded t = Suc (n_loaded s)"
    using st CLoad by (auto simp: cons_step_def n_stored_def n_loaded_def split: if_splits)
  ultimately show ?thesis using fifo_step.dequeue [of "abs_ring s"] by (simp add: abs_ring_def)
qed (use st in \<open>auto simp: cons_step_def abs_ring_def n_stored_def n_loaded_def split: if_splits\<close>)

lemma signal_abs:
  "abs_ring (prod_signal True s) = abs_ring s \<and> abs_ring (cons_signal True s) = abs_ring s"
  by (simp add: prod_signal_def cons_signal_def abs_ring_def n_stored_def n_loaded_def)

definition ring_init :: "ring \<Rightarrow> bool" where
  "ring_init s \<longleftrightarrow> (\<exists>mem. length mem = BUFFER_SIZE \<and> s = producer_start mem None None)"

interpretation ring_run: simulation ring_init "ring_step True" ring_inv
    "\<lambda>q. q = fifo_empty" fifo_step abs_ring
proof unfold_locales
  show "ring_inv s" if "ring_init s" for s using that ring_inv_start by (auto simp: ring_init_def)
  show "ring_inv t" if "ring_inv s" "ring_step True s t" for s t
    using that(2,1) by cases (use prod_step_inv cons_step_inv signal_inv in blast)+
  show "abs_ring s = fifo_empty" if "ring_init s" for s
    using that by (auto simp: ring_init_def producer_start_def abs_ring_def fifo_empty_def
        n_stored_def n_loaded_def)
  show "abs_ring t = abs_ring s \<or> fifo_step (abs_ring s) (abs_ring t)"
    if "ring_inv s" "ring_step True s t" for s t
    using that(2,1) by cases (use prod_step_abs cons_step_abs signal_abs in blast)+
qed

lemma ring_never_stuck:
  assumes "ring_inv s"
  shows "(prod_step s = None \<longrightarrow> ppc s = PExit \<or> (ppc s = PWait \<and> sem_prod s = 0)) \<and>
    (cons_step s = None \<longrightarrow> (cpc s = COff \<and> \<not> names s) \<or> (cpc s = CWait \<and> sem_cons s = 0)) \<and>
    \<not> (ppc s = PWait \<and> sem_prod s = 0 \<and> cpc s = CWait \<and> sem_cons s = 0)"
proof -
  have "in_ring (head s)" "in_ring (tail s)"
    using assms by (metis ring_inv_def in_ring_slot)+
  moreover have False if "ppc s = PWait" "sem_prod s = 0" "cpc s = CWait" "sem_cons s = 0"
  proof -
    have "sem_prod s + p_waits s = BUFFER_SIZE + c_posts s" "sem_cons s + c_waits s = p_posts s"
      using assms by (simp_all add: ring_inv_def)
    with that show False by (simp add: counts)
  qed
  ultimately show ?thesis
    by (auto simp: prod_step_def cons_step_def split: ppc.splits cpc.splits if_splits)
qed

subsection \<open>Runs of the two loops\<close>

text \<open>\<open>n\<close> steps of one process.\<close>

fun iter :: "nat \<Rightarrow> ('a \<Rightarrow> 'a option) \<Rightarrow> 'a \<Rightarrow> 'a option" where
  "iter 0 f s = Some s"
| "iter (Suc n) f s = (case f s of None \<Rightarrow> None | Some t \<Rightarrow> iter n f t)"

lemma iter_prod: "iter n prod_step s = Some t \<Longrightarrow> (ring_step r)\<^sup>*\<^sup>* s t"
  by (induction n arbitrary: s)
    (auto split: option.splits intro: converse_rtranclp_into_rtranclp ring_step.produce)

lemma iter_cons: "iter n cons_step s = Some t \<Longrightarrow> (ring_step r)\<^sup>*\<^sup>* s t"
  by (induction n arbitrary: s)
    (auto split: option.splits intro: converse_rtranclp_into_rtranclp ring_step.consume)

lemma ring_counts:
  assumes "ring_inv s"
  shows "pout s = printed (length (pout s)) \<and> cout s = printed (length (cout s)) \<and>
    length (cout s) \<le> length (pout s) \<and> length (pout s) \<le> length (cout s) + BUFFER_SIZE"
proof -
  have "in_order (pout s)" "in_order (cout s)" and
    sems: "sem_prod s + p_waits s = BUFFER_SIZE + c_posts s" "sem_cons s + c_waits s = p_posts s"
    using assms by (simp_all add: ring_inv_def)
  moreover have "length (cout s) \<le> c_waits s" "p_posts s \<le> length (pout s)"
    "length (pout s) \<le> p_waits s" "c_posts s \<le> length (cout s)"
    by (simp_all add: counts)
  moreover from this sems have "length (cout s) \<le> length (pout s)"
    "length (pout s) \<le> length (cout s) + BUFFER_SIZE" by linarith+
  ultimately show ?thesis unfolding in_order_def by blast
qed

abbreviation fresh_ring :: ring where
  "fresh_ring \<equiv> producer_start (replicate BUFFER_SIZE 0) None None"

lemma ring_init_fresh: "ring_init fresh_ring"
  by (auto simp: ring_init_def intro!: exI [of _ "replicate BUFFER_SIZE 0"])

lemma slots_fresh: "slots fresh_ring = [0, 0, 0, 0, 0, 0, 0, 0, 0, 0]"
  by (simp add: producer_start_def numeral_eq_Suc)

lemmas ring_eval = prod_step_def cons_step_def in_ring_def next_index_def smod_nonneg
  producer_start_def sem_open_creat_def numeral_eq_Suc

text \<open>One value produced, then consumed.\<close>

lemma produced_one: "\<exists>t. iter 7 prod_step fresh_ring = Some t \<and> pout t = [(0, 0)] \<and> cout t = [] \<and>
    sem_cons t = 1 \<and> sem_prod t = 9 \<and> slots t = slots fresh_ring \<and> names t \<and> tail t = 0 \<and> cpc t = COff"
  by (simp add: ring_eval)

subsection \<open>Properties\<close>





text \<open>
  C39. Where \<open>sem_wait\<close> is not restarted after the signal, the consumer goes on without a token: it
  prints a value that nobody produced, and posts an eleventh token for the ten slots.
\<close>

theorem shm_eintr_phantom:
  "\<exists>t. (ring_step False)\<^sup>*\<^sup>* fresh_ring t \<and> pout t = [] \<and> cout t = [(0, 0)] \<and> sem_prod t = 11"
proof -
  let ?s = "fresh_ring\<lparr>cpc := CWait, cdone := False\<rparr>"
  have "iter 2 cons_step fresh_ring = Some ?s" by (simp add: ring_eval)
  then have "(ring_step False)\<^sup>*\<^sup>* fresh_ring ?s" by (rule iter_cons)
  moreover have "ring_step False ?s (cons_signal False ?s)" by (rule ring_step.signal_consumer)
  moreover obtain t where t: "iter 4 cons_step (cons_signal False ?s) = Some t" "pout t = []"
    "cout t = [(0, 0)]" "sem_prod t = 11"
    by (simp add: ring_eval cons_signal_def)
  moreover have "(ring_step False)\<^sup>*\<^sup>* (cons_signal False ?s) t" using t(1) by (rule iter_cons)
  ultimately show ?thesis by (meson rtranclp.rtrancl_into_rtrancl rtranclp_trans)
qed

text \<open>
  \<open>sem_open\<close> with \<open>O_CREAT\<close> keeps the counts a producer left behind that was killed before it
  could unlink the names: a new producer resets \<open>head\<close> and \<open>tail\<close> but not the semaphores, and the
  consumer prints a value before the new producer has produced any.
\<close>

theorem shm_stale_semaphores:
  "\<exists>t u. (ring_step True)\<^sup>*\<^sup>* fresh_ring t \<and>
     (ring_step True)\<^sup>*\<^sup>* (producer_start (slots t) (Some (sem_prod t)) (Some (sem_cons t))) u \<and>
     pout u = [] \<and> cout u = [(0, 0)]"
proof -
  obtain t where t: "iter 7 prod_step fresh_ring = Some t" "sem_cons t = 1"
    "slots t = slots fresh_ring" using produced_one by blast
  from iter_prod [OF t(1)] have r: "(ring_step True)\<^sup>*\<^sup>* fresh_ring t" .
  let ?n = "producer_start (slots t) (Some (sem_prod t)) (Some (sem_cons t))"
  obtain u where u: "iter 5 cons_step ?n = Some u" "pout u = []" "cout u = [(0, 0)]"
    by (simp add: ring_eval t(2,3))
  from iter_cons [OF u(1)] have "(ring_step True)\<^sup>*\<^sup>* ?n u" .
  with r u show ?thesis by blast
qed

end
