(* ===== verification/SharedVars.thy ===== *)
theory SharedVars
  imports Prelude
begin

section \<open>Two shared counters with and without a mutex (mutex.c, nomutex.c)\<close>

text \<open>
  The threads of \<open>update_thread\<close> at the granularity of single loads and stores of the shared
  variables: \<open>var1++\<close> is a load into the thread's register and a store of the register plus one, and
  the comparison loads one variable after the other. \<open>mutex_thread\<close> and \<open>nomutex_thread\<close> are the
  two versions of the loop; main may cancel a thread at any point (the threads ask for asynchronous
  cancellation) and prints the counters without taking the lock. An increment beyond the range of
  \<open>int\<close> is undefined and has no step.
\<close>

subsection \<open>State\<close>

definition NumThreads :: nat where "NumThreads = 4"

datatype pc =
    Lock
  | Cmp1 | Cmp2                          \<comment> \<open>\<open>var1 != var2\<close>\<close>
  | Ne1 | Ne2                            \<comment> \<open>the print of the first branch\<close>
  | Fix1 | Fix2                          \<comment> \<open>\<open>var1 = var2\<close>\<close>
  | Eq1 | Eq2                            \<comment> \<open>the print of the else branch, in mutex.c only\<close>
  | Work1 | Work2 | Work3                \<comment> \<open>\<open>do_work\<close>\<close>
  | IncA1 | IncA2 | IncB1 | IncB2        \<comment> \<open>\<open>var1++\<close>, \<open>var2++\<close>\<close>
  | Unlock

datatype line = NotEqual nat int int | Equal nat int int | DidWork nat | AllDone int int

record counters =
  var1 :: int
  var2 :: int
  var3 :: int
  owner :: "nat option"
  pcs :: "nat \<Rightarrow> pc"
  regs :: "nat \<Rightarrow> int"
  cancelled :: "nat set"
  out :: "line list"

definition goto :: "nat \<Rightarrow> pc \<Rightarrow> counters \<Rightarrow> counters" where
  "goto i p s = s\<lparr>pcs := (pcs s)(i := p)\<rparr>"

definition load_reg :: "nat \<Rightarrow> int \<Rightarrow> counters \<Rightarrow> counters" where
  "load_reg i v s = s\<lparr>regs := (regs s)(i := v)\<rparr>"

definition emit :: "line \<Rightarrow> counters \<Rightarrow> counters" where
  "emit l s = s\<lparr>out := out s @ [l]\<rparr>"

subsection \<open>The statements\<close>

text \<open>\<open>do_work\<close> up to the statement behind its call.\<close>

definition do_work :: "nat \<Rightarrow> counters \<Rightarrow> counters option" where
  "do_work i s = (case pcs s i of
     Work1 \<Rightarrow> Some (goto i Work2 (load_reg i (var3 s) s))
   | Work2 \<Rightarrow> (case i32 (regs s i + 1) of None \<Rightarrow> None | Some v \<Rightarrow> Some (goto i Work3 (s\<lparr>var3 := v\<rparr>)))
   | Work3 \<Rightarrow> Some (goto i IncA1 (if var3 s smod 10000000 = 0 then emit (DidWork i) s else s))
   | _ \<Rightarrow> None)"

text \<open>The two increments; \<open>after\<close> is the statement behind them.\<close>

definition increments :: "pc \<Rightarrow> nat \<Rightarrow> counters \<Rightarrow> counters option" where
  "increments after i s = (case pcs s i of
     IncA1 \<Rightarrow> Some (goto i IncA2 (load_reg i (var1 s) s))
   | IncA2 \<Rightarrow> (case i32 (regs s i + 1) of None \<Rightarrow> None | Some v \<Rightarrow> Some (goto i IncB1 (s\<lparr>var1 := v\<rparr>)))
   | IncB1 \<Rightarrow> Some (goto i IncB2 (load_reg i (var2 s) s))
   | IncB2 \<Rightarrow> (case i32 (regs s i + 1) of None \<Rightarrow> None | Some v \<Rightarrow> Some (goto i after (s\<lparr>var2 := v\<rparr>)))
   | _ \<Rightarrow> None)"

text \<open>The comparison with its first branch; \<open>orelse\<close> is where it goes when the two are equal.\<close>

definition compare :: "pc \<Rightarrow> nat \<Rightarrow> counters \<Rightarrow> counters option" where
  "compare orelse i s = (case pcs s i of
     Cmp1 \<Rightarrow> Some (goto i Cmp2 (load_reg i (var1 s) s))
   | Cmp2 \<Rightarrow> Some (goto i (if regs s i \<noteq> var2 s then Ne1 else orelse) s)
   | Ne1 \<Rightarrow> Some (goto i Ne2 (load_reg i (var1 s) s))
   | Ne2 \<Rightarrow> Some (goto i Fix1 (emit (NotEqual i (regs s i) (var2 s)) s))
   | Fix1 \<Rightarrow> Some (goto i Fix2 (load_reg i (var2 s) s))
   | Fix2 \<Rightarrow> Some (goto i Work1 (s\<lparr>var1 := regs s i\<rparr>))
   | _ \<Rightarrow> None)"

subsection \<open>The two versions of update_thread\<close>

definition mutex_thread :: "nat \<Rightarrow> counters \<Rightarrow> counters option" where
  "mutex_thread i s = (case pcs s i of
     Lock \<Rightarrow> if owner s = None then Some (goto i Cmp1 (s\<lparr>owner := Some i\<rparr>)) else None
   | Eq1 \<Rightarrow> Some (goto i Eq2 (load_reg i (var1 s) s))
   | Eq2 \<Rightarrow> Some (goto i Work1 (emit (Equal i (regs s i) (var2 s)) s))
   | Unlock \<Rightarrow> Some (goto i Lock (s\<lparr>owner := None\<rparr>))
   | p \<Rightarrow> (if p \<in> {Work1, Work2, Work3} then do_work i s
          else if p \<in> {IncA1, IncA2, IncB1, IncB2} then increments Unlock i s
          else compare Eq1 i s))"

definition nomutex_thread :: "nat \<Rightarrow> counters \<Rightarrow> counters option" where
  "nomutex_thread i s =
     (if pcs s i \<in> {Work1, Work2, Work3} then do_work i s
      else if pcs s i \<in> {IncA1, IncA2, IncB1, IncB2} then increments Cmp1 i s
      else compare Work1 i s)"

definition start_at :: "pc \<Rightarrow> counters" where
  "start_at p = \<lparr>var1 = 0, var2 = 0, var3 = 0, owner = None, pcs = (\<lambda>_. p), regs = (\<lambda>_. 0),
                 cancelled = {}, out = []\<rparr>"

definition mutex_start :: counters where "mutex_start = start_at Lock"
definition nomutex_start :: counters where "nomutex_start = start_at Cmp1"

text \<open>The threads of a program with its main thread.\<close>

inductive prog_step :: "(nat \<Rightarrow> counters \<Rightarrow> counters option) \<Rightarrow> counters \<Rightarrow> counters \<Rightarrow> bool"
  for thread where
  run: "i < NumThreads \<Longrightarrow> i \<notin> cancelled s \<Longrightarrow> thread i s = Some t \<Longrightarrow> prog_step thread s t"
| cancel: "i < NumThreads \<Longrightarrow> prog_step thread s (s\<lparr>cancelled := insert i (cancelled s)\<rparr>)"
| print_all: "prog_step thread s (emit (AllDone (var1 s) (var2 s)) s)"

text \<open>A run by a given schedule.\<close>

fun schedule :: "(nat \<Rightarrow> counters \<Rightarrow> counters option) \<Rightarrow> nat list \<Rightarrow> counters \<Rightarrow> counters option" where
  "schedule thread [] s = Some s"
| "schedule thread (i # is) s =
     (if i < NumThreads \<and> i \<notin> cancelled s
      then (case thread i s of None \<Rightarrow> None | Some t \<Rightarrow> schedule thread is t) else None)"

lemma schedule_run: "schedule thread is s = Some t \<Longrightarrow> (prog_step thread)\<^sup>*\<^sup>* s t"
  by (induction thread "is" s rule: schedule.induct)
    (auto split: option.splits if_splits intro: converse_rtranclp_into_rtranclp prog_step.run)

lemmas thread_ops = do_work_def increments_def compare_def goto_def load_reg_def emit_def

subsection \<open>The invariant of the locked version\<close>

primrec is_equal :: "line \<Rightarrow> bool" where
  "is_equal (NotEqual i a b) = False"
| "is_equal (Equal i a b) = True"
| "is_equal (DidWork i) = False"
| "is_equal (AllDone a b) = False"

definition rounds :: "counters \<Rightarrow> int" where
  "rounds s = int (length (filter is_equal (out s)))"

primrec line_ok :: "line \<Rightarrow> bool" where
  "line_ok (NotEqual i a b) = False"
| "line_ok (Equal i a b) = (a = b)"
| "line_ok (DidWork i) = True"
| "line_ok (AllDone a b) = (a = b \<or> a = b + 1)"

text \<open>What holds of the counters while the owner of the lock is at a statement.\<close>

primrec at_pc :: "pc \<Rightarrow> int \<Rightarrow> int \<Rightarrow> int \<Rightarrow> int \<Rightarrow> bool" where
  "at_pc Lock r a b n = False"
| "at_pc Cmp1 r a b n = (a = b \<and> b = n)"
| "at_pc Cmp2 r a b n = (a = b \<and> b = n \<and> r = a)"
| "at_pc Ne1 r a b n = False"
| "at_pc Ne2 r a b n = False"
| "at_pc Fix1 r a b n = False"
| "at_pc Fix2 r a b n = False"
| "at_pc Eq1 r a b n = (a = b \<and> b = n)"
| "at_pc Eq2 r a b n = (a = b \<and> b = n \<and> r = a)"
| "at_pc Work1 r a b n = (a = b \<and> n = b + 1)"
| "at_pc Work2 r a b n = (a = b \<and> n = b + 1)"
| "at_pc Work3 r a b n = (a = b \<and> n = b + 1)"
| "at_pc IncA1 r a b n = (a = b \<and> n = b + 1)"
| "at_pc IncA2 r a b n = (a = b \<and> n = b + 1 \<and> r = a)"
| "at_pc IncB1 r a b n = (a = b + 1 \<and> n = b + 1)"
| "at_pc IncB2 r a b n = (a = b + 1 \<and> n = b + 1 \<and> r = b)"
| "at_pc Unlock r a b n = (a = b \<and> b = n)"

definition mutex_inv :: "counters \<Rightarrow> bool" where
  "mutex_inv s \<longleftrightarrow>
     (case owner s of
        None \<Rightarrow> (\<forall>i. pcs s i = Lock) \<and> var1 s = var2 s \<and> var2 s = rounds s
      | Some i \<Rightarrow> (\<forall>j. j \<noteq> i \<longrightarrow> pcs s j = Lock) \<and>
                  at_pc (pcs s i) (regs s i) (var1 s) (var2 s) (rounds s)) \<and>
     list_all line_ok (out s)"

lemma at_pc_diff: "at_pc p r a b n \<Longrightarrow> a = b \<or> a = b + 1"
  by (cases p) auto

lemma mutex_inv_diff: "mutex_inv s \<Longrightarrow> var1 s = var2 s \<or> var1 s = var2 s + 1"
  by (auto simp: mutex_inv_def dest: at_pc_diff split: option.splits)

lemma mutex_only_owner: "mutex_inv s \<Longrightarrow> pcs s i \<noteq> Lock \<Longrightarrow> owner s = Some i"
  by (cases "owner s") (auto simp: mutex_inv_def, metis)

lemma mutex_thread_inv:
  assumes inv: "mutex_inv s" and st: "mutex_thread i s = Some t"
  shows "mutex_inv t"
proof (cases "pcs s i = Lock")
  case True
  with st have "owner s = None" "t = goto i Cmp1 (s\<lparr>owner := Some i\<rparr>)"
    by (auto simp: mutex_thread_def split: if_splits)
  with inv show ?thesis by (simp add: mutex_inv_def goto_def rounds_def)
next
  case False
  with inv have own: "owner s = Some i" by (rule mutex_only_owner)
  with inv have others: "\<forall>j. j \<noteq> i \<longrightarrow> pcs s j = Lock"
    and here: "at_pc (pcs s i) (regs s i) (var1 s) (var2 s) (rounds s)"
    and lines: "list_all line_ok (out s)" by (simp_all add: mutex_inv_def)
  from False st own others here lines show ?thesis
    by (cases "pcs s i")
      (simp_all add: mutex_thread_def mutex_inv_def thread_ops rounds_def c_arith split: option.splits if_splits,
        auto)
qed

interpretation mutex_run: inductive_invariant "\<lambda>s. s = mutex_start" "prog_step mutex_thread" mutex_inv
proof unfold_locales
  show "mutex_inv s" if "s = mutex_start" for s
    using that by (simp add: mutex_inv_def mutex_start_def start_at_def rounds_def)
  show "mutex_inv t" if inv: "mutex_inv s" and st: "prog_step mutex_thread s t" for s t
    using st
  proof cases
    case (run i)
    with inv mutex_thread_inv show ?thesis by blast
  next
    case (cancel i)
    with inv show ?thesis by (auto simp: mutex_inv_def rounds_def split: option.splits)
  next
    case print_all
    with inv mutex_inv_diff [OF inv] show ?thesis
      by (auto simp: mutex_inv_def rounds_def emit_def split: option.splits)
  qed
qed

lemmas evals = thread_ops nomutex_thread_def mutex_thread_def nomutex_start_def mutex_start_def
  start_at_def NumThreads_def c_arith replicate_numeral

text \<open>A thread alone, and threads one after the other.\<close>

lemma mutex_one_round:
  "\<exists>t. schedule mutex_thread (replicate 13 0) mutex_start = Some t \<and> out t = [Equal 0 0 0] \<and>
     owner t = None \<and> var1 t = 1"
  by (simp add: evals)

lemma mutex_mid_round:
  "\<exists>t. schedule mutex_thread (replicate 10 0) mutex_start = Some t \<and> var1 t = 1 \<and> var2 t = 0"
  by (simp add: evals)

lemma mutex_mid_report:
  "\<exists>t. (prog_step mutex_thread)\<^sup>*\<^sup>* mutex_start t \<and> cancelled t \<noteq> {} \<and> AllDone 1 0 \<in> set (out t)"
proof -
  obtain t where t: "schedule mutex_thread (replicate 10 0) mutex_start = Some t" "var1 t = 1" "var2 t = 0"
    using mutex_mid_round by blast
  let ?u = "t\<lparr>cancelled := insert 0 (cancelled t)\<rparr>"
  have "(prog_step mutex_thread)\<^sup>*\<^sup>* mutex_start t" using t(1) by (rule schedule_run)
  moreover have "prog_step mutex_thread t ?u" by (rule prog_step.cancel) (simp add: NumThreads_def)
  moreover have "prog_step mutex_thread ?u (emit (AllDone (var1 ?u) (var2 ?u)) ?u)"
    by (rule prog_step.print_all)
  ultimately have "(prog_step mutex_thread)\<^sup>*\<^sup>* mutex_start (emit (AllDone (var1 ?u) (var2 ?u)) ?u)"
    by (meson rtranclp.rtrancl_into_rtrancl)
  with t(2,3) show ?thesis by (intro exI conjI) (assumption, simp_all add: emit_def)
qed

subsection \<open>Properties\<close>

text \<open>
  C6. The mutex makes the two counters one: in every state the threads of \<open>mutex.c\<close> reach, under
  every interleaving and with threads cancelled anywhere, at most one thread is between its lock
  and its unlock, no thread has ever seen the counters differ, and while nobody holds the lock both
  counters equal the number of rounds printed so far, so no increment is lost.
\<close>

theorem mutex_no_lost_update:
  assumes "(prog_step mutex_thread)\<^sup>*\<^sup>* mutex_start t"
  shows "(pcs t i \<noteq> Lock \<and> pcs t j \<noteq> Lock \<longrightarrow> i = j) \<and>
    (\<forall>k a b. NotEqual k a b \<notin> set (out t)) \<and>
    (owner t = None \<longrightarrow> var1 t = rounds t \<and> var2 t = rounds t)"
proof -
  from assms have inv: "mutex_inv t" using mutex_run.inv_run by blast
  then have "list_all line_ok (out t)" by (simp add: mutex_inv_def)
  then have "\<forall>k a b. NotEqual k a b \<notin> set (out t)" by (auto simp: list_all_iff)
  moreover have "owner t = None \<longrightarrow> var1 t = rounds t \<and> var2 t = rounds t"
    using inv by (auto simp: mutex_inv_def)
  moreover have "pcs t i \<noteq> Lock \<and> pcs t j \<noteq> Lock \<longrightarrow> i = j"
    using mutex_only_owner [OF inv] by (metis option.inject)
  ultimately show ?thesis by blast
qed

theorem mutex_no_lost_update_witness:
  "\<exists>t. (prog_step mutex_thread)\<^sup>*\<^sup>* mutex_start t \<and> owner t = None \<and> out t = [Equal 0 0 0] \<and>
     var1 t = rounds t \<and> var2 t = 1"
proof -
  obtain t where t: "schedule mutex_thread (replicate 13 0) mutex_start = Some t" "out t = [Equal 0 0 0]"
    "owner t = None" using mutex_one_round by blast
  from schedule_run [OF t(1)] have r: "(prog_step mutex_thread)\<^sup>*\<^sup>* mutex_start t" .
  with mutex_no_lost_update [OF r] t(2,3) show ?thesis by (auto simp: rounds_def)
qed

text \<open>
  The last line of \<open>mutex.c\<close>: main prints the counters without the lock, while cancelled threads
  may have stopped inside the critical section; \<open>var1\<close> is then equal to \<open>var2\<close> or one ahead of it.
\<close>

theorem mutex_final_report:
  assumes "(prog_step mutex_thread)\<^sup>*\<^sup>* mutex_start t" "AllDone a b \<in> set (out t)"
  shows "a = b \<or> a = b + 1"
proof -
  from assms(1) have "mutex_inv t" using mutex_run.inv_run by blast
  then have "list_all line_ok (out t)" by (simp add: mutex_inv_def)
  with assms(2) have "line_ok (AllDone a b)" by (metis list_all_iff)
  then show ?thesis by simp
qed

theorem mutex_final_report_witness:
  "\<exists>t. (prog_step mutex_thread)\<^sup>*\<^sup>* mutex_start t \<and> AllDone 1 0 \<in> set (out t) \<and> (1::int) = 0 + 1"
  using mutex_mid_report mutex_final_report by fastforce

text \<open>
  Without the mutex both races happen: a thread of \<open>nomutex.c\<close> can find the counters unequal,
  and of two rounds run in step one increment of each counter is lost, while the same two rounds
  run one after the other count to two.
\<close>

theorem nomutex_races:
  "(\<exists>t. (prog_step nomutex_thread)\<^sup>*\<^sup>* nomutex_start t \<and> NotEqual 1 1 0 \<in> set (out t)) \<and>
   (\<exists>t. schedule nomutex_thread (concat (replicate 9 [0, 1])) nomutex_start = Some t \<and>
        var1 t = 1 \<and> var2 t = 1) \<and>
   (\<exists>t. schedule nomutex_thread (replicate 9 0 @ replicate 9 1) nomutex_start = Some t \<and>
        var1 t = 2 \<and> var2 t = 2)"
proof (intro conjI)
  have "\<exists>t. schedule nomutex_thread (replicate 7 0 @ replicate 4 1) nomutex_start = Some t \<and>
      NotEqual 1 1 0 \<in> set (out t)"
    by (simp add: evals)
  with schedule_run show "\<exists>t. (prog_step nomutex_thread)\<^sup>*\<^sup>* nomutex_start t \<and> NotEqual 1 1 0 \<in> set (out t)"
    by blast
  show "\<exists>t. schedule nomutex_thread (concat (replicate 9 [0, 1])) nomutex_start = Some t \<and>
      var1 t = 1 \<and> var2 t = 1"
    by (simp add: evals)
  show "\<exists>t. schedule nomutex_thread (replicate 9 0 @ replicate 9 1) nomutex_start = Some t \<and>
      var1 t = 2 \<and> var2 t = 2"
    by (simp add: evals)
qed

end
