(* ===== verification/Monitor.thy ===== *)
theory Monitor
  imports Prelude
begin

section \<open>Threads around a mutex and a condition variable\<close>

text \<open>
  The loop that the threads of \<open>condvar.c\<close> and \<open>prodcons.c\<close> share: lock, wait on the condition while
  the guard does not hold, do the body, notify, unlock, and go on outside the lock. A program gives
  its guards, bodies and what follows the unlock, as functions on its shared variables.
  \<open>pthread_cond_wait\<close> releases the mutex and starts to wait in one step, locks it again when it is
  woken, and may be woken without a notification. \<open>mon_act\<close> has the steps of the threads,
  \<open>mon_step\<close> adds those wakeups. The locale proves what the loop gives every such program.
\<close>

datatype mpc = Acquire | Testing | Waiting | Woken | Body | Notify | Release | After

record 's monitor =
  shared :: 's
  mowner :: "nat option"
  mpcs :: "nat \<Rightarrow> mpc"

definition mon_start :: "'s \<Rightarrow> 's monitor" where
  "mon_start sh = \<lparr>shared = sh, mowner = None, mpcs = (\<lambda>_. Acquire)\<rparr>"

definition mgoto :: "nat \<Rightarrow> mpc \<Rightarrow> 's monitor \<Rightarrow> 's monitor" where
  "mgoto t p m = m\<lparr>mpcs := (mpcs m)(t := p)\<rparr>"

definition wake_all :: "'s monitor \<Rightarrow> 's monitor" where
  "wake_all m = m\<lparr>mpcs := (\<lambda>t. if mpcs m t = Waiting then Woken else mpcs m t)\<rparr>"

record 's program =
  threads :: nat
  guard :: "nat \<Rightarrow> 's \<Rightarrow> bool"
  body :: "nat \<Rightarrow> 's \<Rightarrow> 's option"
  post :: "nat \<Rightarrow> 's \<Rightarrow> 's option"
  broadcast :: bool        \<comment> \<open>\<open>pthread_cond_broadcast\<close>, not \<open>pthread_cond_signal\<close>\<close>

inductive mon_act :: "'s program \<Rightarrow> 's monitor \<Rightarrow> 's monitor \<Rightarrow> bool" for P where
  acquire: "t < threads P \<Longrightarrow> mpcs m t = Acquire \<or> mpcs m t = Woken \<Longrightarrow> mowner m = None \<Longrightarrow>
     mon_act P m (mgoto t Testing (m\<lparr>mowner := Some t\<rparr>))"
| pass: "t < threads P \<Longrightarrow> mpcs m t = Testing \<Longrightarrow> guard P t (shared m) \<Longrightarrow>
     mon_act P m (mgoto t Body m)"
| wait: "t < threads P \<Longrightarrow> mpcs m t = Testing \<Longrightarrow> \<not> guard P t (shared m) \<Longrightarrow>
     mon_act P m (mgoto t Waiting (m\<lparr>mowner := None\<rparr>))"
| body: "t < threads P \<Longrightarrow> mpcs m t = Body \<Longrightarrow> body P t (shared m) = Some sh \<Longrightarrow>
     mon_act P m (mgoto t Notify (m\<lparr>shared := sh\<rparr>))"
| notify_all: "t < threads P \<Longrightarrow> mpcs m t = Notify \<Longrightarrow> broadcast P \<Longrightarrow>
     mon_act P m (mgoto t Release (wake_all m))"
| notify_one: "t < threads P \<Longrightarrow> mpcs m t = Notify \<Longrightarrow> \<not> broadcast P \<Longrightarrow>
     u < threads P \<Longrightarrow> mpcs m u = Waiting \<Longrightarrow> mon_act P m (mgoto t Release (mgoto u Woken m))"
| notify_none: "t < threads P \<Longrightarrow> mpcs m t = Notify \<Longrightarrow> \<not> broadcast P \<Longrightarrow>
     \<forall>u<threads P. mpcs m u \<noteq> Waiting \<Longrightarrow> mon_act P m (mgoto t Release m)"
| release: "t < threads P \<Longrightarrow> mpcs m t = Release \<Longrightarrow>
     mon_act P m (mgoto t After (m\<lparr>mowner := None\<rparr>))"
| after: "t < threads P \<Longrightarrow> mpcs m t = After \<Longrightarrow> post P t (shared m) = Some sh \<Longrightarrow>
     mon_act P m (mgoto t Acquire (m\<lparr>shared := sh\<rparr>))"

inductive mon_step :: "'s program \<Rightarrow> 's monitor \<Rightarrow> 's monitor \<Rightarrow> bool" for P where
  act: "mon_act P m m' \<Longrightarrow> mon_step P m m'"
| spurious: "t < threads P \<Longrightarrow> mpcs m t = Waiting \<Longrightarrow> mon_step P m (mgoto t Woken m)"

inductive_cases mon_actE: "mon_act P m m'"
inductive_cases mon_stepE: "mon_step P m m'"

definition inside :: "mpc \<Rightarrow> bool" where
  "inside p \<longleftrightarrow> p \<in> {Testing, Body, Notify, Release}"

lemma inside_simps [simp]:
  "inside Testing" "inside Body" "inside Notify" "inside Release"
  "\<not> inside Acquire" "\<not> inside Waiting" "\<not> inside Woken" "\<not> inside After"
  by (simp_all add: inside_def)

text \<open>
  The invariant: the owner and only the owner is inside; a thread at its body has its guard; and a
  waiting thread whose guard holds is about to be notified.
\<close>

definition mon_inv :: "'s program \<Rightarrow> 's monitor \<Rightarrow> bool" where
  "mon_inv P m \<longleftrightarrow> (\<forall>t. inside (mpcs m t) \<longleftrightarrow> mowner m = Some t) \<and>
     (\<forall>t. mowner m = Some t \<longrightarrow> t < threads P) \<and>
     (\<forall>t. mpcs m t = Body \<longrightarrow> guard P t (shared m)) \<and>
     (\<forall>t<threads P. mpcs m t = Waiting \<and> guard P t (shared m) \<longrightarrow> (\<exists>u. mowner m = Some u \<and> mpcs m u = Notify))"

lemmas mon_ops = mgoto_def wake_all_def

locale monitor_program =
  fixes P :: "'s program"
  assumes post_guard: "post P t sh = Some sh' \<Longrightarrow> guard P u sh' = guard P u sh"
    and notify_enough: "broadcast P \<or> threads P \<le> 2"
begin

lemma owner_unique: "mon_inv P m \<Longrightarrow> inside (mpcs m t) \<Longrightarrow> inside (mpcs m u) \<Longrightarrow> t = u"
  unfolding mon_inv_def by (metis option.inject)

lemma act_inv:
  assumes inv: "mon_inv P m" and st: "mon_act P m m'"
  shows "mon_inv P m'"
proof -
  note parts = inv [unfolded mon_inv_def]
  have own: "mowner m = Some t" if "mpcs m t \<in> {Testing, Body, Notify, Release}" for t
    using parts that by (metis inside_def)
  from st show ?thesis
  proof cases
    case (acquire t)
    with parts show ?thesis by (auto simp: mon_inv_def mon_ops)
  next
    case (pass t)
    with parts own [of t] show ?thesis by (auto simp: mon_inv_def mon_ops)
  next
    case (wait t)
    with parts own [of t] show ?thesis by (auto simp: mon_inv_def mon_ops)
  next
    case (body t sh)
    with parts own [of t] show ?thesis
      by (auto simp: mon_inv_def mon_ops) 
  next
    case (notify_all t)
    with parts own [of t] show ?thesis
      by (auto simp: mon_inv_def mon_ops)
  next
    case (notify_one t u)
    then have "threads P \<le> 2" using notify_enough by simp
    then have only: "v = u" if "v < threads P" "mpcs m v = Waiting" for v
      using notify_one that by (cases "v = u"; cases "t = u"; cases "t = v") auto
    from notify_one have tu: "t \<noteq> u" by auto
    have no_wait: "mpcs m' v \<noteq> Waiting" if "v < threads P" for v
      using only [OF that] notify_one(1) by (auto simp: mon_ops)
    have "\<forall>v. inside (mpcs m' v) \<longleftrightarrow> mowner m' = Some v" "\<forall>v. mpcs m' v = Body \<longrightarrow> guard P v (shared m')"
      "\<forall>v. mowner m' = Some v \<longrightarrow> v < threads P"
      using parts own [of t] notify_one(1,3,6) tu by (auto simp: mon_ops)
    with no_wait show ?thesis by (auto simp: mon_inv_def)
  next
    case (notify_none t)
    with parts own [of t] show ?thesis
      by (auto simp: mon_inv_def mon_ops)
  next
    case (release t)
    with parts own [of t] show ?thesis by (auto simp: mon_inv_def mon_ops)
  next
    case (after t sh)
    then have "mowner m \<noteq> Some t" using parts by (metis inside_simps(8))
    with after parts post_guard [OF after(4)] show ?thesis
      by (auto simp: mon_inv_def mon_ops) force
  qed
qed

lemma step_inv: "mon_inv P m \<Longrightarrow> mon_step P m m' \<Longrightarrow> mon_inv P m'"
proof (erule mon_stepE)
  fix t assume inv: "mon_inv P m" and m': "m' = mgoto t Woken m" "mpcs m t = Waiting"
  then have "mowner m \<noteq> Some t" unfolding mon_inv_def by (metis inside_simps(6))
  with inv m' show "mon_inv P m'" by (auto simp: mon_inv_def mon_ops)
qed (rule act_inv)

lemma start_inv: "mon_inv P (mon_start sh)"
  by (simp add: mon_inv_def mon_start_def)

lemma run_inv: "(mon_step P)\<^sup>*\<^sup>* (mon_start sh) m \<Longrightarrow> mon_inv P m"
  by (induction rule: rtranclp_induct) (auto intro: start_inv step_inv)

text \<open>A run never stops: some thread can step, without a spurious wakeup, while some guard holds.\<close>

lemma never_stuck:
  assumes inv: "mon_inv P m" and some: "\<exists>t<threads P. guard P t (shared m)"
    and total: "\<forall>t. guard P t (shared m) \<longrightarrow> body P t (shared m) \<noteq> None"
      "\<forall>t. post P t (shared m) \<noteq> None"
  shows "\<exists>m'. mon_act P m m'"
proof (cases "mowner m")
  case (Some t)
  with inv have t: "t < threads P" "inside (mpcs m t)" by (auto simp: mon_inv_def)
  have gd: "mpcs m t = Body \<Longrightarrow> guard P t (shared m)" using inv by (simp add: mon_inv_def)
  have "mpcs m t = Testing \<Longrightarrow> ?thesis" using mon_act.pass mon_act.wait t(1) by blast
  moreover have "mpcs m t = Body \<Longrightarrow> ?thesis"
    using mon_act.body [of t P m] t(1) gd total(1) by (metis option.exhaust)
  moreover have "mpcs m t = Notify \<Longrightarrow> ?thesis"
    using mon_act.notify_all mon_act.notify_one mon_act.notify_none t(1) by blast
  moreover have "mpcs m t = Release \<Longrightarrow> ?thesis" using mon_act.release t(1) by blast
  ultimately show ?thesis using t(2) by (auto simp: inside_def)
next
  case None
  obtain t where t: "t < threads P" "guard P t (shared m)" using some by blast
  with None inv have "mpcs m t \<noteq> Waiting" "\<not> inside (mpcs m t)" by (auto simp: mon_inv_def)
  then consider "mpcs m t = Acquire \<or> mpcs m t = Woken" | "mpcs m t = After"
    by (cases "mpcs m t") auto
  then show ?thesis
  proof cases
    case 1
    with None t show ?thesis using mon_act.acquire by blast
  next
    case 2
    with t total(2) show ?thesis using mon_act.after [of t P m] by blast
  qed
qed

end

end
