(* ===== verification/CondVars.thy ===== *)
theory CondVars
  imports Monitor
begin

section \<open>The state machine of condvar.c and the producer and consumer of prodcons.c\<close>

text \<open>
  Both programs as instances of the monitor loop: their shared variables, and per thread the guard,
  the body between wait and notification, and what follows the unlock. The printed lines are kept
  in a log. The increments of \<open>cnt\<close> and \<open>product\<close> are checked to fit an \<open>int\<close>.
\<close>

subsection \<open>condvar.c: four states, one thread each\<close>

record cv_shared =
  state :: int
  cnt :: int
  transits :: "(int \<times> int) list"

definition transit :: "int \<Rightarrow> cv_shared \<Rightarrow> cv_shared" where
  "transit to s = s\<lparr>state := to, transits := transits s @ [(state s, to)]\<rparr>"

text \<open>The guard \<open>state != k\<close> of the wait loop of thread \<open>state_k\<close>, negated.\<close>

definition cv_guard :: "nat \<Rightarrow> cv_shared \<Rightarrow> bool" where
  "cv_guard t s \<longleftrightarrow> state s = int t"

definition state_0 :: "cv_shared \<Rightarrow> cv_shared" where "state_0 s = transit 1 s"

definition state_1 :: "cv_shared \<Rightarrow> cv_shared" where
  "state_1 s = (if cnt s smod 2 = 0 then transit 2 s else transit 3 s)"

definition state_1_post :: "cv_shared \<Rightarrow> cv_shared option" where
  "state_1_post s = (case i32 (cnt s + 1) of None \<Rightarrow> None | Some c \<Rightarrow> Some (s\<lparr>cnt := c\<rparr>))"

definition state_2 :: "cv_shared \<Rightarrow> cv_shared" where "state_2 s = transit 0 s"

definition state_3 :: "cv_shared \<Rightarrow> cv_shared" where "state_3 s = transit 0 s"

definition cv_body :: "nat \<Rightarrow> cv_shared \<Rightarrow> cv_shared option" where
  "cv_body t s = Some (if t = 0 then state_0 s else if t = 1 then state_1 s
                       else if t = 2 then state_2 s else state_3 s)"

definition condvar :: "cv_shared program" where
  "condvar = \<lparr>threads = 4, guard = cv_guard, body = cv_body,
     post = (\<lambda>t s. if t = 1 then state_1_post s else Some s), broadcast = True\<rparr>"

definition condvar_start :: "cv_shared monitor" where
  "condvar_start = mon_start \<lparr>state = 0, cnt = 0, transits = []\<rparr>"

interpretation cv: monitor_program condvar
  by unfold_locales (auto simp: condvar_def state_1_post_def cv_guard_def split: if_splits option.splits)

text \<open>The machine the header of the file describes: the state after \<open>n\<close> transitions.\<close>

definition state_at :: "nat \<Rightarrow> int" where
  "state_at n = (if n mod 3 = 0 then 0 else if n mod 3 = 1 then 1 else if n div 3 mod 2 = 0 then 2 else 3)"

definition cycle :: "nat \<Rightarrow> (int \<times> int) list" where
  "cycle n = map (\<lambda>i. (state_at i, state_at (Suc i))) [0..<n]"

lemma cycle_Suc: "cycle (Suc n) = cycle n @ [(state_at n, state_at (Suc n))]"
  by (simp add: cycle_def)

lemma length_cycle [simp]: "length (cycle n) = n"
  by (simp add: cycle_def)

definition cv_pending :: "cv_shared monitor \<Rightarrow> nat" where
  "cv_pending m = (if mpcs m 1 \<in> {Notify, Release, After} then 1 else 0)"

definition cv_inv :: "cv_shared monitor \<Rightarrow> bool" where
  "cv_inv m \<longleftrightarrow> mon_inv condvar m \<and>
     (\<exists>n. transits (shared m) = cycle n \<and> state (shared m) = state_at n \<and>
          cnt (shared m) + int (cv_pending m) = int ((n + 1) div 3))"

lemma state_at_simps:
  "state_at n = 0 \<longleftrightarrow> n mod 3 = 0" "state_at n = 1 \<longleftrightarrow> n mod 3 = 1"
  "state_at n = 2 \<longleftrightarrow> n mod 3 = 2 \<and> even (n div 3)" "state_at n = 3 \<longleftrightarrow> n mod 3 = 2 \<and> odd (n div 3)"
  by (auto simp: state_at_def even_iff_mod_2_eq_zero)

lemma cv_body_next:
  assumes "state s = state_at n" "t < 4" "state s = int t" "t = 1 \<longrightarrow> cnt s = int ((n + 1) div 3)"
    and "transits s = cycle n"
  shows "cv_body t s = Some (s\<lparr>state := state_at (Suc n), transits := cycle (Suc n)\<rparr>) \<and>
    (Suc n + 1) div 3 = (n + 1) div 3 + (if t = 1 then 1 else 0)"
proof -
  consider "t = 0" | "t = 1" | "t = 2" | "t = 3" using assms(2) by linarith
  then show ?thesis
  proof cases
    case 1
    with assms have "n mod 3 = 0" by (auto simp: state_at_simps)
    then have "state_at (Suc n) = 1" "(Suc n + 1) div 3 = (n + 1) div 3"
      by (auto simp: state_at_simps) presburger+
    with 1 assms show ?thesis by (simp add: cv_body_def state_0_def transit_def cycle_Suc)
  next
    case 2
    with assms have m: "n mod 3 = 1" by (auto simp: state_at_simps)
    then have d: "(Suc n + 1) div 3 = (n + 1) div 3 + 1" "(n + 1) div 3 = Suc n div 3"
      "Suc n mod 3 = 2" by presburger+
    have "0 \<le> cnt s" using 2 assms by simp
    then have "cnt s smod 2 = cnt s mod 2" by (simp add: smod_nonneg)
    also have "\<dots> = int (Suc n div 3 mod 2)" using 2 assms d(2) by (simp add: zmod_int)
    finally have "cnt s smod 2 = 0 \<longleftrightarrow> Suc n div 3 mod 2 = 0" by simp
    then have "(if cnt s smod 2 = 0 then 2 else 3) = state_at (Suc n)"
      using d(3) by (simp add: state_at_def)
    moreover have "state_1 s = transit (if cnt s smod 2 = 0 then 2 else 3) s" by (simp add: state_1_def)
    ultimately show ?thesis
      using 2 assms d(1) by (simp add: cv_body_def transit_def cycle_Suc)
  next
    case 3
    with assms have "n mod 3 = 2" by (auto simp: state_at_simps)
    then have "state_at (Suc n) = 0" "(Suc n + 1) div 3 = (n + 1) div 3"
      by (auto simp: state_at_simps) presburger+
    with 3 assms show ?thesis by (simp add: cv_body_def state_2_def transit_def cycle_Suc)
  next
    case 4
    with assms have "n mod 3 = 2" by (auto simp: state_at_simps)
    then have "state_at (Suc n) = 0" "(Suc n + 1) div 3 = (n + 1) div 3"
      by (auto simp: state_at_simps) presburger+
    with 4 assms show ?thesis by (simp add: cv_body_def state_3_def transit_def cycle_Suc)
  qed
qed

lemma condvar_simps [simp]:
  "threads condvar = 4" "guard condvar = cv_guard" "body condvar = cv_body" "broadcast condvar"
  "post condvar = (\<lambda>t s. if t = 1 then state_1_post s else Some s)"
  by (simp_all add: condvar_def)

lemma cv_step_inv:
  assumes inv: "cv_inv m" and st: "mon_step condvar m m'"
  shows "cv_inv m'"
proof -
  from inv have mi: "mon_inv condvar m" by (simp add: cv_inv_def)
  then have mi': "mon_inv condvar m'" using st by (rule cv.step_inv)
  from inv obtain n where n: "transits (shared m) = cycle n" "state (shared m) = state_at n"
    "cnt (shared m) + int (cv_pending m) = int ((n + 1) div 3)" by (auto simp: cv_inv_def)
  have same: ?thesis if "shared m' = shared m" "cv_pending m' = cv_pending m"
    using n that mi' by (auto simp: cv_inv_def)
  from st show ?thesis
  proof (cases rule: mon_step.cases)
    case (spurious t)
    then show ?thesis by (intro same) (auto simp: mon_ops cv_pending_def)
  next
    case act
    then show ?thesis
    proof cases
      case (body t sh)
      have g: "cv_guard t (shared m)" using mi body by (simp add: mon_inv_def)
      have "t = 1 \<longrightarrow> cnt (shared m) = int ((n + 1) div 3)"
        using n(3) body(3) by (auto simp: cv_pending_def)
      with cv_body_next [of "shared m" n t] n g body have sh:
        "sh = shared m\<lparr>state := state_at (Suc n), transits := cycle (Suc n)\<rparr>"
        "(Suc n + 1) div 3 = (n + 1) div 3 + (if t = 1 then 1 else 0)"
        by (auto simp: cv_guard_def)
      have "cv_pending m' = cv_pending m + (if t = 1 then 1 else 0)"
        using body by (auto simp: cv_pending_def mon_ops)
      with sh n(3) have "cnt (shared m') + int (cv_pending m') = int ((Suc n + 1) div 3)"
        using body by (simp add: mon_ops)
      with sh mi' body show ?thesis
        by (auto simp: cv_inv_def mon_ops intro!: exI [of _ "Suc n"])
    next
      case (after t sh)
      show ?thesis
      proof (cases "t = 1")
        case True
        then have "sh = shared m\<lparr>cnt := cnt (shared m) + 1\<rparr>" "cv_pending m = 1"
          using after by (auto simp: state_1_post_def cv_pending_def c_arith split: option.splits)
        moreover have "cv_pending m' = 0" using after True by (simp add: cv_pending_def mon_ops)
        ultimately show ?thesis using after n mi' by (auto simp: cv_inv_def mon_ops intro!: exI [of _ n])
      next
        case False
        with after show ?thesis by (intro same) (auto simp: mon_ops cv_pending_def)
      qed
    qed (intro same; auto simp: mon_ops cv_pending_def)+
  qed
qed

interpretation cv_run: inductive_invariant "\<lambda>m. m = condvar_start" "mon_step condvar" cv_inv
proof unfold_locales
  show "cv_inv m" if "m = condvar_start" for m
    using that cv.start_inv by (auto simp: cv_inv_def condvar_start_def mon_start_def cycle_def
        state_at_def cv_pending_def intro!: exI [of _ 0])
qed (rule cv_step_inv)

lemma state_at_range: "\<exists>t<4. state_at n = int t"
  by (rule exI [of _ "nat (state_at n)"]) (simp add: state_at_def)

lemma cv_guard_exists: "cv_inv m \<Longrightarrow> \<exists>t<threads condvar. guard condvar t (shared m)"
  using state_at_range by (fastforce simp: cv_inv_def cv_guard_def)

subsection \<open>prodcons.c\<close>

datatype pc_line = Produced int int | Consumed int int

record pc_shared =
  pstate :: int
  product :: int
  plines :: "pc_line list"

definition pc_guard :: "nat \<Rightarrow> pc_shared \<Rightarrow> bool" where
  "pc_guard t s \<longleftrightarrow> (if t = 0 then pstate s \<noteq> 1 else pstate s \<noteq> 0)"

definition producer :: "pc_shared \<Rightarrow> pc_shared option" where
  "producer s = (case i32 (product s + 1) of None \<Rightarrow> None
     | Some p \<Rightarrow> Some (s\<lparr>product := p, plines := plines s @ [Produced p (pstate s)], pstate := 1\<rparr>))"

definition consumer :: "pc_shared \<Rightarrow> pc_shared option" where
  "consumer s = Some (s\<lparr>plines := plines s @ [Consumed (product s) (pstate s)], pstate := 0\<rparr>)"

definition prodcons :: "pc_shared program" where
  "prodcons = \<lparr>threads = 2, guard = pc_guard, body = (\<lambda>t. if t = 0 then producer else consumer),
     post = (\<lambda>t s. Some s), broadcast = False\<rparr>"

definition prodcons_start :: "pc_shared monitor" where
  "prodcons_start = mon_start \<lparr>pstate = 0, product = 0, plines = []\<rparr>"

text \<open>
  \<open>main\<close> of \<open>prodcons.c\<close>. Its local variables \<open>consumer\<close> and \<open>producer\<close> hide the functions of these
  names, so \<open>pthread_create\<close> is given the uninitialised variables as the start routines. \<open>code a\<close> is
  the thread function at the address \<open>a\<close> (0: \<open>producer\<close>, 1: \<open>consumer\<close>), \<^const>\<open>None\<close> if there is none:
  the behaviour is then undefined. The result is the threads started and the line printed.
\<close>

definition prodcons_main :: "('a \<Rightarrow> nat option) \<Rightarrow> 'a \<Rightarrow> 'a \<Rightarrow> (nat list \<times> string list) option" where
  "prodcons_main code consumer_var producer_var =
    (case code consumer_var of None \<Rightarrow> None
     | Some c \<Rightarrow> (case code producer_var of None \<Rightarrow> None
        | Some p \<Rightarrow> Some ([c, p], [''prodcons:  main, exiting''])))"

interpretation pc: monitor_program prodcons
  by unfold_locales (auto simp: prodcons_def)

lemma prodcons_simps [simp]:
  "threads prodcons = 2" "guard prodcons = pc_guard" "\<not> broadcast prodcons"
  "body prodcons = (\<lambda>t. if t = 0 then producer else consumer)" "post prodcons = (\<lambda>t s. Some s)"
  by (simp_all add: prodcons_def)

text \<open>Strict alternation: the line after \<open>n\<close> lines.\<close>

definition turn :: "nat \<Rightarrow> pc_line" where
  "turn n = (if even n then Produced (int (n div 2) + 1) 0 else Consumed (int (n div 2) + 1) 1)"

definition pc_inv :: "pc_shared monitor \<Rightarrow> bool" where
  "pc_inv m \<longleftrightarrow> mon_inv prodcons m \<and>
     (\<exists>n. plines (shared m) = map turn [0..<n] \<and> pstate (shared m) = int (n mod 2) \<and>
          product (shared m) = int ((n + 1) div 2))"

lemma pc_body_next:
  assumes "pc_guard t s" "t < 2" "plines s = map turn [0..<n]" "pstate s = int (n mod 2)"
    and "product s = int ((n + 1) div 2)" "(if t = 0 then producer s else consumer s) = Some s'"
  shows "plines s' = map turn [0..<Suc n] \<and> pstate s' = int (Suc n mod 2) \<and>
    product s' = int ((Suc n + 1) div 2)"
proof (cases "t = 0")
  case True
  with assms(1,4) have e: "even n" by (auto simp: pc_guard_def even_iff_mod_2_eq_zero)
  with True assms show ?thesis
    by (auto simp: producer_def turn_def c_arith split: option.splits elim!: evenE)
next
  case False
  with assms(1,2,4) have o: "odd n" by (auto simp: pc_guard_def odd_iff_mod_2_eq_one)
  with False assms show ?thesis by (auto simp: consumer_def turn_def elim!: oddE)
qed

lemma pc_step_inv:
  assumes inv: "pc_inv m" and st: "mon_step prodcons m m'"
  shows "pc_inv m'"
proof -
  from inv have mi: "mon_inv prodcons m" by (simp add: pc_inv_def)
  then have mi': "mon_inv prodcons m'" using st by (rule pc.step_inv)
  have same: ?thesis if "shared m' = shared m" using inv that mi' by (simp add: pc_inv_def)
  from st show ?thesis
  proof (cases rule: mon_step.cases)
    case act
    then show ?thesis
    proof cases
      case (body t sh)
      have "pc_guard t (shared m)" using mi body by (simp add: mon_inv_def)
      moreover obtain n where "plines (shared m) = map turn [0..<n]"
        "pstate (shared m) = int (n mod 2)" "product (shared m) = int ((n + 1) div 2)"
        using inv by (auto simp: pc_inv_def)
      ultimately have "plines sh = map turn [0..<Suc n] \<and> pstate sh = int (Suc n mod 2) \<and>
          product sh = int ((Suc n + 1) div 2)"
        using pc_body_next [of t "shared m" n sh] body by (simp split: if_splits)
      with mi' body show ?thesis unfolding pc_inv_def by (auto simp: mon_ops simp del: upt_Suc)
    qed (intro same; simp add: mon_ops)+
  qed (intro same; simp add: mon_ops)
qed

interpretation pc_run: inductive_invariant "\<lambda>m. m = prodcons_start" "mon_step prodcons" pc_inv
proof unfold_locales
  show "pc_inv m" if "m = prodcons_start" for m
    using that pc.start_inv by (auto simp: pc_inv_def prodcons_start_def mon_start_def
        intro!: exI [of _ 0])
qed (rule pc_step_inv)

lemma mon_first_body:
  assumes "t < threads P" "guard P t sh" "body P t sh = Some sh'"
  shows "\<exists>m. (mon_step P)\<^sup>*\<^sup>* (mon_start sh) m \<and> shared m = sh'"
proof -
  let ?m0 = "mon_start sh"
  let ?m1 = "mgoto t Testing (?m0\<lparr>mowner := Some t\<rparr>)"
  let ?m2 = "mgoto t Body ?m1"
  have "mon_step P ?m0 ?m1" using assms
    by (intro mon_step.act mon_act.acquire) (simp_all add: mon_start_def)
  moreover have "mon_step P ?m1 ?m2" using assms
    by (intro mon_step.act mon_act.pass) (simp_all add: mon_start_def mgoto_def)
  moreover have "mon_step P ?m2 (mgoto t Notify (?m2\<lparr>shared := sh'\<rparr>))" using assms
    by (intro mon_step.act mon_act.body) (simp_all add: mon_start_def mgoto_def)
  ultimately have "(mon_step P)\<^sup>*\<^sup>* ?m0 (mgoto t Notify (?m2\<lparr>shared := sh'\<rparr>))"
    by (meson rtranclp.rtrancl_into_rtrancl rtranclp.rtrancl_refl)
  then show ?thesis by (intro exI conjI) (assumption, simp add: mgoto_def)
qed

lemma condvar_first:
  "\<exists>m. (mon_step condvar)\<^sup>*\<^sup>* condvar_start m \<and> transits (shared m) = [(0, 1)]"
  using mon_first_body [of 0 condvar "\<lparr>state = 0, cnt = 0, transits = []\<rparr>"]
  by (fastforce simp: condvar_start_def cv_guard_def cv_body_def state_0_def transit_def)

lemma prodcons_first:
  "\<exists>m. (mon_step prodcons)\<^sup>*\<^sup>* prodcons_start m \<and> plines (shared m) = [Produced 1 0]"
  using mon_first_body [of 0 prodcons "\<lparr>pstate = 0, product = 0, plines = []\<rparr>"]
  by (fastforce simp: prodcons_start_def pc_guard_def producer_def c_arith)

subsection \<open>semex.c\<close>

text \<open>
  The counting semaphore: the producer's pass is a print and a post, a consumer's pass a wait and a
  print. \<open>got\<close> lists the consumers in the order of their lines.
\<close>

record semex =
  sem :: nat
  to_post :: bool          \<comment> \<open>the producer has printed and not yet posted\<close>
  posted :: nat
  to_print :: "nat set"    \<comment> \<open>the consumers behind their wait\<close>
  got :: "nat list"

definition semex_start :: "nat \<Rightarrow> semex" where
  "semex_start v = \<lparr>sem = v, to_post = False, posted = 0, to_print = {}, got = []\<rparr>"

inductive semex_step :: "semex \<Rightarrow> semex \<Rightarrow> bool" where
  announce: "\<not> to_post s \<Longrightarrow> semex_step s (s\<lparr>to_post := True, posted := posted s + 1\<rparr>)"
| sem_post: "to_post s \<Longrightarrow> semex_step s (s\<lparr>to_post := False, sem := sem s + 1\<rparr>)"
| sem_wait: "i < 5 \<Longrightarrow> i \<notin> to_print s \<Longrightarrow> 0 < sem s \<Longrightarrow>
     semex_step s (s\<lparr>sem := sem s - 1, to_print := insert i (to_print s)\<rparr>)"
| got_it: "i \<in> to_print s \<Longrightarrow>
     semex_step s (s\<lparr>to_print := to_print s - {i}, got := got s @ [i]\<rparr>)"

text \<open>
  \<open>main\<close>: \<open>sem_open\<close> with \<open>O_CREAT\<close> gives a semaphore that exists under the name as it is and a new one
  the value 0; the name is removed at once. \<open>existing\<close> is the value of the semaphore under the name;
  the results are the start of the threads and what the name stands for afterwards.
\<close>

definition semex_main :: "nat option \<Rightarrow> semex \<times> nat option" where
  "semex_main existing = (semex_start (case existing of None \<Rightarrow> 0 | Some v \<Rightarrow> v), None)"

definition semex_inv :: "nat \<Rightarrow> semex \<Rightarrow> bool" where
  "semex_inv v s \<longleftrightarrow> to_print s \<subseteq> {..<5} \<and> set (got s) \<subseteq> {..<5} \<and>
     posted s + v = sem s + (if to_post s then 1 else 0) + card (to_print s) + length (got s)"

interpretation semex_run: inductive_invariant "\<lambda>s. s = semex_start v" semex_step "semex_inv v" for v
proof unfold_locales
  show "semex_inv v s" if "s = semex_start v" for s
    using that by (simp add: semex_inv_def semex_start_def)
  show "semex_inv v t" if inv: "semex_inv v s" and st: "semex_step s t" for s t
  proof -
    have fin: "finite (to_print s)" using inv finite_subset by (auto simp: semex_inv_def)
    from st show ?thesis
    proof cases
      case (got_it i)
      then have "0 < card (to_print s)" using fin card_gt_0_iff by blast
      with got_it inv fin show ?thesis by (auto simp: semex_inv_def)
    qed (use inv fin in \<open>auto simp: semex_inv_def\<close>)
  qed
qed

subsection \<open>Properties\<close>

text \<open>
  C8. The four threads of \<open>condvar.c\<close> run the state machine its header describes, and nothing else:
  in every reachable state, with wakeups that nobody asked for included, the transitions printed so
  far are 0 to 1, 1 to 2, 2 to 0, 0 to 1, 1 to 3, 3 to 0 and so on in turn, \<open>state\<close> is where the
  last one led, and at most one thread is inside the critical section.
\<close>

theorem condvar_state_machine:
  assumes "(mon_step condvar)\<^sup>*\<^sup>* condvar_start m"
  shows "(\<exists>n. transits (shared m) = cycle n \<and> state (shared m) = state_at n) \<and>
    (inside (mpcs m t) \<and> inside (mpcs m u) \<longrightarrow> t = u)"
proof -
  from assms have "cv_inv m" using cv_run.inv_run by blast
  then show ?thesis using cv.owner_unique by (auto simp: cv_inv_def)
qed

theorem condvar_state_machine_witness:
  "\<exists>m n. (mon_step condvar)\<^sup>*\<^sup>* condvar_start m \<and> transits (shared m) = [(0, 1)] \<and>
     transits (shared m) = cycle n \<and> state (shared m) = state_at n"
  using condvar_first condvar_state_machine by blast

text \<open>
  C30. No wakeup of \<open>condvar.c\<close> is lost: in every reachable state some thread can take a step of its
  own, as long as the counter \<open>cnt\<close> can still be incremented.
\<close>

theorem condvar_no_lost_wakeup:
  assumes "(mon_step condvar)\<^sup>*\<^sup>* condvar_start m" "\<bar>cnt (shared m)\<bar> < 2 ^ 31 - 1"
  shows "\<exists>m'. mon_act condvar m m'"
proof (rule cv.never_stuck)
  from assms have inv: "cv_inv m" using cv_run.inv_run by blast
  then show "mon_inv condvar m" by (simp add: cv_inv_def)
  from inv show "\<exists>t<threads condvar. guard condvar t (shared m)" by (rule cv_guard_exists)
qed (use assms(2) in \<open>auto simp: cv_body_def state_1_post_def c_arith abs_less_iff split: option.splits\<close>)

theorem condvar_no_lost_wakeup_witness:
  "\<exists>m'. mon_act condvar condvar_start m'"
  using condvar_no_lost_wakeup [OF rtranclp.rtrancl_refl]
  by (simp add: condvar_start_def mon_start_def)



text \<open>
  \<open>prodcons.c\<close> as it is written runs its two threads only if the uninitialised variables happen to
  hold the addresses of the two functions.
\<close>

lemma prodcons_main_starts:
  "(\<exists>ls. prodcons_main code c p = Some ([1, 0], ls)) \<longleftrightarrow> code c = Some 1 \<and> code p = Some 0"
  by (auto simp: prodcons_main_def split: option.splits)

text \<open>
  The semaphore of \<open>semex.c\<close> counts: the consumers' lines are never more than the producer's
  lines, and the difference is exactly the posts still in the semaphore or under way; and main has
  removed the name. A semaphore that a killed program left under the name adds its count, to one
  run only.
\<close>

lemma semex_counts:
  assumes "semex_main existing = (s0, left)" "semex_step\<^sup>*\<^sup>* s0 s"
  shows "length (got s) + card (to_print s) + sem s + (if to_post s then 1 else 0) =
      posted s + (case existing of None \<Rightarrow> 0 | Some v \<Rightarrow> v) \<and>
    set (got s) \<subseteq> {..<5} \<and> left = None"
proof -
  from assms have "semex_inv (case existing of None \<Rightarrow> 0 | Some v \<Rightarrow> v) s"
    using semex_run.inv_run unfolding semex_main_def by blast
  then show ?thesis using assms(1) by (simp add: semex_inv_def semex_main_def)
qed

end
