(* ===== verification/Clock.thy ===== *)
theory Clock
  imports Prelude
begin

section \<open>Time values and their arithmetic (task2, task5, task6)\<close>

text \<open>
  \<open>struct timespec\<close> and the conversions every timing program has a copy of. \<open>time_t\<close>, \<open>long\<close>,
  \<open>int64_t\<close> and \<open>long long\<close> are 64 bits wide; each intermediate result is checked against the
  width, and \<^const>\<open>None\<close> is an overflow.
\<close>

record timespec =
  tv_sec :: int
  tv_nsec :: int

definition BILLION :: int where "BILLION = 1000000000"
definition MILLION :: int where "MILLION = 1000000"

definition valid_ts :: "timespec \<Rightarrow> bool" where
  "valid_ts ts \<longleftrightarrow> 0 \<le> tv_nsec ts \<and> tv_nsec ts < 1000000000"

text \<open>The number of nanoseconds a time value stands for.\<close>

definition ns_of :: "timespec \<Rightarrow> int" where
  "ns_of ts = tv_sec ts * 1000000000 + tv_nsec ts"

subsection \<open>The conversions\<close>

definition timespec_to_ns :: "timespec \<Rightarrow> int option" where
  "timespec_to_ns ts = do { s \<leftarrow> i64 (tv_sec ts * BILLION); i64 (s + tv_nsec ts) }"

definition ns_to_timespec :: "int \<Rightarrow> timespec" where
  "ns_to_timespec ns = \<lparr>tv_sec = ns sdiv BILLION, tv_nsec = ns smod BILLION\<rparr>"

text \<open>The same functions of \<open>sched_fifo_jitter.c\<close> and \<open>reptimer_timerfd.c\<close>.\<close>

definition ts_to_ns :: "timespec \<Rightarrow> int option" where
  "ts_to_ns ts = do { s \<leftarrow> i64 (tv_sec ts * 1000000000); i64 (s + tv_nsec ts) }"

definition ns_to_ts :: "int \<Rightarrow> timespec" where
  "ns_to_ts ns = \<lparr>tv_sec = ns sdiv 1000000000, tv_nsec = ns smod 1000000000\<rparr>"

definition to_ns :: "timespec \<Rightarrow> int option" where
  "to_ns ts = do { s \<leftarrow> i64 (tv_sec ts * 1000000000); i64 (s + tv_nsec ts) }"

definition timespec_diff_ns :: "timespec \<Rightarrow> timespec \<Rightarrow> int option" where
  "timespec_diff_ns start end = do {
     ds \<leftarrow> i64 (tv_sec end - tv_sec start);
     m \<leftarrow> i64 (ds * 1000000000);
     dn \<leftarrow> i64 (tv_nsec end - tv_nsec start);
     i64 (m + dn) }"

text \<open>The copies in \<open>task1_latency.c\<close>, \<open>task2_mlock.c\<close> and \<open>task3_benchmark.c\<close>.\<close>

definition timespec_diff_ns_latency :: "timespec \<Rightarrow> timespec \<Rightarrow> int option" where
  "timespec_diff_ns_latency start end = do {
     ds \<leftarrow> i64 (tv_sec end - tv_sec start);
     m \<leftarrow> i64 (ds * 1000000000);
     dn \<leftarrow> i64 (tv_nsec end - tv_nsec start);
     i64 (m + dn) }"

definition timespec_diff_ns_mlock :: "timespec \<Rightarrow> timespec \<Rightarrow> int option" where
  "timespec_diff_ns_mlock start end = do {
     ds \<leftarrow> i64 (tv_sec end - tv_sec start);
     m \<leftarrow> i64 (ds * 1000000000);
     dn \<leftarrow> i64 (tv_nsec end - tv_nsec start);
     i64 (m + dn) }"

definition timespec_diff_ns_benchmark :: "timespec \<Rightarrow> timespec \<Rightarrow> int option" where
  "timespec_diff_ns_benchmark start end = do {
     ds \<leftarrow> i64 (tv_sec end - tv_sec start);
     m \<leftarrow> i64 (ds * 1000000000);
     dn \<leftarrow> i64 (tv_nsec end - tv_nsec start);
     i64 (m + dn) }"

text \<open>\<open>abs_time_after_ms\<close> from the time the clock gives; \<open>ms\<close> is an \<open>int\<close>.\<close>

definition abs_time_after_ms :: "timespec \<Rightarrow> int \<Rightarrow> timespec option" where
  "abs_time_after_ms clock ms = do {
     sec \<leftarrow> i64 (tv_sec clock + ms sdiv 1000);
     add_ns \<leftarrow> i64 ((ms smod 1000) * 1000000);
     nsec \<leftarrow> i64 (tv_nsec clock + add_ns);
     (if 1000000000 \<le> nsec
      then do { sec' \<leftarrow> i64 (sec + 1); nsec' \<leftarrow> i64 (nsec - 1000000000);
                Some \<lparr>tv_sec = sec', tv_nsec = nsec'\<rparr> }
      else Some \<lparr>tv_sec = sec, tv_nsec = nsec\<rparr>) }"

text \<open>The copy in \<open>timeout_condvar.c\<close>.\<close>

definition abs_time_after_ms_cv :: "timespec \<Rightarrow> int \<Rightarrow> timespec option" where
  "abs_time_after_ms_cv clock ms = do {
     sec \<leftarrow> i64 (tv_sec clock + ms sdiv 1000);
     add_ns \<leftarrow> i64 ((ms smod 1000) * 1000000);
     nsec \<leftarrow> i64 (tv_nsec clock + add_ns);
     (if 1000000000 \<le> nsec
      then do { sec' \<leftarrow> i64 (sec + 1); nsec' \<leftarrow> i64 (nsec - 1000000000);
                Some \<lparr>tv_sec = sec', tv_nsec = nsec'\<rparr> }
      else Some \<lparr>tv_sec = sec, tv_nsec = nsec\<rparr>) }"

lemmas conversion_defs = timespec_to_ns_def ns_to_timespec_def ts_to_ns_def ns_to_ts_def to_ns_def
  timespec_diff_ns_def BILLION_def MILLION_def

lemma same_conversions: "ts_to_ns = timespec_to_ns" "to_ns = timespec_to_ns" "ns_to_ts = ns_to_timespec"
    "abs_time_after_ms_cv = abs_time_after_ms"
  by (simp_all add: fun_eq_iff conversion_defs abs_time_after_ms_def abs_time_after_ms_cv_def)

lemma same_differences [simp]: "timespec_diff_ns_latency = timespec_diff_ns" "timespec_diff_ns_mlock = timespec_diff_ns"
    "timespec_diff_ns_benchmark = timespec_diff_ns"
  by (simp_all add: fun_eq_iff timespec_diff_ns_latency_def timespec_diff_ns_mlock_def timespec_diff_ns_benchmark_def
      timespec_diff_ns_def)

lemma timespec_to_ns_Some:
  "valid_ts ts \<Longrightarrow> 0 \<le> tv_sec ts \<Longrightarrow> ns_of ts < 2 ^ 63 \<Longrightarrow> timespec_to_ns ts = Some (ns_of ts)"
  by (auto simp: conversion_defs valid_ts_def ns_of_def chk_def fits_def)

lemma ns_of_ns_to_timespec: "ns_of (ns_to_timespec ns) = ns"
  by (simp add: ns_of_def conversion_defs sdiv_mult_smod_eq)

lemma valid_ns_to_timespec: "0 \<le> ns \<Longrightarrow> valid_ts (ns_to_timespec ns) \<and> 0 \<le> tv_sec (ns_to_timespec ns)"
  by (simp add: valid_ts_def conversion_defs sdiv_nonneg smod_nonneg)

lemma ns_to_timespec_ns_of:
  "valid_ts ts \<Longrightarrow> 0 \<le> tv_sec ts \<Longrightarrow> ns_to_timespec (ns_of ts) = ts"
  by (cases ts) (simp add: ns_of_def conversion_defs valid_ts_def sdiv_nonneg smod_nonneg)

lemma timespec_diff_exact:
  assumes "valid_ts a" "valid_ts b" "\<bar>tv_sec b - tv_sec a\<bar> < 9223372035"
  shows "timespec_diff_ns a b = Some (ns_of b - ns_of a)"
  using assms by (auto simp: conversion_defs valid_ts_def ns_of_def chk_def fits_def algebra_simps abs_less_iff)

lemma abs_time_exact:
  assumes "valid_ts c" "0 \<le> tv_sec c" "tv_sec c < 2 ^ 62" "0 \<le> ms" "ms < 2 ^ 31"
  shows "\<exists>ts. abs_time_after_ms c ms = Some ts \<and> valid_ts ts \<and> ns_of ts = ns_of c + ms * 1000000"
proof -
  have dm: "ms sdiv 1000 = ms div 1000" "ms smod 1000 = ms mod 1000"
    using assms(4) by (simp_all add: sdiv_nonneg smod_nonneg)
  have "0 \<le> ms div 1000" "ms div 1000 < 2 ^ 31" "0 \<le> ms mod 1000" "ms mod 1000 < 1000"
    using assms(4,5) by auto
  moreover have "ms div 1000 * 1000000000 + ms mod 1000 * 1000000 = ms * 1000000"
    using div_mult_mod_eq [of ms 1000] by linarith
  ultimately show ?thesis using assms(1-3)
    unfolding abs_time_after_ms_def dm
    by (auto simp: chk_def fits_def valid_ts_def ns_of_def)
qed

lemma abs_time_valid:
  "abs_time_after_ms c ms = Some ts \<Longrightarrow> valid_ts c \<Longrightarrow> 0 \<le> ms \<Longrightarrow> valid_ts ts"
proof -
  assume r: "abs_time_after_ms c ms = Some ts" and v: "valid_ts c" and ms: "0 \<le> ms"
  have "ms smod 1000 = ms mod 1000" using ms by (simp add: smod_nonneg)
  then have "0 \<le> ms smod 1000" "ms smod 1000 \<le> 999" by simp_all
  with r v show "valid_ts ts"
    by (auto simp: abs_time_after_ms_def valid_ts_def c_arith bind_eq_Some_conv split: if_splits)
qed

text \<open>Milliseconds as seconds and nanoseconds.\<close>

lemma ms_split_valid:
  "0 \<le> ms \<Longrightarrow> valid_ts \<lparr>tv_sec = ms sdiv 1000, tv_nsec = (ms smod 1000) * 1000000\<rparr> \<and> 0 \<le> ms sdiv 1000"
proof -
  assume "0 \<le> ms"
  then have "ms smod 1000 = ms mod 1000" "ms sdiv 1000 = ms div 1000" by (simp_all add: smod_nonneg sdiv_nonneg)
  moreover have "0 \<le> ms mod 1000" "ms mod 1000 \<le> 999" "0 \<le> ms div 1000" using \<open>0 \<le> ms\<close> by simp_all
  ultimately show ?thesis by (simp add: valid_ts_def)
qed

subsection \<open>Properties\<close>

text \<open>
  The conversions of \<open>calctime2.c\<close>, \<open>sched_fifo_jitter.c\<close> and \<open>reptimer_timerfd.c\<close> are inverse to
  each other: nanoseconds become the time value that stands for them, and a valid time value whose
  nanoseconds fit 64 bits comes back unchanged.
\<close>

theorem timespec_roundtrip:
  assumes "0 \<le> ns" "ns < 2 ^ 63" "valid_ts ts" "0 \<le> tv_sec ts" "ns_of ts < 2 ^ 63"
  shows "timespec_to_ns (ns_to_timespec ns) = Some ns \<and> valid_ts (ns_to_timespec ns) \<and>
    map_option ns_to_ts (ts_to_ns ts) = Some ts \<and> to_ns ts = ts_to_ns ts"
  using assms timespec_to_ns_Some [of "ns_to_timespec ns"] valid_ns_to_timespec [of ns]
    timespec_to_ns_Some [of ts] ns_to_timespec_ns_of [of ts]
  by (simp add: same_conversions ns_of_ns_to_timespec)

theorem timespec_roundtrip_witness:
  "timespec_to_ns (ns_to_timespec 5000000007) = Some 5000000007 \<and>
   map_option ns_to_ts (ts_to_ns \<lparr>tv_sec = 5, tv_nsec = 7\<rparr>) = Some \<lparr>tv_sec = 5, tv_nsec = 7\<rparr>"
  using timespec_roundtrip [of 5000000007 "\<lparr>tv_sec = 5, tv_nsec = 7\<rparr>"]
  by (simp add: valid_ts_def ns_of_def)

text \<open>
  The deadlines of \<open>timeout_mq.c\<close> and \<open>timeout_condvar.c\<close>: for every timeout \<open>ms\<close> that is an
  \<open>int\<close> and not negative, the carry keeps the nanoseconds below a second and the deadline is exactly
  \<open>ms\<close> milliseconds after the time read from the clock.
\<close>

theorem deadline_exact:
  assumes "valid_ts c" "0 \<le> tv_sec c" "tv_sec c < 2 ^ 62" "0 \<le> ms" "ms < 2 ^ 31"
  shows "\<exists>ts. abs_time_after_ms c ms = Some ts \<and> valid_ts ts \<and> ns_of ts = ns_of c + ms * 1000000"
  using assms by (rule abs_time_exact)

theorem deadline_exact_witness:
  "\<exists>ts. abs_time_after_ms \<lparr>tv_sec = 9, tv_nsec = 950000000\<rparr> 100 = Some ts \<and> valid_ts ts \<and>
     ns_of ts = 10050000000"
  using deadline_exact [of "\<lparr>tv_sec = 9, tv_nsec = 950000000\<rparr>" 100]
  by (simp add: valid_ts_def ns_of_def)

end
