(* ===== verification/Periodic.thy ===== *)
theory Periodic
  imports Clock "HOL-Library.Multiset"
begin

section \<open>Periodic sampling and its statistics (calctime1.c, calctime2.c, sched_fifo_jitter.c, jitter_benchmark.c)\<close>

text \<open>
  The measuring loops. What the kernel answers is an argument: per sample the results of the
  successive \<open>clock_nanosleep\<close> calls and the reading of the clock behind them. \<^const>\<open>None\<close> is an
  overflow of a signed operation or a loop that is still waiting when the answers are used up;
  \<open>Inl\<close> is an exit with \<open>EXIT_FAILURE\<close> and its message. The averages, which the programs compute in
  floating point from the sums here, and what is printed are in theory \<open>Averages\<close>.
\<close>

definition EINTR :: int where "EINTR = 4"

text \<open>\<open>do rc = clock_nanosleep(...) while (rc == EINTR)\<close>.\<close>

fun sleep_until :: "int list \<Rightarrow> int option" where
  "sleep_until [] = None"
| "sleep_until (rc # rcs) = (if rc = EINTR then sleep_until rcs else Some rc)"

type_synonym wakeup = "int list \<times> timespec option"

subsection \<open>calctime2.c\<close>

definition period_ns :: int where "period_ns = 2 * MILLION"
definition NUM_SAMPLES :: nat where "NUM_SAMPLES = 5000"

text \<open>The sampling loop: per sample the deadline it slept until and the delta it stored.\<close>

fun sample_loop :: "nat \<Rightarrow> int \<Rightarrow> wakeup list \<Rightarrow> (string + (timespec \<times> int) list) option" where
  "sample_loop 0 next_ns env = Some (Inr [])"
| "sample_loop (Suc n) next_ns [] = None"
| "sample_loop (Suc n) next_ns ((rcs, now) # env) =
     (case sleep_until rcs of
        None \<Rightarrow> None
      | Some rc \<Rightarrow>
         if rc \<noteq> 0 then Some (Inl ''clock_nanosleep failed'')
         else (case now of
             None \<Rightarrow> Some (Inl ''clock_gettime failed'')
           | Some ts \<Rightarrow> do {
               now_ns \<leftarrow> timespec_to_ns ts;
               base \<leftarrow> i64 (next_ns - period_ns);
               delta \<leftarrow> i64 (now_ns - base);
               next' \<leftarrow> i64 (next_ns + period_ns);
               r \<leftarrow> sample_loop n next' env;
               Some (map_sum id (\<lambda>rest. (ns_to_timespec next_ns, delta) # rest) r) }))"

text \<open>Every deadline handed to \<open>clock_nanosleep\<close> is a valid time value.\<close>

lemma sample_deadlines_valid:
  "sample_loop n next_ns env = Some (Inr samples) \<Longrightarrow> 0 \<le> next_ns \<Longrightarrow> ts \<in> fst ` set samples \<Longrightarrow>
   valid_ts ts \<and> 0 \<le> tv_sec ts"
proof (induction n arbitrary: next_ns env samples)
  case (Suc n)
  then obtain rcs now env' where env: "env = (rcs, now) # env'" by (cases env) auto
  have inr: "map_sum id f r = Inr y \<longleftrightarrow> (\<exists>x. r = Inr x \<and> y = f x)" for f :: "(timespec \<times> int) list \<Rightarrow> (timespec \<times> int) list" and r :: "string + (timespec \<times> int) list" and y
    by (cases r) auto
  from Suc.prems(1) obtain now_ts delta next' rest where
    rc: "sleep_until rcs = Some 0" "now = Some now_ts"
      "i64 (next_ns + period_ns) = Some next'" "sample_loop n next' env' = Some (Inr rest)" and
    s: "samples = (ns_to_timespec next_ns, delta) # rest"
    by (auto simp: env bind_eq_Some_conv inr split: option.splits if_splits)
  from s have "ts = ns_to_timespec next_ns \<or> ts \<in> fst ` set rest" using Suc.prems(3) by auto
  moreover have "0 \<le> next'" using rc(3) Suc.prems(2) by (simp add: c_arith period_ns_def MILLION_def)
  ultimately show ?case using valid_ns_to_timespec [OF Suc.prems(2)] Suc.IH [OF rc(4)] by blast
qed simp

definition INT64_MAX :: int where "INT64_MAX = 9223372036854775807"
definition INT64_MIN :: int where "INT64_MIN = - 9223372036854775808"

text \<open>The loop over the deltas: minimum, maximum and sum.\<close>

fun stats_loop :: "int list \<Rightarrow> int \<times> int \<times> int \<Rightarrow> (int \<times> int \<times> int) option" where
  "stats_loop [] acc = Some acc"
| "stats_loop (d # ds) (min_ns, max_ns, sum_ns) =
     (let min_ns = (if d < min_ns then d else min_ns);
          max_ns = (if d > max_ns then d else max_ns)
      in do { sum_ns \<leftarrow> i64 (sum_ns + d); stats_loop ds (min_ns, max_ns, sum_ns) })"

record report =
  rep_min :: int
  rep_max :: int
  rep_sum :: int
  rep_shown :: "int list"
  rep_deltas :: "int list"  \<comment> \<open>all of them, for the standard deviation\<close>

definition calctime2_main ::
  "timespec option \<Rightarrow> timespec option \<Rightarrow> timespec option \<Rightarrow> wakeup list \<Rightarrow> (string + report) option" where
  "calctime2_main res_rt res_mono t0 env =
    (if res_rt = None then Some (Inl ''clock_getres(CLOCK_REALTIME) failed'')
     else if res_mono = None then Some (Inl ''clock_getres(CLOCK_MONOTONIC) failed'')
     else (case t0 of None \<Rightarrow> Some (Inl ''clock_gettime failed'')
     | Some t_next \<Rightarrow> do {
         t \<leftarrow> timespec_to_ns t_next;
         next_ns \<leftarrow> i64 (t + period_ns);
         r \<leftarrow> sample_loop NUM_SAMPLES next_ns env;
         (case r of
            Inl e \<Rightarrow> Some (Inl e)
          | Inr samples \<Rightarrow> (let deltas_ns = map snd samples in do {
              (mn, mx, sm) \<leftarrow> stats_loop deltas_ns (INT64_MAX, INT64_MIN, 0);
              Some (Inr \<lparr>rep_min = mn, rep_max = mx, rep_sum = sm, rep_shown = take 100 deltas_ns,
                rep_deltas = deltas_ns\<rparr>) })) }))"

text \<open>
  What the kernel promises for an absolute sleep: the call that is not interrupted returns 0, and
  not before the deadline. \<open>punctual\<close> adds that the clock readings are valid and less than 13 days
  late, so that no sum overflows.
\<close>

definition punctual :: "int \<Rightarrow> wakeup list \<Rightarrow> bool" where
  "punctual t0 env \<longleftrightarrow> (\<forall>i < length env. \<exists>ts. sleep_until (fst (env ! i)) = Some 0 \<and>
     snd (env ! i) = Some ts \<and> valid_ts ts \<and> t0 + (int i + 1) * period_ns \<le> ns_of ts \<and>
     ns_of ts < t0 + int i * period_ns + 2 ^ 50)"

definition reading :: "wakeup \<Rightarrow> int" where
  "reading w = (case snd w of Some ts \<Rightarrow> ns_of ts | None \<Rightarrow> 0)"

lemma punctual_Cons:
  assumes "punctual t0 (w # env)"
  shows "punctual (t0 + period_ns) env \<and> (\<exists>ts. sleep_until (fst w) = Some 0 \<and> snd w = Some ts \<and>
    valid_ts ts \<and> t0 + period_ns \<le> ns_of ts \<and> ns_of ts < t0 + 2 ^ 50)"
proof
  show "punctual (t0 + period_ns) env"
    unfolding punctual_def
  proof (intro allI impI)
    fix i assume "i < length env"
    then have "Suc i < length (w # env)" by simp
    with assms show "\<exists>ts. sleep_until (fst (env ! i)) = Some 0 \<and> snd (env ! i) = Some ts \<and> valid_ts ts \<and>
        t0 + period_ns + (int i + 1) * period_ns \<le> ns_of ts \<and>
        ns_of ts < t0 + period_ns + int i * period_ns + 2 ^ 50"
      unfolding punctual_def by (fastforce simp: algebra_simps)
  qed
  from assms have "0 < length (w # env) \<Longrightarrow> \<exists>ts. sleep_until (fst ((w # env) ! 0)) = Some 0 \<and>
      snd ((w # env) ! 0) = Some ts \<and> valid_ts ts \<and> t0 + (int 0 + 1) * period_ns \<le> ns_of ts \<and>
      ns_of ts < t0 + int 0 * period_ns + 2 ^ 50"
    unfolding punctual_def by blast
  then show "\<exists>ts. sleep_until (fst w) = Some 0 \<and> snd w = Some ts \<and>
    valid_ts ts \<and> t0 + period_ns \<le> ns_of ts \<and> ns_of ts < t0 + 2 ^ 50" by simp
qed

lemma timespec_to_ns_later:
  assumes "valid_ts ts" "0 \<le> ns_of ts" "ns_of ts < 2 ^ 63"
  shows "timespec_to_ns ts = Some (ns_of ts)"
  using assms by (intro timespec_to_ns_Some) (auto simp: ns_of_def valid_ts_def)

lemma sample_loop_correct:
  assumes "punctual t0 env" "length env = n" "0 \<le> t0" "t0 + int n * period_ns < 2 ^ 61"
  shows "sample_loop n (t0 + period_ns) env =
    Some (Inr (map (\<lambda>i. (ns_to_timespec (t0 + (int i + 1) * period_ns),
                          reading (env ! i) - (t0 + int i * period_ns))) [0..<n]))"
  using assms
proof (induction n arbitrary: t0 env)
  case 0
  then show ?case by simp
next
  case (Suc n)
  then obtain w env' where env: "env = w # env'" "length env' = n" by (cases env) auto
  from punctual_Cons [of t0 w env'] Suc.prems(1) env obtain ts where
    p: "punctual (t0 + period_ns) env'" "sleep_until (fst w) = Some 0" "snd w = Some ts" "valid_ts ts"
      "t0 + period_ns \<le> ns_of ts" "ns_of ts < t0 + 2 ^ 50" by auto
  have per: "0 < period_ns" by (simp add: period_ns_def MILLION_def)
  have b: "t0 + period_ns + int n * period_ns < 2 ^ 61"
    using Suc.prems(4) by (simp add: algebra_simps)
  moreover have "0 \<le> int n * period_ns" using per by simp
  ultimately have small: "t0 + period_ns < 2 ^ 61" by linarith
  have now: "timespec_to_ns ts = Some (ns_of ts)"
    using p(4-6) small Suc.prems(3) per by (intro timespec_to_ns_later) auto
  have pv: "period_ns = 2000000" by (simp add: period_ns_def MILLION_def)
  have fit: "i64 (t0 + period_ns - period_ns) = Some t0" "i64 (ns_of ts - t0) = Some (ns_of ts - t0)"
    "i64 (t0 + period_ns + period_ns) = Some (t0 + period_ns + period_ns)"
    using p(5,6) small Suc.prems(3) by (auto simp: c_arith pv)
  have ih: "sample_loop n (t0 + period_ns + period_ns) env' =
    Some (Inr (map (\<lambda>i. (ns_to_timespec (t0 + period_ns + (int i + 1) * period_ns),
        reading (env' ! i) - (t0 + period_ns + int i * period_ns))) [0..<n]))"
    by (rule Suc.IH [OF p(1) env(2)]) (use Suc.prems(3) per b in auto)
  have shift: "[0..<Suc n] = 0 # map Suc [0..<n]" by (simp add: map_Suc_upt upt_conv_Cons del: upt_Suc)
  show ?case
    unfolding env(1) shift
    by (cases w) (use p(2,3) now fit ih in \<open>simp add: reading_def algebra_simps\<close>)
qed

lemma stats_loop_correct:
  assumes "\<forall>d \<in> set ds. 0 \<le> d \<and> d < 2 ^ 50" "0 \<le> sm" "sm + int (length ds) * 2 ^ 50 < 2 ^ 63"
  shows "stats_loop ds (mn, mx, sm) = Some (Min (insert mn (set ds)), Max (insert mx (set ds)), sm + sum_list ds)"
  using assms
proof (induction ds arbitrary: mn mx sm)
  case Nil
  then show ?case by simp
next
  case (Cons d ds)
  then have d: "0 \<le> d" "d < 2 ^ 50" by auto
  have "0 \<le> int (length ds) * 2 ^ 50" by simp
  moreover have le: "sm + d + int (length ds) * 2 ^ 50 < 2 ^ 63" using Cons.prems(3) d(2) by simp
  ultimately have "sm + d < 2 ^ 63" by linarith
  with Cons.prems(2) d have sum: "i64 (sm + d) = Some (sm + d)" by (simp add: c_arith)
  have "stats_loop (d # ds) (mn, mx, sm) = stats_loop ds (min d mn, max d mx, sm + d)"
    using sum by (simp add: Let_def min_def max_def)
  also have "\<dots> = Some (Min (insert (min d mn) (set ds)), Max (insert (max d mx) (set ds)),
      sm + d + sum_list ds)"
    by (rule Cons.IH) (use Cons.prems d le in auto)
  finally show ?case by (simp add: Min_insert_min Max_insert_max)
qed

subsection \<open>sched_fifo_jitter.c\<close>

definition compare_i64 :: "int \<Rightarrow> int \<Rightarrow> int" where
  "compare_i64 va vb = (if va < vb then - 1 else if va > vb then 1 else 0)"

text \<open>The loop stores how late each wakeup is; the clock reading is used unchecked.\<close>

fun fifo_loop :: "nat \<Rightarrow> int \<Rightarrow> (int list \<times> timespec) list \<Rightarrow> (string + int list) option" where
  "fifo_loop 0 next_ns env = Some (Inr [])"
| "fifo_loop (Suc n) next_ns [] = None"
| "fifo_loop (Suc n) next_ns ((rcs, now) # env) =
     (case sleep_until rcs of
        None \<Rightarrow> None
      | Some rc \<Rightarrow>
         if rc \<noteq> 0 then Some (Inl ''clock_nanosleep'')
         else do {
           now_ns \<leftarrow> ts_to_ns now;
           delta \<leftarrow> i64 (now_ns - next_ns);
           next' \<leftarrow> i64 (next_ns + period_ns);
           r \<leftarrow> fifo_loop n next' env;
           Some (map_sum id (\<lambda>rest. delta # rest) r) })"

fun sum_loop :: "int list \<Rightarrow> int \<Rightarrow> int option" where
  "sum_loop [] s = Some s"
| "sum_loop (d # ds) s = do { s' \<leftarrow> i64 (s + d); sum_loop ds s' }"

record jitter =
  jmin :: int
  jmax :: int
  jp99 :: int
  jsum :: int

text \<open>\<open>main\<close> from the first clock reading on; \<open>qsort\<close> is the C library's.\<close>

definition sched_fifo_main ::
  "((int \<Rightarrow> int \<Rightarrow> int) \<Rightarrow> int list \<Rightarrow> int list) \<Rightarrow> timespec \<Rightarrow> (int list \<times> timespec) list \<Rightarrow> (string + jitter) option"
where
  "sched_fifo_main qsort t0 env =
     (let samples = 5000 in do {
        t \<leftarrow> ts_to_ns t0;
        next_ns \<leftarrow> i64 (t + period_ns);
        r \<leftarrow> fifo_loop samples next_ns env;
        (case r of
           Inl e \<Rightarrow> Some (Inl e)
         | Inr deltas \<Rightarrow> (let sorted = qsort compare_i64 deltas in do {
             s \<leftarrow> sum_loop sorted 0;
             Some (Inr \<lparr>jmin = sorted ! 0, jmax = sorted ! (samples - 1),
                        jp99 = sorted ! ((samples * 99) div 100), jsum = s\<rparr>) })) })"

text \<open>
  What the C standard says of \<open>qsort\<close>: with a comparison that orders the elements consistently, it
  leaves a permutation of the array in ascending order.
\<close>

definition consistent :: "(int \<Rightarrow> int \<Rightarrow> int) \<Rightarrow> bool" where
  "consistent cmp \<longleftrightarrow> (\<forall>a b. cmp a b < 0 \<longleftrightarrow> cmp b a > 0) \<and>
     (\<forall>a b c. cmp a b \<le> 0 \<and> cmp b c \<le> 0 \<longrightarrow> cmp a c \<le> 0)"

definition qsort_spec :: "((int \<Rightarrow> int \<Rightarrow> int) \<Rightarrow> int list \<Rightarrow> int list) \<Rightarrow> bool" where
  "qsort_spec qsort \<longleftrightarrow> (\<forall>cmp xs. consistent cmp \<longrightarrow>
     mset (qsort cmp xs) = mset xs \<and> sorted_wrt (\<lambda>a b. cmp a b \<le> 0) (qsort cmp xs))"

lemma compare_i64_consistent: "consistent compare_i64"
  by (auto simp: consistent_def compare_i64_def)

lemma qsort_sorts:
  assumes "qsort_spec qsort"
  shows "mset (qsort compare_i64 xs) = mset xs \<and> sorted (qsort compare_i64 xs)"
proof -
  have le: "(\<lambda>a b. compare_i64 a b \<le> 0) = (\<le>)" by (auto simp: fun_eq_iff compare_i64_def)
  from assms compare_i64_consistent have "mset (qsort compare_i64 xs) = mset xs"
    "sorted_wrt (\<lambda>a b. compare_i64 a b \<le> 0) (qsort compare_i64 xs)" by (auto simp: qsort_spec_def)
  then show ?thesis by (simp add: le)
qed

text \<open>An insertion sort that takes the comparison, to show that the contract can be met.\<close>

fun insert_by :: "(int \<Rightarrow> int \<Rightarrow> int) \<Rightarrow> int \<Rightarrow> int list \<Rightarrow> int list" where
  "insert_by cmp x [] = [x]"
| "insert_by cmp x (y # ys) = (if cmp x y \<le> 0 then x # y # ys else y # insert_by cmp x ys)"

definition sort_by :: "(int \<Rightarrow> int \<Rightarrow> int) \<Rightarrow> int list \<Rightarrow> int list" where
  "sort_by cmp xs = foldr (insert_by cmp) xs []"

lemma mset_insert_by: "mset (insert_by cmp x ys) = add_mset x (mset ys)"
  by (induction ys) auto

lemma set_insert_by: "set (insert_by cmp x ys) = insert x (set ys)"
  by (induction ys) auto

lemma sorted_insert_by:
  assumes "consistent cmp" "sorted_wrt (\<lambda>a b. cmp a b \<le> 0) ys"
  shows "sorted_wrt (\<lambda>a b. cmp a b \<le> 0) (insert_by cmp x ys)"
  using assms(2)
proof (induction ys)
  case Nil
  then show ?case by simp
next
  case (Cons y ys)
  have tr: "cmp a b \<le> 0 \<Longrightarrow> cmp b c \<le> 0 \<Longrightarrow> cmp a c \<le> 0" for a b c
    using assms(1) unfolding consistent_def by blast
  have tot: "\<not> cmp x y \<le> 0 \<Longrightarrow> cmp y x \<le> 0"
    using assms(1) unfolding consistent_def by (metis less_imp_le not_le)
  from Cons tr tot show ?case by (auto simp: set_insert_by)
qed

lemma sort_by_spec: "qsort_spec sort_by"
proof -
  have "mset (foldr (insert_by cmp) xs []) = mset xs \<and>
      (consistent cmp \<longrightarrow> sorted_wrt (\<lambda>a b. cmp a b \<le> 0) (foldr (insert_by cmp) xs []))" for cmp xs
    by (induction xs) (auto simp: mset_insert_by sorted_insert_by)
  then show ?thesis by (simp add: qsort_spec_def sort_by_def)
qed

lemma sum_loop_correct:
  assumes "\<forall>d \<in> set ds. 0 \<le> d \<and> d < 2 ^ 50" "0 \<le> s" "s + int (length ds) * 2 ^ 50 < 2 ^ 63"
  shows "sum_loop ds s = Some (s + sum_list ds)"
  using assms
proof (induction ds arbitrary: s)
  case Nil
  then show ?case by simp
next
  case (Cons d ds)
  then have d: "0 \<le> d" "d < 2 ^ 50" by auto
  have "0 \<le> int (length ds) * 2 ^ 50" by simp
  moreover have le: "s + d + int (length ds) * 2 ^ 50 < 2 ^ 63" using Cons.prems(3) d(2) by simp
  ultimately have "s + d < 2 ^ 63" by linarith
  with Cons.prems(2) d have "i64 (s + d) = Some (s + d)" by (simp add: c_arith)
  with Cons.IH [of "s + d"] Cons.prems d le show ?case by simp
qed

lemma sorted_above:
  assumes "sorted (xs :: int list)" "k < length xs"
  shows "length (filter (\<lambda>x. xs ! k < x) xs) \<le> length xs - Suc k"
proof -
  have "\<forall>x \<in> set (take (Suc k) xs). x \<le> xs ! k"
    using assms by (auto simp: in_set_conv_nth sorted_iff_nth_mono less_Suc_eq_le)
  then have "filter (\<lambda>x. xs ! k < x) (take (Suc k) xs) = []"
    by (auto simp: filter_empty_conv)
  then have "filter (\<lambda>x. xs ! k < x) xs = filter (\<lambda>x. xs ! k < x) (drop (Suc k) xs)"
    by (metis append_Nil append_take_drop_id filter_append)
  then show ?thesis by (metis length_drop length_filter_le)
qed

lemma sorted_ends:
  assumes "sorted (xs :: int list)" "xs \<noteq> []"
  shows "xs ! 0 = Min (set xs)" "xs ! (length xs - 1) = Max (set xs)"
proof -
  have "\<forall>x \<in> set xs. xs ! 0 \<le> x" "\<forall>x \<in> set xs. x \<le> xs ! (length xs - 1)"
    using assms by (auto simp: in_set_conv_nth sorted_iff_nth_mono)
  moreover have "xs ! 0 \<in> set xs" "xs ! (length xs - 1) \<in> set xs" using assms(2) by auto
  ultimately show "xs ! 0 = Min (set xs)" "xs ! (length xs - 1) = Max (set xs)"
    by (auto intro!: Min_eqI [symmetric] Max_eqI [symmetric])
qed

definition with_reading :: "(int list \<times> timespec) list \<Rightarrow> wakeup list" where
  "with_reading env = map (apsnd Some) env"

lemma fifo_loop_correct:
  assumes "punctual t0 (with_reading env)" "length env = n" "0 \<le> t0" "t0 + int n * period_ns < 2 ^ 61"
  shows "fifo_loop n (t0 + period_ns) env =
    Some (Inr (map (\<lambda>i. ns_of (snd (env ! i)) - (t0 + (int i + 1) * period_ns)) [0..<n]))"
  using assms
proof (induction n arbitrary: t0 env)
  case 0
  then show ?case by simp
next
  case (Suc n)
  then obtain rcs ts env' where env: "env = (rcs, ts) # env'" "length env' = n" by (cases env) auto
  from punctual_Cons [of t0 "(rcs, Some ts)" "with_reading env'"] Suc.prems(1) env have
    p: "punctual (t0 + period_ns) (with_reading env')" "sleep_until rcs = Some 0" "valid_ts ts"
      "t0 + period_ns \<le> ns_of ts" "ns_of ts < t0 + 2 ^ 50" by (auto simp: with_reading_def)
  have pv: "period_ns = 2000000" by (simp add: period_ns_def MILLION_def)
  have b: "t0 + period_ns + int n * period_ns < 2 ^ 61"
    using Suc.prems(4) by (simp add: algebra_simps)
  moreover have "0 \<le> int n * period_ns" by (simp add: pv)
  ultimately have small: "t0 + period_ns < 2 ^ 61" by linarith
  have now: "ts_to_ns ts = Some (ns_of ts)"
    unfolding same_conversions
    using p(3-5) small Suc.prems(3) pv by (intro timespec_to_ns_later) auto
  have fit: "i64 (ns_of ts - (t0 + period_ns)) = Some (ns_of ts - (t0 + period_ns))"
    "i64 (t0 + period_ns + period_ns) = Some (t0 + period_ns + period_ns)"
    using p(4,5) small Suc.prems(3) by (auto simp: c_arith pv)
  have ih: "fifo_loop n (t0 + period_ns + period_ns) env' =
    Some (Inr (map (\<lambda>i. ns_of (snd (env' ! i)) - (t0 + period_ns + (int i + 1) * period_ns)) [0..<n]))"
    by (rule Suc.IH [OF p(1) env(2)]) (use Suc.prems(3) pv b in auto)
  have shift: "[0..<Suc n] = 0 # map Suc [0..<n]" by (simp add: map_Suc_upt upt_conv_Cons del: upt_Suc)
  show ?case
    unfolding env(1) shift using p(2) now fit ih by (simp add: algebra_simps)
qed

lemma punctual_nth:
  assumes "punctual t0 env" "i < length env"
  shows "t0 + (int i + 1) * period_ns \<le> reading (env ! i) \<and> reading (env ! i) < t0 + int i * period_ns + 2 ^ 50"
  using assms unfolding punctual_def reading_def by fastforce

text \<open>Wakeups exactly on time, for concrete runs.\<close>

definition on_time :: "int \<Rightarrow> nat \<Rightarrow> wakeup list" where
  "on_time t0 n = map (\<lambda>i. ([EINTR, 0], Some (ns_to_timespec (t0 + (int i + 1) * period_ns)))) [0..<n]"

lemma punctual_on_time: "0 \<le> t0 \<Longrightarrow> punctual t0 (on_time t0 n)"
  using valid_ns_to_timespec
  by (auto simp: punctual_def on_time_def EINTR_def ns_of_ns_to_timespec period_ns_def MILLION_def algebra_simps)

lemma length_on_time [simp]: "length (on_time t0 n) = n"
  by (simp add: on_time_def)

subsection \<open>jitter_benchmark.c\<close>

fun bench_loop :: "int list \<Rightarrow> int \<times> int \<times> int \<Rightarrow> (int \<times> int \<times> int) option" where
  "bench_loop [] acc = Some acc"
| "bench_loop (l # ls) (min_latency, max_latency, total_latency) =
     (let min_latency = (if min_latency = - 1 \<or> l < min_latency then l else min_latency);
          max_latency = (if l > max_latency then l else max_latency)
      in do { total \<leftarrow> i64 (total_latency + l); bench_loop ls (min_latency, max_latency, total) })"

text \<open>The measurement loop: each pass takes a reading, works and takes a reading.\<close>

fun latencies :: "(timespec \<times> timespec) list \<Rightarrow> int list option" where
  "latencies [] = Some []"
| "latencies ((start, end) # rs) =
     do { l \<leftarrow> timespec_diff_ns start end; ls \<leftarrow> latencies rs; Some (l # ls) }"

definition NUM_ITERATIONS :: nat where "NUM_ITERATIONS = 1000"

definition jitter_benchmark :: "(timespec \<times> timespec) list \<Rightarrow> (int \<times> int \<times> int \<times> int) option" where
  "jitter_benchmark readings = do {
     ls \<leftarrow> latencies (take NUM_ITERATIONS readings);
     (mn, mx, tot) \<leftarrow> bench_loop ls (- 1, 0, 0);
     jitter \<leftarrow> i64 (mx - mn);
     Some (mn, mx, tot, jitter) }"

lemma bench_loop_run:
  assumes "\<forall>d \<in> set ds. 0 \<le> d \<and> d < 2 ^ 50" "0 \<le> sm" "sm + int (length ds) * 2 ^ 50 < 2 ^ 63" "0 \<le> mn"
  shows "bench_loop ds (mn, mx, sm) = Some (Min (insert mn (set ds)), Max (insert mx (set ds)), sm + sum_list ds)"
  using assms
proof (induction ds arbitrary: mn mx sm)
  case Nil
  then show ?case by simp
next
  case (Cons d ds)
  then have d: "0 \<le> d" "d < 2 ^ 50" by auto
  have "0 \<le> int (length ds) * 2 ^ 50" by simp
  moreover have le: "sm + d + int (length ds) * 2 ^ 50 < 2 ^ 63" using Cons.prems(3) d(2) by simp
  ultimately have "sm + d < 2 ^ 63" by linarith
  with Cons.prems(2) d have sum: "i64 (sm + d) = Some (sm + d)" by (simp add: c_arith)
  have "bench_loop (d # ds) (mn, mx, sm) = bench_loop ds (min d mn, max d mx, sm + d)"
    using sum Cons.prems(4) by (simp add: Let_def min_def max_def)
  also have "\<dots> = Some (Min (insert (min d mn) (set ds)), Max (insert (max d mx) (set ds)),
      sm + d + sum_list ds)"
    by (rule Cons.IH) (use Cons.prems d le in auto)
  finally show ?case by (simp add: Min_insert_min Max_insert_max)
qed

lemma bench_loop_correct:
  assumes "\<forall>d \<in> set ds. 0 \<le> d \<and> d < 2 ^ 50" "length ds \<le> 1000" "ds \<noteq> []"
  shows "bench_loop ds (- 1, 0, 0) = Some (Min (set ds), Max (set ds), sum_list ds)"
proof -
  obtain d es where ds: "ds = d # es" using assms(3) by (cases ds) auto
  with assms have d: "0 \<le> d" "d < 2 ^ 50" "\<forall>x \<in> set es. 0 \<le> x \<and> x < 2 ^ 50" by auto
  have "int (length es) * 2 ^ 50 \<le> 999 * 2 ^ 50" using assms(2) ds by simp
  then have "bench_loop es (d, d, d) = Some (Min (insert d (set es)), Max (insert d (set es)), d + sum_list es)"
    using d by (intro bench_loop_run) auto
  moreover have "bench_loop ds (- 1, 0, 0) = bench_loop es (d, d, d)"
    using d by (auto simp: ds Let_def c_arith)
  ultimately show ?thesis by (simp add: ds)
qed

lemma latencies_correct:
  "\<forall>(a, b) \<in> set rs. valid_ts a \<and> valid_ts b \<and> \<bar>tv_sec b - tv_sec a\<bar> < 9223372035 \<Longrightarrow>
   latencies rs = Some (map (\<lambda>(a, b). ns_of b - ns_of a) rs)"
  by (induction rs) (auto simp: timespec_diff_exact)

subsection \<open>calctime1.c\<close>

text \<open>The inner loop: it ends at the first reading that differs from the one before.\<close>

fun next_change :: "timespec \<Rightarrow> timespec list \<Rightarrow> timespec option" where
  "next_change prev [] = None"
| "next_change prev (now # rest) =
     (if tv_sec now = tv_sec prev \<and> tv_nsec now = tv_nsec prev then next_change prev rest else Some now)"

definition clock_delta :: "timespec \<Rightarrow> timespec \<Rightarrow> u64" where
  "clock_delta prev now =
     (of_int (tv_sec now) * of_int BILLION + of_int (tv_nsec now)) -
     (of_int (tv_sec prev) * of_int BILLION + of_int (tv_nsec prev))"

lemma clock_delta_of_int: "clock_delta prev now = of_int (ns_of now - ns_of prev)"
  by (simp add: clock_delta_def ns_of_def BILLION_def)

lemma int_clock_delta: "int (unat (clock_delta prev now)) = (ns_of now - ns_of prev) mod 2 ^ 64"
proof -
  have "int (unat (clock_delta prev now)) = uint (word_of_int (ns_of now - ns_of prev) :: u64)"
    by (simp only: clock_delta_of_int unat_eq_nat_uint) simp
  then show ?thesis by (simp only: uint_word_of_int) simp
qed

lemma mod_small_negative: "- (2 ^ 63) < x \<Longrightarrow> x < 0 \<Longrightarrow> 2 ^ 63 < x mod (2 ^ 64 :: int)"
proof -
  assume x: "- (2 ^ 63) < x" "x < 0"
  have "x mod 2 ^ 64 = (x + 2 ^ 64) mod 2 ^ 64" by simp
  also have "\<dots> = x + 2 ^ 64" by (rule mod_pos_pos_trivial) (use x in auto)
  finally show ?thesis using x by simp
qed

lemma timespec_eq_iff: "(a :: timespec) = b \<longleftrightarrow> tv_sec a = tv_sec b \<and> tv_nsec a = tv_nsec b"
  by (cases a; cases b) simp

lemma next_change_first:
  "next_change prev readings = Some now \<Longrightarrow>
   \<exists>n < length readings. readings ! n = now \<and> now \<noteq> prev \<and> (\<forall>i < n. readings ! i = prev)"
proof (induction prev readings rule: next_change.induct)
  case (2 prev r rest)
  show ?case
  proof (cases "r = prev")
    case True
    with 2 obtain n where "n < length rest" "rest ! n = now" "now \<noteq> prev" "\<forall>i < n. rest ! i = prev"
      by auto
    with True have "Suc n < length (r # rest) \<and> (r # rest) ! Suc n = now \<and> now \<noteq> prev \<and>
        (\<forall>i < Suc n. (r # rest) ! i = prev)"
      by (auto simp: less_Suc_eq_0_disj)
    then show ?thesis by blast
  next
    case False
    with "2.prems" have "now = r" by (simp add: timespec_eq_iff split: if_splits)
    with False show ?thesis by (intro exI [of _ 0]) simp
  qed
qed simp

lemma lateness_range:
  assumes "punctual t0 (with_reading env)" "i < length env"
  shows "0 \<le> ns_of (snd (env ! i)) - (t0 + (int i + 1) * period_ns) \<and>
    ns_of (snd (env ! i)) - (t0 + (int i + 1) * period_ns) < 2 ^ 50"
proof -
  have "reading (with_reading env ! i) = ns_of (snd (env ! i))" "i < length (with_reading env)"
    using assms(2) by (simp_all add: reading_def with_reading_def)
  with punctual_nth [OF assms(1), of i] show ?thesis by (auto simp: algebra_simps period_ns_def MILLION_def)
qed

subsection \<open>Properties\<close>

text \<open>
  The sampling of \<open>calctime2.c\<close> does not drift: under every pattern of late wakeups and
  interrupted sleeps, the deadline of sample \<open>i\<close> is \<open>i + 1\<close> periods of 2 ms after the first reading,
  the stored delta is the reading less the scheduled time one period before, and the program ends
  with the exact minimum, maximum and sum of the 5000 deltas, of which the first 100 are shown.
\<close>

lemma calctime2_no_drift:
  assumes "valid_ts ts" "0 \<le> tv_sec ts" "ns_of ts < 2 ^ 60" "t0 = ns_of ts"
    and "punctual t0 env" "length env = 5000" "rt \<noteq> None" "mt \<noteq> None"
    and "ds = map (\<lambda>i. reading (env ! i) - (t0 + int i * 2000000)) [0..<5000]"
  shows "calctime2_main rt mt (Some ts) env =
      Some (Inr \<lparr>rep_min = Min (set ds), rep_max = Max (set ds), rep_sum = sum_list ds,
                 rep_shown = take 100 ds, rep_deltas = ds\<rparr>) \<and>
    (\<forall>d \<in> set ds. 2000000 \<le> d) \<and>
    (\<exists>samples. sample_loop 5000 (t0 + period_ns) env = Some (Inr samples) \<and>
       map fst samples = map (\<lambda>i. ns_to_timespec (t0 + (int i + 1) * 2000000)) [0..<5000])"
proof -
  have pv: "period_ns = 2000000" by (simp add: period_ns_def MILLION_def)
  have t0: "0 \<le> t0" using assms(1,2,4) by (simp add: ns_of_def valid_ts_def)
  have start: "timespec_to_ns ts = Some t0"
    using assms(1-4) by (simp add: timespec_to_ns_Some)
  have next0: "i64 (t0 + period_ns) = Some (t0 + period_ns)"
    using assms(3,4) t0 by (simp add: c_arith pv)
  let ?f = "\<lambda>i. (ns_to_timespec (t0 + (int i + 1) * period_ns), reading (env ! i) - (t0 + int i * period_ns))"
  have loop: "sample_loop 5000 (t0 + period_ns) env = Some (Inr (map ?f [0..<5000]))"
    by (rule sample_loop_correct [OF assms(5,6) t0]) (use assms(3,4) in \<open>simp add: pv\<close>)
  have ds: "map snd (map ?f [0..<5000]) = ds" by (simp add: assms(9) pv comp_def del: upt_rec_numeral)
  have range: "\<forall>d \<in> set ds. 2000000 \<le> d \<and> d < 2 ^ 50"
  proof
    fix d assume "d \<in> set ds"
    then obtain i where "i < length env" "d = reading (env ! i) - (t0 + int i * period_ns)"
      by (auto simp: assms(6,9) pv simp del: upt_rec_numeral)
    with punctual_nth [OF assms(5), of i] show "2000000 \<le> d \<and> d < 2 ^ 50"
      by (auto simp: pv algebra_simps)
  qed
  have len: "length ds = 5000" by (simp add: assms(9) del: upt_rec_numeral)
  have st: "stats_loop ds (INT64_MAX, INT64_MIN, 0) = Some (Min (insert INT64_MAX (set ds)),
      Max (insert INT64_MIN (set ds)), 0 + sum_list ds)"
    by (rule stats_loop_correct) (use range len in auto)
  have ne: "set ds \<noteq> {}" using len by auto
  have "\<forall>d \<in> set ds. d \<le> INT64_MAX \<and> INT64_MIN \<le> d"
    using range by (auto simp: INT64_MAX_def INT64_MIN_def)
  moreover have "Min (set ds) \<in> set ds" "Max (set ds) \<in> set ds" using ne by simp_all
  ultimately have "Min (set ds) \<le> INT64_MAX" "INT64_MIN \<le> Max (set ds)" by blast+
  with ne have "Min (insert INT64_MAX (set ds)) = Min (set ds)" "Max (insert INT64_MIN (set ds)) = Max (set ds)"
    by (simp_all add: min_absorb2 max_absorb2)
  with st loop ds start next0 assms(7,8) have "calctime2_main rt mt (Some ts) env =
      Some (Inr \<lparr>rep_min = Min (set ds), rep_max = Max (set ds), rep_sum = sum_list ds, rep_shown = take 100 ds,
                 rep_deltas = ds\<rparr>)"
    unfolding calctime2_main_def NUM_SAMPLES_def by (simp del: map_map upt_rec_numeral)
  moreover have "map fst (map ?f [0..<5000]) = map (\<lambda>i. ns_to_timespec (t0 + (int i + 1) * 2000000)) [0..<5000]"
    by (simp add: pv comp_def del: upt_rec_numeral)
  ultimately show ?thesis using loop range by blast
qed

text \<open>
  The report of \<open>sched_fifo_jitter.c\<close>: with any \<open>qsort\<close> that keeps the standard's promise for
  \<open>compare_i64\<close>, the program prints the exact minimum, maximum and sum of the 5000 latencies, none
  of which is negative, and a 99th percentile with at most 49 latencies above it and at least 4951
  not above it.
\<close>

lemma sched_fifo_report:
  assumes "qsort_spec qsort" "valid_ts ts" "0 \<le> tv_sec ts" "ns_of ts < 2 ^ 60" "t0 = ns_of ts"
    and "punctual t0 (with_reading env)" "length env = 5000"
    and "ds = map (\<lambda>i. ns_of (snd (env ! i)) - (t0 + (int i + 1) * 2000000)) [0..<5000]"
  shows "\<exists>rep. sched_fifo_main qsort ts env = Some (Inr rep) \<and>
    jmin rep = Min (set ds) \<and> jmax rep = Max (set ds) \<and> jsum rep = sum_list ds \<and> 0 \<le> jmin rep \<and>
    length (filter (\<lambda>d. jp99 rep < d) ds) \<le> 49 \<and> 4951 \<le> length (filter (\<lambda>d. d \<le> jp99 rep) ds)"
proof -
  have pv: "period_ns = 2000000" by (simp add: period_ns_def MILLION_def)
  have t0: "0 \<le> t0" using assms(2,3,5) by (simp add: ns_of_def valid_ts_def)
  have start: "ts_to_ns ts = Some t0"
    using assms(2-5) by (simp add: same_conversions timespec_to_ns_Some)
  have next0: "i64 (t0 + period_ns) = Some (t0 + period_ns)"
    using assms(4,5) t0 by (simp add: c_arith pv)
  have loop: "fifo_loop 5000 (t0 + period_ns) env = Some (Inr ds)"
    using fifo_loop_correct [OF assms(6,7) t0] assms(4,5) unfolding assms(8) pv by simp
  have range: "\<forall>d \<in> set ds. 0 \<le> d \<and> d < 2 ^ 50"
    using lateness_range [OF assms(6)] assms(7) by (auto simp: assms(8) pv simp del: upt_rec_numeral)
  have len: "length ds = 5000" by (simp add: assms(8) del: upt_rec_numeral)
  let ?s = "qsort compare_i64 ds"
  from qsort_sorts [OF assms(1), of ds] have ms: "mset ?s = mset ds" and so: "sorted ?s" by auto
  have set: "set ?s = set ds" using ms by (metis set_mset_mset)
  have lens: "length ?s = 5000" using ms len by (metis size_mset)
  have sum: "sum_list ?s = sum_list ds" using ms by (metis sum_mset_sum_list)
  have "sum_loop ?s 0 = Some (0 + sum_list ?s)"
    by (rule sum_loop_correct) (use range set lens in auto)
  with loop start next0 sum have run: "sched_fifo_main qsort ts env =
      Some (Inr \<lparr>jmin = ?s ! 0, jmax = ?s ! 4999, jp99 = ?s ! 4950, jsum = sum_list ds\<rparr>)"
    by (simp add: sched_fifo_main_def Let_def)
  have ne: "?s \<noteq> []" using lens by auto
  have flt: "length (filter P ?s) = length (filter P ds)" for P
    using ms by (metis mset_filter size_mset)
  have above: "length (filter (\<lambda>d. ?s ! 4950 < d) ds) \<le> 49"
    using sorted_above [OF so, of 4950] lens by (simp add: flt)
  moreover have "length (filter (\<lambda>d. d \<le> ?s ! 4950) ds) + length (filter (\<lambda>d. ?s ! 4950 < d) ds) = 5000"
    using sum_length_filter_compl [of "\<lambda>d. d \<le> ?s ! 4950" ds] len by (simp add: not_le)
  ultimately have "4951 \<le> length (filter (\<lambda>d. d \<le> ?s ! 4950) ds)" by linarith
  moreover have "0 \<le> Min (set ds)" using range ne set by (metis Min_in List.finite_set set_empty)
  ultimately show ?thesis using run above sorted_ends [OF so ne] lens set by auto
qed

text \<open>
  The statistics of \<open>jitter_benchmark.c\<close> are exact although the minimum starts from the
  sentinel \<open>-1\<close>: for readings of a monotonic clock less than 13 days apart, the program reports the
  minimum, the maximum and the sum of the elapsed times and a jitter that is not negative.
\<close>

theorem jitter_benchmark_correct:
  assumes "length rs = 1000"
    and "\<forall>(a, b) \<in> set rs. valid_ts a \<and> valid_ts b \<and> ns_of a \<le> ns_of b \<and> ns_of b - ns_of a < 2 ^ 50 \<and>
      \<bar>tv_sec b - tv_sec a\<bar> < 9223372035"
    and "ls = map (\<lambda>(a, b). ns_of b - ns_of a) rs"
  shows "jitter_benchmark rs = Some (Min (set ls), Max (set ls), sum_list ls, Max (set ls) - Min (set ls)) \<and>
    0 \<le> Min (set ls) \<and> Min (set ls) \<le> Max (set ls)"
proof -
  have ls: "latencies (take NUM_ITERATIONS rs) = Some ls"
    using assms latencies_correct [of rs] by (auto simp: NUM_ITERATIONS_def)
  have range: "\<forall>d \<in> set ls. 0 \<le> d \<and> d < 2 ^ 50" using assms(2) by (auto simp: assms(3))
  have ne: "ls \<noteq> []" "length ls \<le> 1000" using assms(1) by (auto simp: assms(3))
  note run = bench_loop_correct [OF range ne(2,1)]
  have mm: "Min (set ls) \<in> set ls" "Max (set ls) \<in> set ls" using ne(1) by simp_all
  with range have "0 \<le> Min (set ls)" "Max (set ls) < 2 ^ 50" by auto
  moreover have "Min (set ls) \<le> Max (set ls)" using mm by simp
  ultimately show ?thesis using ls run by (simp add: jitter_benchmark_def c_arith)
qed

theorem jitter_benchmark_correct_witness:
  "jitter_benchmark (replicate 1000 (\<lparr>tv_sec = 1, tv_nsec = 999999999\<rparr>, \<lparr>tv_sec = 2, tv_nsec = 4\<rparr>)) =
     Some (5, 5, 5000, 0)"
proof -
  let ?r = "(\<lparr>tv_sec = 1, tv_nsec = 999999999\<rparr>, \<lparr>tv_sec = 2, tv_nsec = 4\<rparr>)"
  have set: "set (replicate 1000 ?r) = {?r}" "set (replicate 1000 (5::int)) = {5}"
    by (rule set_replicate; simp)+
  have map: "replicate 1000 5 = map (\<lambda>(a, b). ns_of b - ns_of a) (replicate 1000 ?r)"
    unfolding map_replicate by (simp only: ns_of_def prod.case timespec.simps) simp
  have "\<forall>(a, b) \<in> set (replicate 1000 ?r). valid_ts a \<and> valid_ts b \<and> ns_of a \<le> ns_of b \<and>
      ns_of b - ns_of a < 2 ^ 50 \<and> \<bar>tv_sec b - tv_sec a\<bar> < 9223372035"
    unfolding set by (simp add: valid_ts_def ns_of_def)
  from jitter_benchmark_correct [OF length_replicate this map] show ?thesis
    unfolding set by (simp only: Min_singleton Max_singleton sum_list_replicate) simp
qed

text \<open>
  \<open>calctime1.c\<close> measures one tick of the clock: the reading it ends on is the first that differs,
  and the unsigned difference it prints is the exact step, as long as the clock went forward; a
  clock that was set back gives a number above \<open>2 ^ 63\<close>.
\<close>

lemma calctime1_tick:
  assumes "next_change prev readings = Some now" "\<bar>ns_of now - ns_of prev\<bar> < 2 ^ 63"
  shows "(\<exists>n < length readings. readings ! n = now \<and> now \<noteq> prev \<and> (\<forall>i < n. readings ! i = prev)) \<and>
    (ns_of prev \<le> ns_of now \<longrightarrow> int (unat (clock_delta prev now)) = ns_of now - ns_of prev) \<and>
    (ns_of now < ns_of prev \<longrightarrow> 2 ^ 63 < int (unat (clock_delta prev now)))"
proof -
  let ?d = "ns_of now - ns_of prev"
  have "0 \<le> ?d \<Longrightarrow> ?d mod 2 ^ 64 = ?d" using assms(2) by (intro mod_pos_pos_trivial) auto
  moreover have "?d < 0 \<Longrightarrow> 2 ^ 63 < ?d mod 2 ^ 64"
    using assms(2) by (intro mod_small_negative) auto
  ultimately show ?thesis
    using next_change_first [OF assms(1)] unfolding int_clock_delta by simp
qed

end
