(* ===== verification/Traffic.thy ===== *)
theory Traffic
  imports CStrings "HOL-Library.Sublist"
begin

section \<open>The traffic light controller (task7)\<close>

text \<open>
  The states of \<open>common.h\<close>, the display, and the controller thread pass by pass. The controller's
  \<open>struct itimerspec\<close> is a local variable whose nanoseconds only one branch of the switch sets: what
  the other branch finds there is an argument of the pass. \<open>timer_settime\<close> refuses nanoseconds
  outside a second with \<open>EINVAL\<close>, the result is not looked at, and the wait for \<open>timer_expired\<close> then
  never ends.
\<close>

datatype TrafficState =
    STATE_INIT | STATE_NS_GREEN | STATE_NS_YELLOW | STATE_EW_GREEN | STATE_EW_YELLOW
  | STATE_ALL_RED | STATE_PED_CROSS | STATE_EMERGENCY

definition GREEN_DURATION :: int where "GREEN_DURATION = 10"

text \<open>The value of the enumeration constant.\<close>

primrec state_code :: "TrafficState \<Rightarrow> nat" where
  "state_code STATE_INIT = 0"
| "state_code STATE_NS_GREEN = 1"
| "state_code STATE_NS_YELLOW = 2"
| "state_code STATE_EW_GREEN = 3"
| "state_code STATE_EW_YELLOW = 4"
| "state_code STATE_ALL_RED = 5"
| "state_code STATE_PED_CROSS = 6"
| "state_code STATE_EMERGENCY = 7"

primrec lights_text :: "TrafficState \<Rightarrow> string" where
  "lights_text STATE_INIT = ''Unknown state''"
| "lights_text STATE_NS_GREEN = ''NS: GREEN,  EW: RED''"
| "lights_text STATE_NS_YELLOW = ''NS: YELLOW, EW: RED''"
| "lights_text STATE_EW_GREEN = ''NS: RED,    EW: GREEN''"
| "lights_text STATE_EW_YELLOW = ''NS: RED,    EW: YELLOW''"
| "lights_text STATE_ALL_RED = ''NS: RED,    EW: RED''"
| "lights_text STATE_PED_CROSS = ''NS: RED,    EW: RED  | WALK''"
| "lights_text STATE_EMERGENCY = ''EMERGENCY! NS: RED,    EW: RED''"

definition print_lights :: "TrafficState \<Rightarrow> string" where
  "print_lights s = ''State: '' @ show_nat (state_code s) @ '' | '' @ lights_text s @ [LF]"

text \<open>The switch: seconds and nanoseconds of the timer and the next state.\<close>

definition fsm_switch :: "int \<Rightarrow> TrafficState \<Rightarrow> int \<times> int \<times> TrafficState" where
  "fsm_switch junk s = (case s of
     STATE_NS_GREEN \<Rightarrow> (GREEN_DURATION, 0, STATE_NS_YELLOW)
   | _ \<Rightarrow> (1, junk, STATE_ALL_RED))"

definition timer_settime_ok :: "int \<Rightarrow> int \<Rightarrow> bool" where
  "timer_settime_ok sec nsec \<longleftrightarrow> 0 \<le> sec \<and> 0 \<le> nsec \<and> nsec < 1000000000"

text \<open>
  The controller thread: the lines it prints for the passes whose uninitialised values are given,
  and whether it hangs in the last of them.
\<close>

fun controller :: "int list \<Rightarrow> TrafficState \<Rightarrow> string list \<times> bool" where
  "controller [] next = ([], False)"
| "controller (junk # js) next =
     (let current = next;
          line = print_lights current;
          (sec, nsec, next') = fsm_switch junk current
      in if timer_settime_ok sec nsec
         then (let (ls, hangs) = controller js next' in (line # ls, hangs))
         else ([line], True))"

definition controller_thread_func :: "int list \<Rightarrow> string list \<times> bool" where
  "controller_thread_func junks = controller junks STATE_ALL_RED"

text \<open>
  The data shared with the thread for user input, and that thread, which main does not start: it
  takes characters and does nothing with them, also at the end of the input, where \<open>getchar\<close> no
  longer waits.
\<close>

record SharedData =
  current_state :: TrafficState
  ped_ns_request :: int
  ped_ew_request :: int
  emergency_request :: int

fun input_loop :: "char option list \<Rightarrow> SharedData \<Rightarrow> SharedData" where
  "input_loop [] d = d"
| "input_loop (c # cs) d = input_loop cs d"

definition input_thread_func :: "char option list \<Rightarrow> SharedData \<Rightarrow> string list \<times> SharedData" where
  "input_thread_func cs d = ([''Input keys: n (NS ped), e (EW ped), s (siren)'' @ [LF]], input_loop cs d)"

lemma input_ignored: "snd (input_thread_func cs d) = d"
  unfolding input_thread_func_def by (induction cs) auto

lemma controller_all_red:
  "controller js STATE_ALL_RED =
     (let n = length (takeWhile (timer_settime_ok 1) js)
      in if n < length js then (replicate (Suc n) (print_lights STATE_ALL_RED), True)
         else (replicate n (print_lights STATE_ALL_RED), False))"
  by (induction js) (auto simp: fsm_switch_def Let_def)

subsection \<open>Properties\<close>

text \<open>
  The controller never leaves the all-red state: every line it prints, over any number of
  passes, is the one of \<open>STATE_ALL_RED\<close>; it hangs in the first pass that finds nanoseconds outside
  a second in its uninitialised timer value, and runs on exactly when no pass does.
\<close>

theorem traffic_controller_stuck:
  "set (fst (controller_thread_func junks)) \<subseteq> {''State: 5 | NS: RED,    EW: RED'' @ [LF]} \<and>
   (snd (controller_thread_func junks) \<longleftrightarrow> (\<exists>j \<in> set junks. j < 0 \<or> 1000000000 \<le> j)) \<and>
   (snd (controller_thread_func junks) \<or> length (fst (controller_thread_func junks)) = length junks)"
proof -
  have line: "print_lights STATE_ALL_RED = ''State: 5 | NS: RED,    EW: RED'' @ [LF]"
    by (simp add: print_lights_def show_nat.simps)
  have iff: "length (takeWhile (timer_settime_ok 1) junks) < length junks \<longleftrightarrow>
      (\<exists>j \<in> set junks. j < 0 \<or> 1000000000 \<le> j)"
    by (induction junks) (auto simp: timer_settime_ok_def)
  have "\<not> length (takeWhile (timer_settime_ok 1) junks) < length junks \<Longrightarrow>
      length (takeWhile (timer_settime_ok 1) junks) = length junks"
    using length_takeWhile_le [of "timer_settime_ok 1" junks] by linarith
  with iff show ?thesis
    unfolding controller_thread_func_def controller_all_red line [symmetric] by (auto simp: Let_def)
qed

text \<open>
  The display is unambiguous and safe: different states print different lines, and in every
  state that names lights at least one direction is shown red.
\<close>

lemma traffic_display_safe:
  "(print_lights s = print_lights t \<longleftrightarrow> s = t) \<and>
   (sublist ''NS: RED'' (print_lights s) \<or> sublist ''EW: RED'' (print_lights s) \<or> s = STATE_INIT)"
proof
  show "print_lights s = print_lights t \<longleftrightarrow> s = t"
    by (cases s; cases t) (simp_all add: print_lights_def show_nat.simps)
  have "sublist ''NS: RED'' (lights_text s) \<or> sublist ''EW: RED'' (lights_text s) \<or> s = STATE_INIT"
    by (cases s) (simp_all add: sublist_Cons_right)
  moreover have "sublist (lights_text s) (print_lights s)"
    unfolding print_lights_def by (metis append.assoc sublist_appendI)
  ultimately show "sublist ''NS: RED'' (print_lights s) \<or> sublist ''EW: RED'' (print_lights s) \<or> s = STATE_INIT"
    by (meson sublist_order.order_trans)
qed

end
