(* ===== verification/Signals.thy ===== *)
theory Signals
  imports CStrings
begin

section \<open>Signal-driven programs (int.c, intsimple.c, alarm.c, hello.c)\<close>

text \<open>
  Programs whose behaviour is the interleaving of a main loop with signal handlers: \<open>int.c\<close> counts
  timer ticks, \<open>intsimple.c\<close> polls flags that handlers set. The handlers are atomic steps that may
  run between any two statements of main. At the end the two straight-line programs.
\<close>

subsection \<open>int.c\<close>

record ticker =
  tick_counter :: u32
  messages :: nat          \<comment> \<open>the lines \<open>100 events\<close> written by the handler\<close>
  ticks :: nat             \<comment> \<open>the number of signals delivered\<close>
  passes :: int            \<comment> \<open>the loop variable of main\<close>
  paused :: bool
  exited :: bool

definition on_alarm :: "ticker \<Rightarrow> ticker" where
  "on_alarm s =
     (let c = tick_counter s + 1
      in if c = 100 then s\<lparr>tick_counter := 0, messages := messages s + 1, ticks := ticks s + 1\<rparr>
         else s\<lparr>tick_counter := c, ticks := ticks s + 1\<rparr>)"

definition int_start :: ticker where
  "int_start = \<lparr>tick_counter = 0, messages = 0, ticks = 0, passes = 0, paused = False, exited = False\<rparr>"

text \<open>A tick in \<open>pause()\<close> also ends the pause and the pass; a tick elsewhere only counts.\<close>

inductive int_step :: "ticker \<Rightarrow> ticker \<Rightarrow> bool" where
  tick_in_pause: "\<not> exited s \<Longrightarrow> paused s \<Longrightarrow>
     int_step s ((on_alarm s)\<lparr>paused := False, passes := passes s + 1\<rparr>)"
| tick_elsewhere: "\<not> exited s \<Longrightarrow> \<not> paused s \<Longrightarrow> int_step s (on_alarm s)"
| pause: "\<not> exited s \<Longrightarrow> \<not> paused s \<Longrightarrow> passes s < 10 \<Longrightarrow> int_step s (s\<lparr>paused := True\<rparr>)"
| leave: "\<not> exited s \<Longrightarrow> \<not> paused s \<Longrightarrow> \<not> passes s < 10 \<Longrightarrow> int_step s (s\<lparr>exited := True\<rparr>)"

definition int_inv :: "ticker \<Rightarrow> bool" where
  "int_inv s \<longleftrightarrow> unat (tick_counter s) = ticks s mod 100 \<and> messages s = ticks s div 100 \<and>
     0 \<le> passes s \<and> passes s \<le> 10 \<and> nat (passes s) \<le> ticks s \<and> (paused s \<longrightarrow> passes s < 10) \<and>
     (exited s \<longrightarrow> passes s = 10)"

lemma on_alarm_counts:
  assumes "unat (tick_counter s) = ticks s mod 100" "messages s = ticks s div 100"
  shows "unat (tick_counter (on_alarm s)) = ticks (on_alarm s) mod 100 \<and>
    messages (on_alarm s) = ticks (on_alarm s) div 100 \<and> ticks (on_alarm s) = Suc (ticks s) \<and>
    passes (on_alarm s) = passes s \<and> paused (on_alarm s) = paused s \<and> exited (on_alarm s) = exited s"
proof -
  have "unat (tick_counter s) < 100" using assms(1) by simp
  then have u: "unat (tick_counter s + 1) = Suc (ticks s mod 100)"
    using assms(1) by (simp add: unat_word_ariths)
  have c: "tick_counter s + 1 = 100 \<longleftrightarrow> Suc (ticks s mod 100) = 100"
  proof -
    have "tick_counter s + 1 = 100 \<longleftrightarrow> unat (tick_counter s + 1) = unat (100 :: u32)"
      by (simp only: word_unat_eq_iff)
    then show ?thesis by (simp add: u)
  qed
  have "Suc (ticks s mod 100) = 100 \<Longrightarrow> Suc (ticks s) mod 100 = 0 \<and> Suc (ticks s) div 100 = Suc (ticks s div 100)"
    "Suc (ticks s mod 100) \<noteq> 100 \<Longrightarrow> Suc (ticks s) mod 100 = Suc (ticks s mod 100) \<and> Suc (ticks s) div 100 = ticks s div 100"
    by (simp_all add: mod_Suc div_Suc)
  with c u assms show ?thesis by (auto simp: on_alarm_def Let_def)
qed

interpretation int_run: inductive_invariant "\<lambda>s. s = int_start" int_step int_inv
proof unfold_locales
  show "int_inv s" if "s = int_start" for s
    using that by (simp add: int_inv_def int_start_def)
  show "int_inv t" if inv: "int_inv s" and st: "int_step s t" for s t
    using st
  proof cases
    case tick_in_pause
    with inv on_alarm_counts [of s] show ?thesis by (auto simp: int_inv_def nat_add_distrib)
  next
    case tick_elsewhere
    with inv on_alarm_counts [of s] show ?thesis by (auto simp: int_inv_def)
  qed (use inv in \<open>auto simp: int_inv_def\<close>)
qed

text \<open>Ten pauses, each ended by a tick.\<close>

fun int_rounds :: "nat \<Rightarrow> ticker \<Rightarrow> ticker" where
  "int_rounds 0 s = s"
| "int_rounds (Suc n) s =
     int_rounds n ((on_alarm (s\<lparr>paused := True\<rparr>))\<lparr>paused := False, passes := passes s + 1\<rparr>)"

lemma int_rounds_numeral: "int_rounds (numeral k) s = int_rounds (pred_numeral k)
    ((on_alarm (s\<lparr>paused := True\<rparr>))\<lparr>paused := False, passes := passes s + 1\<rparr>)"
  by (simp add: numeral_eq_Suc)

lemma int_rounds_run:
  "\<not> exited s \<Longrightarrow> \<not> paused s \<Longrightarrow> passes s + int n \<le> 10 \<Longrightarrow> int_step\<^sup>*\<^sup>* s (int_rounds n s)"
proof (induction n arbitrary: s)
  case 0
  then show ?case by simp
next
  case (Suc n)
  let ?p = "s\<lparr>paused := True\<rparr>"
  let ?t = "(on_alarm ?p)\<lparr>paused := False, passes := passes s + 1\<rparr>"
  have "int_step s ?p" using Suc.prems by (intro int_step.pause) auto
  moreover have "int_step ?p ?t" using int_step.tick_in_pause [of ?p] Suc.prems by simp
  moreover have "int_step\<^sup>*\<^sup>* ?t (int_rounds n ?t)"
    by (rule Suc.IH) (use Suc.prems in \<open>auto simp: on_alarm_def Let_def\<close>)
  ultimately show ?case by (simp add: converse_rtranclp_into_rtranclp)
qed

lemma int_ten_ticks:
  "\<exists>s. int_step\<^sup>*\<^sup>* int_start s \<and> exited s \<and> ticks s = 10 \<and> messages s = 0"
proof -
  let ?t = "int_rounds 10 int_start"
  have t: "?t = int_start\<lparr>tick_counter := 10, ticks := 10, passes := 10\<rparr>"
    by (simp add: int_rounds_numeral on_alarm_def int_start_def Let_def)
  have "int_step\<^sup>*\<^sup>* int_start ?t" by (rule int_rounds_run) (simp_all add: int_start_def)
  moreover have "int_step ?t (?t\<lparr>exited := True\<rparr>)"
    unfolding t by (rule int_step.leave) (simp_all add: int_start_def)
  ultimately have "int_step\<^sup>*\<^sup>* int_start (?t\<lparr>exited := True\<rparr>)" by (rule rtranclp.rtrancl_into_rtrancl)
  moreover have "exited (?t\<lparr>exited := True\<rparr>) \<and> ticks (?t\<lparr>exited := True\<rparr>) = 10 \<and>
      messages (?t\<lparr>exited := True\<rparr>) = 0"
    unfolding t by (simp add: int_start_def)
  ultimately show ?thesis by blast
qed

subsection \<open>intsimple.c\<close>

datatype signal_kind = SIGINT | SIGTERM | SIGUSR1 | SIGUSR2

text \<open>What one \<open>read(STDIN_FILENO, &ch, 1)\<close> gives: a byte, nothing (or \<open>EAGAIN\<close>), another error.\<close>

datatype key = Byte char | No_input | Read_error

datatype place = Test signal_kind | Clear signal_kind | Report signal_kind | Keyboard | Exited

record poller =
  flag :: "signal_kind \<Rightarrow> bool"
  sent :: "signal_kind \<Rightarrow> nat"     \<comment> \<open>the signals delivered\<close>
  place :: place
  reports :: "signal_kind list"
  shown :: "char list"

primrec after_flag :: "signal_kind \<Rightarrow> place" where
  "after_flag SIGINT = Test SIGTERM"
| "after_flag SIGTERM = Test SIGUSR1"
| "after_flag SIGUSR1 = Test SIGUSR2"
| "after_flag SIGUSR2 = Keyboard"

definition handle_signal :: "signal_kind \<Rightarrow> poller \<Rightarrow> poller" where
  "handle_signal k s = s\<lparr>flag := (flag s)(k := True), sent := (sent s)(k := Suc (sent s k))\<rparr>"

definition main_pass :: "key \<Rightarrow> poller \<Rightarrow> poller" where
  "main_pass inp s = (case place s of
     Test k \<Rightarrow> s\<lparr>place := (if flag s k then Clear k else after_flag k)\<rparr>
   | Clear k \<Rightarrow> s\<lparr>flag := (flag s)(k := False), place := Report k\<rparr>
   | Report k \<Rightarrow> s\<lparr>reports := reports s @ [k], place := after_flag k\<rparr>
   | Keyboard \<Rightarrow> (case inp of
        Byte ch \<Rightarrow>
          if ch = CHR ''q'' \<or> ch = CHR ''Q'' then s\<lparr>place := Exited\<rparr>
          else if ch = LF \<or> ch = CHR 0x0D then s\<lparr>place := Test SIGINT\<rparr>
          else s\<lparr>shown := shown s @ [ch], place := Test SIGINT\<rparr>
      | No_input \<Rightarrow> s\<lparr>place := Test SIGINT\<rparr>
      | Read_error \<Rightarrow> s\<lparr>place := Exited\<rparr>)
   | Exited \<Rightarrow> s)"

definition poller_start :: poller where
  "poller_start = \<lparr>flag = (\<lambda>_. False), sent = (\<lambda>_. 0), place = Test SIGINT, reports = [], shown = []\<rparr>"

inductive poll_step :: "poller \<Rightarrow> poller \<Rightarrow> bool" where
  deliver: "poll_step s (handle_signal k s)"
| main: "place s \<noteq> Exited \<Longrightarrow> poll_step s (main_pass inp s)"

definition pending :: "signal_kind \<Rightarrow> poller \<Rightarrow> nat" where
  "pending k s = (if flag s k then 1 else 0) + (if place s = Report k then 1 else 0)"

definition poll_inv :: "poller \<Rightarrow> bool" where
  "poll_inv s \<longleftrightarrow> (\<forall>k. count_list (reports s) k + pending k s \<le> sent s k \<and>
     (0 < sent s k \<longrightarrow> 0 < count_list (reports s) k + pending k s)) \<and>
     (\<forall>k. place s = Clear k \<longrightarrow> flag s k)"

lemma after_flag_simps [simp]: "after_flag k \<noteq> Report j" "after_flag k \<noteq> Clear j" "after_flag k \<noteq> Exited"
  by (cases k; simp)+

interpretation poll_run: inductive_invariant "\<lambda>s. s = poller_start" poll_step poll_inv
proof unfold_locales
  show "poll_inv s" if "s = poller_start" for s
    using that by (simp add: poll_inv_def poller_start_def pending_def)
  show "poll_inv t" if inv: "poll_inv s" and st: "poll_step s t" for s t
    using st
  proof cases
    case (deliver k)
    have q: "reports t = reports s" "place t = place s" "0 < pending k t"
      using deliver by (auto simp: handle_signal_def pending_def)
    have p: "pending j t \<le> pending j s + (if j = k then 1 else 0)"
      "sent t j = sent s j + (if j = k then 1 else 0)" "flag s j \<longrightarrow> flag t j"
      "j \<noteq> k \<longrightarrow> pending j t = pending j s" for j
      using deliver by (auto simp: handle_signal_def pending_def)
    have "count_list (reports t) j + pending j t \<le> sent t j \<and>
        (0 < sent t j \<longrightarrow> 0 < count_list (reports t) j + pending j t)" for j
    proof -
      have "count_list (reports s) j + pending j s \<le> sent s j"
        "0 < sent s j \<longrightarrow> 0 < count_list (reports s) j + pending j s"
        using inv by (auto simp: poll_inv_def)
      with p [of j] q show ?thesis by (cases "j = k") auto
    qed
    then show ?thesis using inv p(3) q(2) by (simp add: poll_inv_def)
  next
    case (main inp)
    show ?thesis
    proof (cases "place s")
      case (Test k)
      with inv main show ?thesis by (auto simp: poll_inv_def main_pass_def pending_def)
    next
      case (Clear k)
      with inv have f: "flag s k" by (simp add: poll_inv_def)
      have "pending j t = pending j s" for j
        using main Clear f by (auto simp: pending_def main_pass_def)
      with inv Clear main show ?thesis by (simp add: poll_inv_def main_pass_def)
    next
      case (Report k)
      have "count_list (reports t) j + pending j t = count_list (reports s) j + pending j s" for j
        using main Report by (auto simp: pending_def main_pass_def)
      moreover have "sent t = sent s" "place t \<noteq> Clear j" for j
        using main Report by (simp_all add: main_pass_def)
      ultimately show ?thesis using inv by (simp add: poll_inv_def)
    next
      case Keyboard
      then have "pending j t = pending j s" for j
        using main by (auto simp: pending_def main_pass_def split: key.splits if_splits)
      with inv Keyboard main show ?thesis
        by (auto simp: poll_inv_def main_pass_def split: key.splits if_splits)
    next
      case Exited
      with main show ?thesis by simp
    qed
  qed
qed

subsection \<open>alarm.c and hello.c\<close>

text \<open>
  \<open>alarm.c\<close>: the lines printed, given whether the signal of \<open>alarm(2)\<close> comes before the end of the
  program; its default action ends the process.
\<close>

definition alarm_main :: "bool \<Rightarrow> string list" where
  "alarm_main signal_arrives =
     [''alarm: Setting timer (alarm) for 2 seconds.'',
      ''alarm: Timer set. Now process will sleep for 5 seconds.''] @
     (if signal_arrives then [] else [''alarm: This line should not be executed!''])"

text \<open>\<open>hello.c\<close>: the first \<open>n\<close> lines, or the exit with failure without arguments.\<close>

definition hello_line :: "string list \<Rightarrow> nat \<Rightarrow> string" where
  "hello_line argv i = CHR ''#'' # show_nat i @ '': '' @ concat (map (\<lambda>a. a @ '' '') (tl argv)) @ [LF]"

definition hello_main :: "string list \<Rightarrow> nat \<Rightarrow> string list option" where
  "hello_main argv n = (if length argv = 1 then None else Some (map (hello_line argv) [0..<n]))"

subsection \<open>Properties\<close>

text \<open>
  The handler of \<open>int.c\<close> counts exactly: in every reachable state, wherever main is when a tick
  arrives, the counter is the number of ticks modulo 100 and one line was written per 100 ticks;
  main leaves its loop after at least ten ticks.
\<close>

lemma int_counts_ticks:
  assumes "int_step\<^sup>*\<^sup>* int_start s"
  shows "unat (tick_counter s) = ticks s mod 100 \<and> messages s = ticks s div 100 \<and>
    (exited s \<longrightarrow> 10 \<le> ticks s)"
proof -
  from assms have "int_inv s" using int_run.inv_run by blast
  then show ?thesis by (auto simp: int_inv_def)
qed

text \<open>
  \<open>int.c\<close> can end after ten ticks without having written a single line: each \<open>pause()\<close> returns
  after one tick, not after the hundred that the comment in main counts on.
\<close>

theorem int_exits_early:
  "\<exists>s. int_step\<^sup>*\<^sup>* int_start s \<and> exited s \<and> ticks s = 10 \<and> messages s = 0"
  by (rule int_ten_ticks)

text \<open>
  The signal flags of \<open>intsimple.c\<close> lose no kind of signal and invent none: in every reachable
  state, wherever signals fall between main's statements, the reports of a kind are never more than
  the signals of that kind, and once a signal of a kind has come, its flag is set or its report is
  printed or about to be.
\<close>

theorem intsimple_reports:
  assumes "poll_step\<^sup>*\<^sup>* poller_start s"
  shows "count_list (reports s) k \<le> sent s k \<and>
    (0 < sent s k \<longrightarrow> flag s k \<or> place s = Report k \<or> 0 < count_list (reports s) k)"
proof -
  from assms have inv: "poll_inv s" using poll_run.inv_run by blast
  then have "count_list (reports s) k + pending k s \<le> sent s k"
    "0 < sent s k \<longrightarrow> 0 < count_list (reports s) k + pending k s" by (auto simp: poll_inv_def)
  then show ?thesis by (auto simp: pending_def split: if_splits)
qed

theorem intsimple_reports_witness:
  "\<exists>s. poll_step\<^sup>*\<^sup>* poller_start s \<and> sent s SIGINT = 1 \<and>
     (flag s SIGINT \<or> place s = Report SIGINT \<or> 0 < count_list (reports s) SIGINT)"
proof -
  have "poll_step poller_start (handle_signal SIGINT poller_start)" by (rule poll_step.deliver)
  then have r: "poll_step\<^sup>*\<^sup>* poller_start (handle_signal SIGINT poller_start)" by blast
  have "sent (handle_signal SIGINT poller_start) SIGINT = 1"
    by (simp add: handle_signal_def poller_start_def)
  with intsimple_reports [OF r, of SIGINT] r show ?thesis by (intro exI conjI) auto
qed

end
