(* ===== verification/MsgQueue.thy ===== *)
theory MsgQueue
  imports CStrings "HOL-Library.Multiset"
begin

section \<open>POSIX message queues and the programs on them (task3, task2)\<close>

text \<open>
  A message queue as POSIX describes it: bounded in the number and the size of its messages, read
  by priority and within a priority in the order of arrival. The interface the programs rely on is
  a locale, interpreted on this model; on it stand the upper-casing server and its client, and the
  draining of a burst. Messages are byte strings that carry their own terminator.
\<close>

subsection \<open>The queue\<close>

datatype mq_error = EAGAIN | EMSGSIZE

type_synonym message = "nat \<times> string"

record mq =
  mq_maxmsg :: nat
  mq_msgsize :: nat
  mq_msgs :: "message list"

definition enqueue :: "message \<Rightarrow> message list \<Rightarrow> message list" where
  "enqueue m ms = takeWhile (\<lambda>x. fst m \<le> fst x) ms @ m # dropWhile (\<lambda>x. fst m \<le> fst x) ms"

text \<open>On a full or empty queue \<open>EAGAIN\<close>: a blocking descriptor waits there instead.\<close>

definition mq_send :: "mq \<Rightarrow> string \<Rightarrow> nat \<Rightarrow> mq_error + mq" where
  "mq_send q msg prio =
    (if mq_msgsize q < length msg then Inl EMSGSIZE
     else if mq_maxmsg q \<le> length (mq_msgs q) then Inl EAGAIN
     else Inr (q\<lparr>mq_msgs := enqueue (prio, msg) (mq_msgs q)\<rparr>))"

definition mq_receive :: "mq \<Rightarrow> nat \<Rightarrow> mq_error + (message \<times> mq)" where
  "mq_receive q len =
    (if len < mq_msgsize q then Inl EMSGSIZE
     else case mq_msgs q of [] \<Rightarrow> Inl EAGAIN | m # ms \<Rightarrow> Inr (m, q\<lparr>mq_msgs := ms\<rparr>))"

definition mq_create :: "nat \<Rightarrow> nat \<Rightarrow> mq" where
  "mq_create maxmsg msgsize = \<lparr>mq_maxmsg = maxmsg, mq_msgsize = msgsize, mq_msgs = []\<rparr>"

definition mq_ok :: "mq \<Rightarrow> bool" where
  "mq_ok q \<longleftrightarrow> length (mq_msgs q) \<le> mq_maxmsg q \<and> (\<forall>p s. (p, s) \<in> set (mq_msgs q) \<longrightarrow> length s \<le> mq_msgsize q) \<and>
     sorted_wrt (\<lambda>a b. fst b \<le> fst a) (mq_msgs q)"

lemma mset_enqueue: "mset (enqueue m ms) = mset (m # ms)"
  unfolding enqueue_def by (induction ms) auto

lemma length_enqueue [simp]: "length (enqueue m ms) = Suc (length ms)"
  using mset_enqueue [of m ms] by (metis length_Cons size_mset)

lemma set_enqueue [simp]: "set (enqueue m ms) = insert m (set ms)"
  using mset_enqueue [of m ms] by (metis list.simps(15) set_mset_mset)

lemma sorted_enqueue:
  "sorted_wrt (\<lambda>a b. fst b \<le> fst a) ms \<Longrightarrow> sorted_wrt (\<lambda>a b. fst b \<le> fst a) (enqueue m ms)"
proof (induction ms)
  case Nil
  then show ?case by (simp add: enqueue_def)
next
  case (Cons x ms)
  show ?case
  proof (cases "fst m \<le> fst x")
    case True
    then have "enqueue m (x # ms) = x # enqueue m ms" by (simp add: enqueue_def)
    with Cons True show ?thesis by simp
  next
    case False
    then have "enqueue m (x # ms) = m # x # ms" by (simp add: enqueue_def)
    with Cons.prems False show ?thesis by force
  qed
qed

lemma enqueue_lowest: "\<forall>x \<in> set ms. p \<le> fst x \<Longrightarrow> enqueue (p, m) ms = ms @ [(p, m)]"
  by (simp add: enqueue_def)

lemma mq_ok_create: "mq_ok (mq_create n k)"
  by (simp add: mq_ok_def mq_create_def)

lemma mq_ok_send: "mq_ok q \<Longrightarrow> mq_send q m p = Inr q' \<Longrightarrow> mq_ok q'"
  by (auto simp: mq_ok_def mq_send_def sorted_enqueue split: if_splits)

lemma mq_ok_receive: "mq_ok q \<Longrightarrow> mq_receive q len = Inr (m, q') \<Longrightarrow> mq_ok q'"
  by (cases "mq_msgs q") (auto simp: mq_ok_def mq_receive_def split: if_splits)

text \<open>
  The interface: \<open>items\<close> is what a queue holds in the order it will be read, \<open>put\<close> adds a message of
  the lowest priority in use, \<open>get\<close> takes the next one.
\<close>

locale message_queue =
  fixes put :: "'q \<Rightarrow> 'm \<Rightarrow> 'q option" and get :: "'q \<Rightarrow> ('m \<times> 'q) option"
    and items :: "'q \<Rightarrow> 'm list" and ok :: "'q \<Rightarrow> bool"
  assumes get_None: "ok q \<Longrightarrow> (get q = None) = (items q = [])"
    and get_Some: "ok q \<Longrightarrow> get q = Some (m, q') \<Longrightarrow> items q = m # items q' \<and> ok q'"
    and put_Some: "ok q \<Longrightarrow> put q m = Some q' \<Longrightarrow> items q' = items q @ [m] \<and> ok q'"
begin

fun take_all :: "nat \<Rightarrow> 'q \<Rightarrow> 'm list" where
  "take_all 0 q = []"
| "take_all (Suc n) q = (case get q of None \<Rightarrow> [] | Some (m, q') \<Rightarrow> m # take_all n q')"

lemma take_all_items: "ok q \<Longrightarrow> take_all n q = take n (items q)"
proof (induction n arbitrary: q)
  case (Suc n)
  show ?case
  proof (cases "get q")
    case None
    with get_None [OF Suc.prems] show ?thesis by simp
  next
    case (Some r)
    obtain m q' where r: "r = (m, q')" by force
    with get_Some [OF Suc.prems] Some have "items q = m # items q'" "ok q'" by auto
    with Suc.IH Some r show ?thesis by simp
  qed
qed simp

lemma put_get:
  assumes "ok q" "put q m = Some q'" "items q = []"
  shows "\<exists>q''. get q' = Some (m, q'') \<and> items q'' = [] \<and> ok q''"
proof -
  from put_Some [OF assms(1,2)] assms(3) have i: "items q' = [m]" "ok q'" by auto
  then obtain m' q'' where g: "get q' = Some (m', q'')" using get_None by fastforce
  with get_Some [OF i(2) g] i show ?thesis by auto
qed

end

text \<open>The model's queue at one priority, with the buffer size the programs give.\<close>

definition all_prio :: "nat \<Rightarrow> mq \<Rightarrow> bool" where
  "all_prio p q \<longleftrightarrow> (\<forall>p' s. (p', s) \<in> set (mq_msgs q) \<longrightarrow> p' = p)"

definition send_prio :: "nat \<Rightarrow> mq \<Rightarrow> string \<Rightarrow> mq option" where
  "send_prio p q m = (case mq_send q m p of Inl e \<Rightarrow> None | Inr q' \<Rightarrow> Some q')"

definition receive_full :: "mq \<Rightarrow> (string \<times> mq) option" where
  "receive_full q = (case mq_receive q (mq_msgsize q) of Inl e \<Rightarrow> None | Inr ((p, m), q') \<Rightarrow> Some (m, q'))"

definition texts :: "mq \<Rightarrow> string list" where
  "texts q = map snd (mq_msgs q)"

interpretation mqueue: message_queue "send_prio p" receive_full texts "\<lambda>q. mq_ok q \<and> all_prio p q" for p
proof unfold_locales
  show "receive_full q = None \<longleftrightarrow> texts q = []" for q
    by (auto simp: receive_full_def mq_receive_def texts_def split: list.splits)
  show "texts q = m # texts q' \<and> mq_ok q' \<and> all_prio p q'"
    if "mq_ok q \<and> all_prio p q" "receive_full q = Some (m, q')" for q m q'
    using that by (auto simp: receive_full_def mq_receive_def texts_def mq_ok_def all_prio_def split: list.splits)
      blast
  show "texts q' = texts q @ [m] \<and> mq_ok q' \<and> all_prio p q'"
    if "mq_ok q \<and> all_prio p q" "send_prio p q m = Some q'" for q m q'
  proof -
    from that(2) have s: "mq_send q m p = Inr q'" by (auto simp: send_prio_def split: sum.splits)
    moreover have "enqueue (p, m) (mq_msgs q) = mq_msgs q @ [(p, m)]"
      using that(1) by (intro enqueue_lowest) (auto simp: all_prio_def)
    ultimately show ?thesis
      using that(1) mq_ok_send [OF _ s] by (auto simp: mq_send_def texts_def all_prio_def split: if_splits)
        blast
  qed
qed

subsection \<open>The upper-casing server (posix_mq_server.c)\<close>

definition MAX_MSG_SIZE :: nat where "MAX_MSG_SIZE = 256"
definition MSG_PRIO_NORMAL :: nat where "MSG_PRIO_NORMAL = 1"
definition MSG_PRIO_HIGH :: nat where "MSG_PRIO_HIGH = 10"

text \<open>\<open>toupper\<close> in the C locale.\<close>

definition toupper :: "char \<Rightarrow> char" where
  "toupper c = (if 97 \<le> (of_char c :: nat) \<and> (of_char c :: nat) \<le> 122
                then char_of ((of_char c :: nat) - 32) else c)"

text \<open>The loop of \<open>to_upper\<close> over the buffer; \<^const>\<open>None\<close>: it runs past the end of the array.\<close>

function to_upper_from :: "nat \<Rightarrow> string \<Rightarrow> string option" where
  "to_upper_from i str =
     (if length str \<le> i then None
      else if str ! i = NUL then Some str
      else to_upper_from (Suc i) (str[i := toupper (str ! i)]))"
  by pat_completeness auto
termination by (relation "measure (\<lambda>(i, str). length str - i)") auto

declare to_upper_from.simps [simp del]

definition to_upper :: "string \<Rightarrow> string option" where
  "to_upper str = to_upper_from 0 str"

text \<open>
  One pass of the server's loop behind \<open>mq_receive\<close>: the message received, what the rest of the
  buffer held, and the client's queue if it can be opened. The result is the answer sent (if any)
  with the client's queue, or \<^const>\<open>None\<close> for an access outside the buffer.
\<close>

definition server_pass :: "string \<Rightarrow> string \<Rightarrow> mq option \<Rightarrow> (string option \<times> mq option) option" where
  "server_pass msg rest client =
    (let buffer = msg @ rest; bytes_read = length msg
     in if MAX_MSG_SIZE \<le> bytes_read then None
        else do {
          upper \<leftarrow> to_upper (buffer[bytes_read := NUL]);
          (case client of
             None \<Rightarrow> Some (None, None)
           | Some q \<Rightarrow>
              (let answer = c_str upper @ [NUL]
               in case mq_send q answer 0 of
                    Inl e \<Rightarrow> Some (None, Some q)
                  | Inr q' \<Rightarrow> Some (Some answer, Some q'))) })"

lemma toupper_NUL: "toupper c = NUL \<longleftrightarrow> c = NUL"
proof -
  have "char_of ((of_char c :: nat) - 32) \<noteq> NUL"
    if "97 \<le> (of_char c :: nat)" "(of_char c :: nat) \<le> 122"
  proof -
    have "take_bit 8 ((of_char c :: nat) - 32) = of_char c - 32"
      using that by (intro take_bit_nat_eq_self) simp
    with that show ?thesis by (simp add: char_of_eq_iff)
  qed
  then show ?thesis by (auto simp: toupper_def)
qed

lemma to_upper_from_correct:
  assumes "NUL \<notin> set ys" "i = length xs"
  shows "to_upper_from i (xs @ ys @ NUL # zs) = Some (xs @ map toupper ys @ NUL # zs)"
  using assms
proof (induction ys arbitrary: i xs)
  case Nil
  then show ?case by (subst to_upper_from.simps) simp
next
  case (Cons y ys)
  have "to_upper_from i (xs @ (y # ys) @ NUL # zs) =
      to_upper_from (Suc i) ((xs @ [toupper y]) @ ys @ NUL # zs)"
    using Cons.prems by (subst to_upper_from.simps) auto
  also have "\<dots> = Some ((xs @ [toupper y]) @ map toupper ys @ NUL # zs)"
    by (rule Cons.IH) (use Cons.prems in auto)
  finally show ?case by simp
qed

lemma to_upper_c_str:
  assumes "NUL \<in> set buf"
  shows "\<exists>buf'. to_upper buf = Some buf' \<and> c_str buf' = map toupper (c_str buf) \<and> length buf' = length buf"
proof -
  obtain ys zs where buf: "buf = ys @ NUL # zs" "NUL \<notin> set ys"
    using split_list_first [OF assms] by blast
  have "NUL \<notin> set (map toupper ys)"
  proof
    assume "NUL \<in> set (map toupper ys)"
    then obtain y where "y \<in> set ys" "toupper y = NUL" by (metis imageE list.set_map)
    with buf(2) show False by (simp add: toupper_NUL)
  qed
  with buf to_upper_from_correct [of ys 0 "[]"] show ?thesis
    by (simp add: to_upper_def c_str_append_NUL)
qed

lemma server_pass_answers:
  assumes "length msg < 256" "length msg + length rest = 256"
    "length (mq_msgs q) < mq_maxmsg q" "256 \<le> mq_msgsize q"
  shows "\<exists>q'. server_pass msg rest (Some q) = Some (Some (map toupper (c_str msg) @ [NUL]), Some q') \<and>
    mq_msgs q' = enqueue (0, map toupper (c_str msg) @ [NUL]) (mq_msgs q) \<and>
    mq_maxmsg q' = mq_maxmsg q \<and> mq_msgsize q' = mq_msgsize q"
proof -
  let ?buf = "(msg @ rest)[length msg := NUL]"
  obtain r rs where rest: "rest = r # rs" using assms by (cases rest) auto
  then have buf: "?buf = msg @ NUL # rs" by simp
  then obtain u where u: "to_upper ?buf = Some u" "c_str u = map toupper (c_str ?buf)"
    using to_upper_c_str [of ?buf] by auto
  have cs: "c_str ?buf = c_str msg"
    unfolding buf by (rule c_str_cut)
  have "length (c_str msg) < 256" using assms(1) length_c_str [of msg] by linarith
  then have "length (map toupper (c_str msg) @ [NUL]) \<le> mq_msgsize q" using assms(4) by simp
  then have "mq_send q (map toupper (c_str msg) @ [NUL]) 0 =
      Inr (q\<lparr>mq_msgs := enqueue (0, map toupper (c_str msg) @ [NUL]) (mq_msgs q)\<rparr>)"
    using assms(3) by (simp add: mq_send_def)
  with u cs assms(1) show ?thesis by (simp add: server_pass_def MAX_MSG_SIZE_def Let_def)
qed

subsection \<open>The client (posix_mq_client.c)\<close>

definition client_messages :: "(string \<times> nat) list" where
  "client_messages = [(''ordinary message 1'', MSG_PRIO_NORMAL), (''urgent message!'', MSG_PRIO_HIGH),
                      (''ordinary message 2'', MSG_PRIO_NORMAL)]"

text \<open>
  One pass of the client's loop with the server's pass in between: the client sends, the server
  receives and answers, the client receives. \<open>junk\<close> is what the server's buffer held before.
\<close>

definition exchange :: "string \<Rightarrow> string \<times> nat \<Rightarrow> mq \<Rightarrow> mq \<Rightarrow> (string \<times> mq \<times> mq) option" where
  "exchange junk m server client =
    (case mq_send server (fst m @ [NUL]) (snd m) of
       Inl e \<Rightarrow> None
     | Inr server1 \<Rightarrow>
        (case mq_receive server1 MAX_MSG_SIZE of
           Inl e \<Rightarrow> None
         | Inr ((prio, msg), server2) \<Rightarrow>
            (case server_pass msg (drop (length msg) junk) (Some client) of
               Some (Some answer, Some client1) \<Rightarrow>
                 (case mq_receive client1 MAX_MSG_SIZE of
                    Inl e \<Rightarrow> None
                  | Inr ((p, buffer), client2) \<Rightarrow> Some (c_str buffer, server2, client2))
             | _ \<Rightarrow> None)))"

fun exchanges :: "string \<Rightarrow> (string \<times> nat) list \<Rightarrow> mq \<Rightarrow> mq \<Rightarrow> string list option" where
  "exchanges junk [] server client = Some []"
| "exchanges junk (m # ms) server client = do {
     (a, server', client') \<leftarrow> exchange junk m server client;
     rest \<leftarrow> exchanges junk ms server' client';
     Some (a # rest) }"

definition start_queue :: mq where "start_queue = mq_create 10 MAX_MSG_SIZE"

lemma NUL_map_toupper: "NUL \<notin> set s \<Longrightarrow> NUL \<notin> set (map toupper s)"
proof
  assume "NUL \<notin> set s" "NUL \<in> set (map toupper s)"
  then obtain y where "y \<in> set s" "toupper y = NUL" by (metis imageE list.set_map)
  with \<open>NUL \<notin> set s\<close> show False by (simp add: toupper_NUL)
qed

lemma exchange_correct:
  assumes "NUL \<notin> set (fst m)" "length (fst m) < 255" "length junk = 256"
  shows "exchange junk m start_queue start_queue = Some (map toupper (fst m), start_queue, start_queue)"
proof -
  let ?msg = "fst m @ [NUL]" and ?ans = "map toupper (fst m) @ [NUL]"
  have len: "length ?msg < 256" "length ?msg + length (drop (length ?msg) junk) = 256"
    using assms(2,3) by simp_all
  have cs: "c_str ?msg = fst m" using assms(1) by (simp add: c_str_append_NUL)
  have space: "length (mq_msgs start_queue) < mq_maxmsg start_queue" "256 \<le> mq_msgsize start_queue"
    by (simp_all add: start_queue_def mq_create_def MAX_MSG_SIZE_def)
  from server_pass_answers [OF len space] obtain q' where
    sp: "server_pass ?msg (drop (length ?msg) junk) (Some start_queue) = Some (Some ?ans, Some q')"
    and q': "q' = start_queue\<lparr>mq_msgs := [(0, ?ans)]\<rparr>"
    unfolding cs by (auto simp: start_queue_def mq_create_def enqueue_def)
  have send: "mq_send start_queue ?msg (snd m) = Inr (start_queue\<lparr>mq_msgs := [(snd m, ?msg)]\<rparr>)"
    using assms(2) by (simp add: mq_send_def start_queue_def mq_create_def MAX_MSG_SIZE_def enqueue_def)
  have recv: "mq_receive (start_queue\<lparr>mq_msgs := [x]\<rparr>) MAX_MSG_SIZE = Inr (x, start_queue)" for x
    by (simp add: mq_receive_def start_queue_def mq_create_def)
  have ans: "c_str ?ans = map toupper (fst m)"
    using NUL_map_toupper [OF assms(1)] by (simp add: c_str_append_NUL)
  show ?thesis
    unfolding exchange_def send sum.case recv prod.case sp option.case q' ans by (rule refl)
qed

lemma exchanges_correct:
  assumes "\<forall>(s, p) \<in> set ms. NUL \<notin> set s \<and> length s < 255" "length junk = 256"
  shows "exchanges junk ms start_queue start_queue = Some (map (map toupper \<circ> fst) ms)"
  using assms by (induction ms) (auto simp: exchange_correct)

subsection \<open>Draining a burst (mq_clean_burst.c)\<close>

text \<open>
  The drain loop against the producer: \<open>Arrive\<close> is a message the producer sends meanwhile,
  \<open>Interrupted\<close> a receive that ends with \<open>EINTR\<close>, \<open>Poll\<close> a receive. The result is what was drained and
  the queue it left; \<^const>\<open>None\<close> when the events are used up before the queue was found empty.
\<close>

datatype burst_event = Arrive string | Interrupted | Poll

fun drain :: "burst_event list \<Rightarrow> mq \<Rightarrow> (string list \<times> mq) option" where
  "drain [] q = None"
| "drain (Arrive m # es) q = (case mq_send q m 0 of Inl e \<Rightarrow> drain es q | Inr q' \<Rightarrow> drain es q')"
| "drain (Interrupted # es) q = drain es q"
| "drain (Poll # es) q = (case mq_receive q 64 of
     Inl e \<Rightarrow> Some ([], q)
   | Inr ((p, m), q') \<Rightarrow> map_option (apfst (Cons m)) (drain es q'))"

fun arrivals :: "burst_event list \<Rightarrow> string list" where
  "arrivals [] = []"
| "arrivals (Arrive m # es) = m # arrivals es"
| "arrivals (e # es) = arrivals es"

definition burst_messages :: "string list" where
  "burst_messages = map (\<lambda>i. ''msg-'' @ show_nat i @ [NUL]) [0..<7]"

fun send_all :: "string list \<Rightarrow> mq \<Rightarrow> mq option" where
  "send_all [] q = Some q"
| "send_all (m # ms) q = (case mq_send q m 0 of Inl e \<Rightarrow> None | Inr q' \<Rightarrow> send_all ms q')"

text \<open>Main: the producer has sent \<open>n\<close> messages when the first is received; then the drain.\<close>

definition burst_main :: "nat \<Rightarrow> burst_event list \<Rightarrow> (string \<times> string list) option" where
  "burst_main n es = do {
     q \<leftarrow> send_all (take n burst_messages) (mq_create 32 64);
     (case mq_receive q 64 of
        Inl e \<Rightarrow> None
      | Inr ((p, first), q') \<Rightarrow> map_option (\<lambda>(ds, _). (first, ds)) (drain es q')) }"

definition room :: "mq \<Rightarrow> string list \<Rightarrow> bool" where
  "room q ms \<longleftrightarrow> mq_ok q \<and> all_prio 0 q \<and> mq_msgsize q = 64 \<and>
     length (mq_msgs q) + length ms \<le> mq_maxmsg q \<and> (\<forall>m \<in> set ms. length m \<le> 64)"

lemma room_send:
  assumes "room q (m # ms)"
  shows "\<exists>q'. mq_send q m 0 = Inr q' \<and> room q' ms \<and> texts q' = texts q @ [m]"
proof -
  obtain q' where s: "mq_send q m 0 = Inr q'" "length (mq_msgs q') = Suc (length (mq_msgs q))"
    "mq_maxmsg q' = mq_maxmsg q" "mq_msgsize q' = mq_msgsize q"
    using assms by (auto simp: room_def mq_send_def)
  then have "send_prio 0 q m = Some q'" by (simp add: send_prio_def)
  with mqueue.put_Some [of q 0 m q'] assms have "texts q' = texts q @ [m] \<and> mq_ok q' \<and> all_prio 0 q'"
    by (simp add: room_def)
  with s assms show ?thesis by (auto simp: room_def)
qed

lemma room_receive:
  assumes "room q ms" "mq_receive q 64 = Inr ((p, m), q')"
  shows "room q' ms \<and> texts q = m # texts q'"
proof -
  from assms have "receive_full q = Some (m, q')" by (simp add: receive_full_def room_def)
  with mqueue.get_Some [of q 0 m q'] assms(1) have "texts q = m # texts q' \<and> mq_ok q' \<and> all_prio 0 q'"
    by (simp add: room_def)
  moreover have "mq_msgsize q' = mq_msgsize q" "mq_maxmsg q' = mq_maxmsg q"
    "length (mq_msgs q) = Suc (length (mq_msgs q'))"
    using assms(2) by (auto simp: mq_receive_def split: if_splits list.splits)
  ultimately show ?thesis using assms(1) by (auto simp: room_def texts_def)
qed

lemma room_empty: "room q ms \<Longrightarrow> mq_receive q 64 = Inl e \<Longrightarrow> texts q = []"
  by (auto simp: mq_receive_def room_def texts_def split: list.splits)

lemma drain_conserves:
  assumes "room q (arrivals es)" "drain es q = Some (ds, q')"
  shows "texts q' = [] \<and> (\<exists>k. ds = texts q @ take k (arrivals es))"
  using assms
proof (induction es q arbitrary: ds rule: drain.induct)
  case (2 m es q)
  then have "room q (m # arrivals es)" by simp
  from room_send [OF this] obtain q1 where
    q1: "mq_send q m 0 = Inr q1" "room q1 (arrivals es)" "texts q1 = texts q @ [m]" by blast
  with "2.IH"(2) [OF q1(1,2)] "2.prems"(2) obtain k where
    "texts q' = []" "ds = texts q1 @ take k (arrivals es)" by auto
  then show ?case using q1(3) by (auto intro: exI [of _ "Suc k"])
next
  case (4 es q)
  show ?case
  proof (cases "mq_receive q 64")
    case (Inl e)
    with 4 room_empty [of q "arrivals es" e] show ?thesis by (auto intro: exI [of _ 0])
  next
    case (Inr r)
    obtain p m q1 where r: "r = ((p, m), q1)" by (metis prod.exhaust)
    with "4.prems"(2) Inr obtain ds1 where ds: "drain es q1 = Some (ds1, q')" "ds = m # ds1" by auto
    from room_receive [of q "arrivals es" p m q1] "4.prems"(1) Inr r have
      q1: "room q1 (arrivals es)" "texts q = m # texts q1" by auto
    from "4.IH" [OF Inr [unfolded r] refl refl q1(1) ds(1)] ds(2) q1(2) show ?thesis by auto
  qed
qed auto

lemma send_all_room:
  "room q (ms @ ns) \<Longrightarrow> \<exists>q'. send_all ms q = Some q' \<and> room q' ns \<and> texts q' = texts q @ ms"
proof (induction ms arbitrary: q)
  case Nil
  then show ?case by simp
next
  case (Cons m ms)
  then obtain q1 where "mq_send q m 0 = Inr q1" "room q1 (ms @ ns)" "texts q1 = texts q @ [m]"
    using room_send [of q m "ms @ ns"] by auto
  with Cons.IH [of q1] show ?case by auto
qed

lemma burst_facts: "length burst_messages = 7" "\<forall>m \<in> set burst_messages. length m \<le> 64"
proof -
  show "length burst_messages = 7" by (simp add: burst_messages_def)
  show "\<forall>m \<in> set burst_messages. length m \<le> 64"
  proof
    fix m assume "m \<in> set burst_messages"
    then obtain i where i: "i < 7" "m = ''msg-'' @ show_nat i @ [NUL]" by (auto simp: burst_messages_def)
    then have "length (show_nat i) \<le> 1" by (intro length_show_nat) auto
    with i show "length m \<le> 64" by simp
  qed
qed

lemma room_create: "length ms \<le> 32 \<Longrightarrow> \<forall>m \<in> set ms. length m \<le> 64 \<Longrightarrow> room (mq_create 32 64) ms"
  by (simp add: room_def mq_ok_create all_prio_def) (simp add: mq_create_def)

lemma burst_main_correct:
  assumes "0 < n" "n \<le> 7" "arrivals es = drop n burst_messages" "burst_main n es = Some (first, ds)"
  shows "first = hd burst_messages \<and> (\<exists>k. ds = take k (tl burst_messages) \<and> n - 1 \<le> length ds)"
proof -
  let ?ps = "burst_messages"
  have "room (mq_create 32 64) (take n ?ps @ drop n ?ps)"
    by (rule room_create) (simp_all add: burst_facts)
  from send_all_room [OF this] obtain q where q: "send_all (take n ?ps) (mq_create 32 64) = Some q"
    "room q (drop n ?ps)" "texts q = take n ?ps" by (auto simp: texts_def mq_create_def)
  from q(1) assms(4) obtain p q1 q2 where r: "mq_receive q 64 = Inr ((p, first), q1)"
    "drain es q1 = Some (ds, q2)"
    by (auto simp: burst_main_def split: sum.splits)
  from room_receive [OF q(2) r(1)] have q1: "room q1 (drop n ?ps)" "take n ?ps = first # texts q1"
    using q(3) by auto
  from drain_conserves [OF _ r(2)] q1(1) assms(3) obtain k where
    ds: "ds = texts q1 @ take k (drop n ?ps)" by auto
  have ps: "?ps = first # texts q1 @ drop n ?ps" using q1(2) by (metis append_Cons append_take_drop_id)
  have len: "length (texts q1) = n - 1"
    using q1(2) assms(2) burst_facts(1) by (metis diff_Suc_1 length_Cons length_take min.absorb2)
  have "ds = take (n - 1 + k) (texts q1 @ drop n ?ps)" using ds len by simp
  moreover have "tl ?ps = texts q1 @ drop n ?ps" "hd ?ps = first"
    using ps by (metis list.sel(3), metis list.sel(1))
  ultimately show ?thesis using ds len by (intro conjI exI [of _ "n - 1 + k"]) simp_all
qed

subsection \<open>Properties\<close>

text \<open>
  A message as long as the queue allows, 256 bytes, makes the server store its terminator one
  byte past the end of its buffer.
\<close>

theorem mq_server_overflow:
  assumes "length msg = 256"
  shows "server_pass msg [] client = None \<and>
    (\<exists>q. mq_send start_queue msg p = Inr q \<and> mq_receive q MAX_MSG_SIZE = Inr ((p, msg), start_queue))"
  using assms
  by (simp add: server_pass_def MAX_MSG_SIZE_def mq_send_def start_queue_def mq_create_def
      mq_receive_def enqueue_def)

theorem mq_server_overflow_witness:
  "server_pass (replicate 256 CHR ''a'') [] None = None"
  using mq_server_overflow [of "replicate 256 CHR ''a''" None] by (simp del: replicate_numeral)

text \<open>
  The round trip between client and server: for any session of texts of fewer than 255 bytes
  without a NUL, at any priorities, the client prints as its answers exactly the texts in upper
  case, in the order sent, and both queues are empty between the passes.
\<close>

theorem mq_session_roundtrip:
  assumes "\<forall>(s, p) \<in> set ms. NUL \<notin> set s \<and> length s < 255" "length junk = 256"
  shows "exchanges junk ms start_queue start_queue = Some (map (map toupper \<circ> fst) ms)"
  using assms by (rule exchanges_correct)

theorem mq_session_roundtrip_witness:
  "exchanges (replicate 256 NUL) client_messages start_queue start_queue =
     Some (map (map toupper \<circ> fst) client_messages)"
  by (rule mq_session_roundtrip) (simp_all add: client_messages_def)

text \<open>
  C28. Draining a burst: however the producer's seven sends fall between main's receives, and
  however often a receive is interrupted, main gets the messages in the order sent, the first one
  and then the drained ones without a gap, and every message sent before the first receive is
  among them.
\<close>

theorem burst_drained_in_order:
  assumes "0 < n" "n \<le> 7" "arrivals es = drop n burst_messages" "burst_main n es = Some (first, ds)"
  shows "first = hd burst_messages \<and> (\<exists>k. ds = take k (tl burst_messages) \<and> n - 1 \<le> length ds)"
  using assms by (rule burst_main_correct)

theorem burst_drained_in_order_witness:
  "\<exists>first ds k. burst_main 7 (replicate 7 Poll) = Some (first, ds) \<and> first = hd burst_messages \<and>
     ds = take k (tl burst_messages) \<and> 6 \<le> length ds"
proof -
  have "arrivals (replicate n Poll) = []" for n by (induction n) auto
  then have a: "arrivals (replicate 7 Poll) = drop 7 burst_messages" by (simp add: burst_facts)
  obtain first ds where r: "burst_main 7 (replicate 7 Poll) = Some (first, ds)"
    by (simp add: burst_main_def burst_messages_def mq_send_def mq_create_def enqueue_def mq_receive_def
        show_nat.simps replicate_numeral upt_rec)
  from burst_drained_in_order [OF _ _ a r] show ?thesis using r by auto
qed

end
