(* ===== verification/EpollServer.thy ===== *)
theory EpollServer
  imports CStrings "HOL-Library.Sublist"
begin

section \<open>The epoll echo server (epoll_server.c)\<close>

text \<open>
  The event loop with its clients. A client may connect, send and leave before it is accepted; its
  connection then waits in the backlog of the listening socket. Per connection the kernel keeps the
  bytes not yet read, what the peer has closed, and whether an edge-triggered event is still to be
  reported. \<open>epoll_wait\<close> hands out a batch of events, which the loop works off one by one, while
  the clients go on. \<open>server_step\<close> is one turn of that loop; its argument is what the system calls
  of the turn answer. The byte histories are kept to state what the server does with what it was sent.
\<close>

abbreviation MAX_EVENTS :: nat where "MAX_EVENTS \<equiv> 10"
abbreviation READ_BUFFER_SIZE :: nat where "READ_BUFFER_SIZE \<equiv> 256"

subsection \<open>Connections\<close>

text \<open>\<open>Half_closed\<close>: the peer sends no more but still reads; \<open>Gone\<close>: it has closed its socket.\<close>

datatype peer = Connected | Half_closed | Gone

record conn =
  unread :: string
  peer :: peer
  edge :: bool
  received :: string     \<comment> \<open>all bytes the peer has sent\<close>
  heard :: string        \<comment> \<open>all bytes the server has read\<close>
  echoed :: string       \<comment> \<open>all bytes the server has written back\<close>

definition new_conn :: conn where
  "new_conn = \<lparr>unread = [], peer = Connected, edge = False, received = [], heard = [], echoed = []\<rparr>"

definition readable :: "conn \<Rightarrow> bool" where
  "readable c \<longleftrightarrow> unread c \<noteq> [] \<or> peer c \<noteq> Connected"

definition peer_sends :: "string \<Rightarrow> conn \<Rightarrow> conn" where
  "peer_sends bytes c = c\<lparr>unread := unread c @ bytes, received := received c @ bytes\<rparr>"

definition closing :: "peer \<Rightarrow> peer \<Rightarrow> bool" where
  "closing p q \<longleftrightarrow> p = Connected \<and> q \<noteq> Connected \<or> p = Half_closed \<and> q = Gone"

text \<open>
  What \<open>read\<close> gives: bytes (none at the end of the stream), \<open>EAGAIN\<close>, or another error. A peer that
  closed its socket without reading all of its echo leaves a connection reset (\<open>reset\<close>).
\<close>

datatype read_result = Bytes string | Again | Failed

definition do_read :: "bool \<Rightarrow> conn \<Rightarrow> read_result \<times> conn" where
  "do_read reset c =
     (let bytes = take READ_BUFFER_SIZE (unread c)
      in if bytes \<noteq> [] then
           (Bytes bytes, c\<lparr>unread := drop READ_BUFFER_SIZE (unread c), heard := heard c @ bytes\<rparr>)
         else if peer c = Connected then (Again, c)
         else if peer c = Gone \<and> reset then (Failed, c)
         else (Bytes [], c))"

subsection \<open>The loop\<close>

datatype line =
    New_client nat | Internal_event nat | Disconnected nat | From_client nat string
  | Read_error | Accept_error | Wait_error | Ctl_error

text \<open>\<open>Overrun\<close>: a store behind the end of the buffer, with no promise for what follows; \<open>Killed\<close>: by
  \<open>SIGPIPE\<close>, which the program leaves at its default.\<close>

datatype process = Running | Exited nat | Killed | Overrun

text \<open>
  The branch for a client's event. The result is the connection, \<^const>\<open>None\<close> when it was closed,
  with what is printed and how the process stands; \<open>taken\<close> is how many bytes the socket takes of
  the echo.
\<close>

definition client_event :: "bool \<Rightarrow> nat \<Rightarrow> nat \<Rightarrow> conn \<Rightarrow> conn option \<times> line list \<times> process" where
  "client_event reset taken fd c =
     (case do_read reset c of
        (Failed, c') \<Rightarrow> (None, [Read_error], Running)
      | (Again, c') \<Rightarrow> (Some c', [], Running)
      | (Bytes bytes, c') \<Rightarrow>
          if bytes = [] then (None, [Disconnected fd], Running)
          else if READ_BUFFER_SIZE \<le> length bytes then (Some c', [], Overrun)
          else (let out = [From_client fd (c_str (bytes @ [NUL]))]
                in if peer c' = Gone then (Some c', out, Killed)
                   else (Some (c'\<lparr>echoed := echoed c' @ take taken bytes\<rparr>), out, Running)))"

datatype event = Listener | Internal | Client nat

record server =
  backlog :: "conn list"
  conns :: "nat \<Rightarrow> conn option"
  counter :: nat             \<comment> \<open>of the eventfd\<close>
  batch :: "event list"      \<comment> \<open>handed out by \<open>epoll_wait\<close> and not yet worked off\<close>
  proc :: process
  lines :: "line list"

definition loop_start :: server where
  "loop_start = \<lparr>backlog = [], conns = Map.empty, counter = 0, batch = [], proc = Running, lines = []\<rparr>"

text \<open>The listening socket and the eventfd are level-triggered, the clients edge-triggered.\<close>

definition is_ready :: "server \<Rightarrow> event \<Rightarrow> bool" where
  "is_ready s e = (case e of
     Listener \<Rightarrow> backlog s \<noteq> []
   | Internal \<Rightarrow> 0 < counter s
   | Client fd \<Rightarrow> (case conns s fd of None \<Rightarrow> False | Some c \<Rightarrow> edge c))"

definition report :: "event list \<Rightarrow> server \<Rightarrow> server" where
  "report evs s = s\<lparr>batch := evs,
     conns := (\<lambda>fd. if Client fd \<in> set evs then map_option (edge_update (\<lambda>_. False)) (conns s fd) else conns s fd)\<rparr>"

text \<open>
  The answers: the events \<open>epoll_wait\<close> reports or its failure; the descriptor of a new client, with
  the failure of registering it; the failure of \<open>accept4\<close>; for a client's event whether the
  connection was reset and how much of the echo is taken.
\<close>

datatype answer = Ready "event list" | Wait_failed | Accepted nat | Not_added nat | Accept_failed | Served bool nat

definition print :: "line list \<Rightarrow> server \<Rightarrow> server" where
  "print out s = s\<lparr>lines := lines s @ out\<rparr>"

text \<open>
  \<^const>\<open>None\<close>: the process has ended, \<open>epoll_wait\<close> has nothing to report, the answer does not belong
  to the call, or \<open>counter\<close> would be printed without having been read.
\<close>

definition server_step :: "answer \<Rightarrow> server \<Rightarrow> server option" where
  "server_step a s =
    (if proc s \<noteq> Running then None else case batch s of
       [] \<Rightarrow> (case a of
           Ready evs \<Rightarrow> if evs \<noteq> [] \<and> distinct evs \<and> length evs \<le> MAX_EVENTS \<and> list_all (is_ready s) evs
             then Some (report evs s) else None
         | Wait_failed \<Rightarrow> Some (print [Wait_error] (s\<lparr>proc := Exited 1\<rparr>))
         | _ \<Rightarrow> None)
     | Listener # es \<Rightarrow> (case backlog s of [] \<Rightarrow> None | c # cs \<Rightarrow> (case a of
           Accepted fd \<Rightarrow> if conns s fd = None
             then Some (print [New_client fd] (s\<lparr>backlog := cs, batch := es,
               conns := (conns s)(fd \<mapsto> c\<lparr>edge := readable c\<rparr>)\<rparr>)) else None
         | Not_added fd \<Rightarrow> if conns s fd = None
             then Some (print [Ctl_error] (s\<lparr>backlog := cs, proc := Exited 1\<rparr>)) else None
         | Accept_failed \<Rightarrow> Some (print [Accept_error] (s\<lparr>batch := es\<rparr>))
         | _ \<Rightarrow> None))
     | Internal # es \<Rightarrow>
         if counter s = 0 then None
         else Some (print [Internal_event (counter s)] (s\<lparr>counter := 0, batch := es\<rparr>))
     | Client fd # es \<Rightarrow> (case (a, conns s fd) of
           (Served reset taken, Some c) \<Rightarrow>
             (case client_event reset taken fd c of (c', out, p) \<Rightarrow>
                Some (print out (s\<lparr>conns := (conns s)(fd := c'), batch := es, proc := p\<rparr>)))
         | _ \<Rightarrow> None))"

text \<open>The server among its clients.\<close>

inductive loop_step :: "server \<Rightarrow> server \<Rightarrow> bool" where
  server: "server_step a s = Some t \<Longrightarrow> loop_step s t"
| connect: "proc s = Running \<Longrightarrow> loop_step s (s\<lparr>backlog := backlog s @ [new_conn]\<rparr>)"
| early_send: "proc s = Running \<Longrightarrow> i < length (backlog s) \<Longrightarrow> peer (backlog s ! i) = Connected \<Longrightarrow> bytes \<noteq> [] \<Longrightarrow>
     loop_step s (s\<lparr>backlog := (backlog s)[i := peer_sends bytes (backlog s ! i)]\<rparr>)"
| early_close: "proc s = Running \<Longrightarrow> i < length (backlog s) \<Longrightarrow> closing (peer (backlog s ! i)) p \<Longrightarrow>
     loop_step s (s\<lparr>backlog := (backlog s)[i := (backlog s ! i)\<lparr>peer := p\<rparr>]\<rparr>)"
| client_sends: "proc s = Running \<Longrightarrow> conns s fd = Some c \<Longrightarrow> peer c = Connected \<Longrightarrow> bytes \<noteq> [] \<Longrightarrow>
     loop_step s (s\<lparr>conns := (conns s)(fd \<mapsto> (peer_sends bytes c)\<lparr>edge := True\<rparr>)\<rparr>)"
| client_closes: "proc s = Running \<Longrightarrow> conns s fd = Some c \<Longrightarrow> closing (peer c) p \<Longrightarrow>
     loop_step s (s\<lparr>conns := (conns s)(fd \<mapsto> c\<lparr>peer := p, edge := True\<rparr>)\<rparr>)"
| notify: "proc s = Running \<Longrightarrow> 0 < n \<Longrightarrow> counter s + n < 2 ^ 64 - 1 \<Longrightarrow>
     loop_step s (s\<lparr>counter := counter s + n\<rparr>)"

subsection \<open>The invariant\<close>

text \<open>
  \<open>conn_inv\<close>: the histories fit together. \<open>due\<close>: what is to be read, or a peer that is gone, has an
  event that is due or already handed out.
\<close>

definition conn_inv :: "conn \<Rightarrow> bool" where
  "conn_inv c \<longleftrightarrow> heard c @ unread c = received c \<and> subseq (echoed c) (heard c)"

definition due :: "server \<Rightarrow> nat \<Rightarrow> bool" where
  "due s fd \<longleftrightarrow> is_ready s (Client fd) \<or> Client fd \<in> set (batch s)"

definition batch_inv :: "server \<Rightarrow> bool" where
  "batch_inv s \<longleftrightarrow> distinct (batch s) \<and> (Listener \<in> set (batch s) \<longrightarrow> backlog s \<noteq> []) \<and>
     (Internal \<in> set (batch s) \<longrightarrow> 0 < counter s) \<and> (\<forall>fd. Client fd \<in> set (batch s) \<longrightarrow> conns s fd \<noteq> None)"

definition loop_inv :: "server \<Rightarrow> bool" where
  "loop_inv s \<longleftrightarrow> finite (dom (conns s)) \<and> list_all conn_inv (backlog s) \<and>
     (\<forall>fd c. conns s fd = Some c \<longrightarrow> conn_inv c \<and>
        (proc s = Running \<longrightarrow> unread c \<noteq> [] \<or> peer c = Gone \<longrightarrow> due s fd)) \<and>
     (proc s = Running \<longrightarrow> batch_inv s)"

lemma print_simps [simp]:
  "backlog (print out s) = backlog s" "conns (print out s) = conns s" "counter (print out s) = counter s"
  "batch (print out s) = batch s" "proc (print out s) = proc s" "lines (print out s) = lines s @ out"
  by (simp_all add: print_def)

lemma is_ready_print [simp]: "is_ready (print out s) e = is_ready s e"
  by (simp add: is_ready_def split: event.splits)

lemma conn_inv_update [simp]: "conn_inv (c\<lparr>edge := e\<rparr>) = conn_inv c" "conn_inv (c\<lparr>peer := p\<rparr>) = conn_inv c"
  by (simp_all add: conn_inv_def)

lemma conn_inv_new [simp]: "conn_inv new_conn"
  by (simp add: conn_inv_def new_conn_def)

lemma conn_inv_sends [simp]: "conn_inv c \<Longrightarrow> conn_inv (peer_sends bytes c)"
  by (auto simp: conn_inv_def peer_sends_def)

text \<open>What a turn for a client's event does, branch by branch.\<close>

lemma client_event_cases:
  assumes "client_event reset taken fd c = (c', out, p)"
  obtains
    (again) "unread c = []" "peer c = Connected" "c' = Some c" "out = []" "p = Running"
  | (closed) "unread c = []" "peer c \<noteq> Connected" "c' = None" "p = Running" "out \<in> {[Read_error], [Disconnected fd]}"
  | (overrun) "256 \<le> length (unread c)" "p = Overrun" "out = []"
      "c' = Some (c\<lparr>unread := drop 256 (unread c), heard := heard c @ take 256 (unread c)\<rparr>)"
  | (killed) "0 < length (unread c)" "length (unread c) < 256" "peer c = Gone" "p = Killed"
      "c' = Some (c\<lparr>unread := [], heard := heard c @ unread c\<rparr>)" "out = [From_client fd (c_str (unread c @ [NUL]))]"
  | (echo) "0 < length (unread c)" "length (unread c) < 256" "peer c \<noteq> Gone" "p = Running"
      "c' = Some (c\<lparr>unread := [], heard := heard c @ unread c, echoed := echoed c @ take taken (unread c)\<rparr>)"
      "out = [From_client fd (c_str (unread c @ [NUL]))]"
proof (cases "unread c = []")
  case True
  with assms that(1,2) show ?thesis
    by (auto simp: client_event_def do_read_def Let_def split: if_splits)
next
  case False
  with assms that(3,4,5) show ?thesis
    by (cases "256 \<le> length (unread c)") (auto simp: client_event_def do_read_def Let_def split: if_splits)
qed

lemma subseq_take_append: "subseq xs ys \<Longrightarrow> subseq (xs @ take n zs) (ys @ zs)"
  by (metis append_take_drop_id list_emb_append_mono subseq_append subseq_order.refl prefix_imp_subseq take_is_prefix)

lemma client_event_inv:
  assumes "client_event reset taken fd c = (Some c', out, p)" "conn_inv c"
  shows "conn_inv c' \<and> edge c' = edge c \<and> (p = Running \<longrightarrow> unread c' = [] \<and> peer c' \<noteq> Gone)"
  using assms(1)
proof (cases rule: client_event_cases)
  case overrun
  with assms(2) show ?thesis
    by (simp add: conn_inv_def) (metis append.right_neutral append_take_drop_id subseq_take_append take0)
next
  case killed
  with assms(2) show ?thesis
    by (simp add: conn_inv_def) (metis append.right_neutral subseq_take_append take0)
next
  case echo
  have "subseq (echoed c @ take taken (unread c)) (heard c @ unread c)"
    using assms(2) by (intro subseq_take_append) (simp add: conn_inv_def)
  with echo assms(2) show ?thesis by (simp add: conn_inv_def)
qed (use assms(2) in simp_all)

subsection \<open>Every step keeps it\<close>

text \<open>A turn of the loop.\<close>

lemma report_inv:
  assumes "loop_inv s" "proc s = Running" "batch s = []" "distinct evs" "list_all (is_ready s) evs"
  shows "loop_inv (report evs s)"
proof -
  have dom: "dom (conns (report evs s)) = dom (conns s)"
    by (auto simp: report_def dom_def)
  have c: "conn_inv c \<and> (unread c \<noteq> [] \<or> peer c = Gone \<longrightarrow> due (report evs s) fd)"
    if "conns (report evs s) fd = Some c" for fd c
  proof (cases "Client fd \<in> set evs")
    case True
    with that assms(1) show ?thesis by (auto simp: loop_inv_def report_def due_def)
  next
    case False
    with that assms(1-3) show ?thesis
      by (auto simp: loop_inv_def report_def due_def is_ready_def split: option.splits)
  qed
  have "batch_inv (report evs s)"
    using assms(4,5) by (auto simp: batch_inv_def report_def list_all_iff is_ready_def split: option.splits)
  with dom c assms(1) show ?thesis by (auto simp: loop_inv_def report_def)
qed

lemma due_other: "due s fd \<Longrightarrow> conns t fd = conns s fd \<Longrightarrow> set (batch s) - {e} \<subseteq> set (batch t) \<Longrightarrow>
    e \<noteq> Client fd \<Longrightarrow> due t fd"
  by (auto simp: due_def is_ready_def)

lemma served_inv:
  assumes "loop_inv s" "proc s = Running" "batch s = Client fd # es" "conns s fd = Some c"
    and "client_event reset taken fd c = (c', out, p)"
  shows "loop_inv (s\<lparr>conns := (conns s)(fd := c'), batch := es, proc := p\<rparr>)" (is "loop_inv ?t")
proof -
  have c: "conn_inv c" using assms(1,4) by (simp add: loop_inv_def)
  have b: "batch_inv s" using assms(1,2) by (simp add: loop_inv_def)
  have conn: "conn_inv d \<and> (p = Running \<longrightarrow> unread d \<noteq> [] \<or> peer d = Gone \<longrightarrow> due ?t fd')"
    if "conns ?t fd' = Some d" for fd' d
  proof (cases "fd' = fd")
    case True
    with that assms(5) client_event_inv [OF _ c] show ?thesis by auto
  next
    case False
    then have "due s fd' \<Longrightarrow> due ?t fd'"
      by (rule_tac e = "Client fd" in due_other) (use assms(3) in auto)
    with False that assms(1,2) show ?thesis by (auto simp: loop_inv_def)
  qed
  have "batch_inv ?t" using b assms(3) by (auto simp: batch_inv_def)
  moreover have "finite (dom (conns ?t))" using assms(1) by (auto simp: loop_inv_def)
  ultimately show ?thesis using conn assms(1) by (auto simp: loop_inv_def)
qed

lemma accepted_inv:
  assumes "loop_inv s" "proc s = Running" "batch s = Listener # es" "backlog s = c # cs" "conns s fd = None"
  shows "loop_inv (s\<lparr>backlog := cs, batch := es, conns := (conns s)(fd \<mapsto> c\<lparr>edge := readable c\<rparr>)\<rparr>)" (is "loop_inv ?t")
proof -
  have conn: "conn_inv d \<and> (unread d \<noteq> [] \<or> peer d = Gone \<longrightarrow> due ?t fd')" if "conns ?t fd' = Some d" for fd' d
  proof (cases "fd' = fd")
    case True
    with that assms(1,4) show ?thesis by (auto simp: loop_inv_def due_def is_ready_def readable_def)
  next
    case False
    then have "due s fd' \<Longrightarrow> due ?t fd'"
      by (rule_tac e = Listener in due_other) (use assms(3) in auto)
    with False that assms(1,2) show ?thesis by (auto simp: loop_inv_def)
  qed
  have "batch_inv ?t" using assms by (auto simp: batch_inv_def loop_inv_def)
  with conn assms show ?thesis by (auto simp: loop_inv_def)
qed

lemma batch_inv_print [simp]: "batch_inv (print out s) = batch_inv s"
  by (simp add: batch_inv_def)

lemma loop_inv_print [simp]: "loop_inv (print out s) = loop_inv s"
  by (simp add: loop_inv_def due_def)

text \<open>A turn that leaves the connections alone.\<close>

lemma loop_inv_same_conns:
  assumes "loop_inv s" "conns t = conns s" "set (backlog t) \<subseteq> set (backlog s)"
    and "proc t = Running \<Longrightarrow> proc s = Running \<and> batch_inv t \<and> (\<forall>fd. Client fd \<in> set (batch s) \<longrightarrow> Client fd \<in> set (batch t))"
  shows "loop_inv t"
  using assms by (fastforce simp: loop_inv_def list_all_iff due_def is_ready_def)

lemma loop_turn_inv:
  assumes "loop_inv s" "server_step a s = Some t"
  shows "loop_inv t"
proof -
  have run: "proc s = Running" and b: "batch_inv s"
    using assms by (auto simp: server_step_def loop_inv_def split: if_splits)
  show ?thesis
  proof (cases "batch s")
    case Nil
    with assms run show ?thesis
      by (cases a) (auto simp: server_step_def intro: report_inv loop_inv_same_conns split: if_splits)
  next
    case (Cons e es)
    show ?thesis
    proof (cases e)
      case Listener
      then obtain c cs where bl: "backlog s = c # cs" using b Cons by (cases "backlog s") (auto simp: batch_inv_def)
      have "batch_inv (s\<lparr>batch := es\<rparr>)" using b Cons Listener by (auto simp: batch_inv_def)
      then have failed: "loop_inv (s\<lparr>batch := es\<rparr>)"
        using Cons Listener run by (intro loop_inv_same_conns [OF assms(1)]) auto
      have ended: "loop_inv (s\<lparr>backlog := cs, proc := Exited n\<rparr>)" for n
        using bl by (intro loop_inv_same_conns [OF assms(1)]) auto
      from assms(2) run Cons Listener bl show ?thesis
        by (cases a) (auto simp: server_step_def failed ended accepted_inv [OF assms(1) run] split: if_splits)
    next
      case Internal
      have "batch_inv (s\<lparr>counter := 0, batch := es\<rparr>)" using b Cons Internal by (auto simp: batch_inv_def)
      with assms run Cons Internal show ?thesis
        by (auto simp: server_step_def intro!: loop_inv_same_conns [OF assms(1)] split: if_splits)
    next
      case (Client fd)
      with assms run Cons show ?thesis
        by (auto simp: server_step_def intro: served_inv split: answer.splits option.splits prod.splits)
    qed
  qed
qed

text \<open>A client that sends or closes.\<close>

lemma loop_inv_backlog:
  assumes "loop_inv s" "list_all conn_inv cs" "cs = [] \<longrightarrow> backlog s = []"
  shows "loop_inv (s\<lparr>backlog := cs\<rparr>)"
  using assms by (auto simp: loop_inv_def due_def is_ready_def batch_inv_def)

lemma loop_inv_backlog_at:
  assumes "loop_inv s" "i < length (backlog s)" "conn_inv (backlog s ! i) \<Longrightarrow> conn_inv c"
  shows "loop_inv (s\<lparr>backlog := (backlog s)[i := c]\<rparr>)"
proof -
  have "list_all conn_inv (backlog s)" using assms(1) by (simp add: loop_inv_def)
  with assms(2,3) have "list_all conn_inv ((backlog s)[i := c])"
    by (auto simp: list_all_length nth_list_update)
  with assms(1) show ?thesis by (intro loop_inv_backlog) auto
qed

lemma loop_inv_conn:
  assumes "loop_inv s" "conns s fd = Some c" "conn_inv c \<Longrightarrow> conn_inv d"
  shows "loop_inv (s\<lparr>conns := (conns s)(fd \<mapsto> d\<lparr>edge := True\<rparr>)\<rparr>)"
  using assms by (auto simp: loop_inv_def due_def is_ready_def batch_inv_def)

interpretation loop_run: inductive_invariant "\<lambda>s. s = loop_start" loop_step loop_inv
proof unfold_locales
  show "loop_inv s" if "s = loop_start" for s
    using that by (simp add: loop_inv_def loop_start_def batch_inv_def)
  show "loop_inv t" if inv: "loop_inv s" and st: "loop_step s t" for s t
    using st
  proof cases
    case (server a)
    with inv show ?thesis by (rule_tac loop_turn_inv)
  next
    case connect
    have "list_all conn_inv (backlog s)" using inv by (simp add: loop_inv_def)
    with connect inv loop_inv_backlog [of s "backlog s @ [new_conn]"] show ?thesis by simp
  next
    case (early_send i bytes)
    with inv show ?thesis by (auto intro!: loop_inv_backlog_at)
  next
    case (early_close i p)
    with inv show ?thesis by (auto intro!: loop_inv_backlog_at)
  next
    case (client_sends fd c bytes)
    with inv show ?thesis by (auto intro!: loop_inv_conn)
  next
    case (client_closes fd c p)
    with inv loop_inv_conn [of s fd c "c\<lparr>peer := p\<rparr>"] show ?thesis by simp
  next
    case (notify n)
    with inv show ?thesis by (auto simp: loop_inv_def due_def is_ready_def batch_inv_def)
  qed
qed

subsection \<open>Runs\<close>

text \<open>Moves of the server and of its clients, for concrete runs.\<close>

datatype move = Srv answer | Connects | Sends nat string | Closes nat peer

fun move_step :: "move \<Rightarrow> server \<Rightarrow> server option" where
  "move_step (Srv a) s = server_step a s"
| "move_step Connects s = (if proc s = Running then Some (s\<lparr>backlog := backlog s @ [new_conn]\<rparr>) else None)"
| "move_step (Sends fd bytes) s = (case conns s fd of None \<Rightarrow> None | Some c \<Rightarrow>
     if proc s = Running \<and> peer c = Connected \<and> bytes \<noteq> []
     then Some (s\<lparr>conns := (conns s)(fd \<mapsto> (peer_sends bytes c)\<lparr>edge := True\<rparr>)\<rparr>) else None)"
| "move_step (Closes fd p) s = (case conns s fd of None \<Rightarrow> None | Some c \<Rightarrow>
     if proc s = Running \<and> closing (peer c) p
     then Some (s\<lparr>conns := (conns s)(fd \<mapsto> c\<lparr>peer := p, edge := True\<rparr>)\<rparr>) else None)"

lemma loop_move_sound: "move_step m s = Some t \<Longrightarrow> loop_step s t"
  by (cases m) (auto intro: loop_step.intros split: if_splits option.splits)

lemmas run_loop_simps = server_step_def client_event_def do_read_def Let_def report_def is_ready_def
  peer_sends_def closing_def readable_def new_conn_def loop_start_def print_def

text \<open>
  Two clients, 7 and 8; the first sends \<open>bytes\<close> and closes as \<open>p\<close> says before the server looks, the
  second sends \<open>other\<close>, which is not read yet.
\<close>

definition hasty :: "string \<Rightarrow> string \<Rightarrow> peer \<Rightarrow> move list" where
  "hasty bytes other p =
     [Connects, Connects, Srv (Ready [Listener]), Srv (Accepted 7), Srv (Ready [Listener]), Srv (Accepted 8),
      Sends 7 bytes, Closes 7 p, Sends 8 other, Srv (Ready [Client 7]), Srv (Served False 256)]"

lemma hasty_runs:
  assumes "0 < length bytes" "length bytes < 256" "other \<noteq> []" "p \<noteq> Connected"
  shows "\<exists>s. loop_step\<^sup>*\<^sup>* loop_start s \<and> proc s = (if p = Gone then Killed else Running) \<and> batch s = [] \<and>
    conns s 7 = Some \<lparr>unread = [], peer = p, edge = False, received = bytes, heard = bytes,
      echoed = (if p = Gone then [] else bytes)\<rparr> \<and>
    conns s 8 = Some \<lparr>unread = other, peer = Connected, edge = True, received = other, heard = [], echoed = []\<rparr>"
proof -
  obtain s where s: "run_script move_step (hasty bytes other p) loop_start = Some s"
    and t: "proc s = (if p = Gone then Killed else Running)" "batch s = []"
      "conns s 7 = Some \<lparr>unread = [], peer = p, edge = False, received = bytes, heard = bytes,
         echoed = (if p = Gone then [] else bytes)\<rparr>"
      "conns s 8 = Some \<lparr>unread = other, peer = Connected, edge = True, received = other, heard = [], echoed = []\<rparr>"
    using assms by (cases "p = Gone") (auto simp: hasty_def run_loop_simps)
  have "loop_step\<^sup>*\<^sup>* loop_start s" by (rule run_script_reachable [OF s]) (rule loop_move_sound)
  with t show ?thesis by blast
qed

text \<open>A connection whose end of stream has used up its event.\<close>

definition forgotten :: "nat \<Rightarrow> server \<Rightarrow> bool" where
  "forgotten fd s \<longleftrightarrow> Client fd \<notin> set (batch s) \<and>
     (\<exists>c. conns s fd = Some c \<and> peer c = Half_closed \<and> \<not> edge c)"

lemma forgotten_server: "server_step a s = Some t \<Longrightarrow> forgotten fd s \<Longrightarrow> forgotten fd t"
  by (auto simp: server_step_def forgotten_def report_def is_ready_def list_all_iff
    split: if_splits list.splits event.splits answer.splits option.splits prod.splits)

lemma forgotten_step:
  "loop_step s t \<Longrightarrow> \<forall>c. conns t fd = Some c \<longrightarrow> peer c \<noteq> Gone \<Longrightarrow> forgotten fd s \<Longrightarrow> forgotten fd t"
proof (erule loop_step.cases, goal_cases)
  case 1
  then show ?case using forgotten_server by blast
qed (auto simp: forgotten_def closing_def split: if_splits)

lemma forgotten_run:
  "(\<lambda>x y. loop_step x y \<and> (\<forall>c. conns y fd = Some c \<longrightarrow> peer c \<noteq> Gone))\<^sup>*\<^sup>* s t \<Longrightarrow> forgotten fd s \<Longrightarrow> forgotten fd t"
  by (induction rule: rtranclp_induct) (auto intro: forgotten_step)

lemma ended_step: "proc s \<noteq> Running \<Longrightarrow> \<not> loop_step s t"
  by (auto elim!: loop_step.cases simp: server_step_def)

subsection \<open>Properties\<close>

text \<open>
  C29. The server loses no byte: in every reachable state what it has read from a client, followed by
  what is still unread, is exactly what the client sent, and what it has echoed is part of what it
  has read, in the same order. While it runs, unread bytes and a client that is gone always have
  an event coming or handed out, although the client sockets are edge-triggered and read once per
  event.
\<close>

theorem epoll_no_byte_lost:
  assumes "loop_step\<^sup>*\<^sup>* loop_start s" "conns s fd = Some c"
  shows "heard c @ unread c = received c \<and> subseq (echoed c) (heard c) \<and>
    (proc s = Running \<longrightarrow> unread c \<noteq> [] \<or> peer c = Gone \<longrightarrow> edge c \<or> Client fd \<in> set (batch s))"
proof -
  from assms(1) have "loop_inv s" using loop_run.inv_run by blast
  with assms(2) show ?thesis by (auto simp: loop_inv_def conn_inv_def due_def is_ready_def)
qed

theorem epoll_no_byte_lost_witness:
  "\<exists>s c. loop_step\<^sup>*\<^sup>* loop_start s \<and> conns s 8 = Some c \<and> received c = ''hi'' \<and> heard c @ unread c = ''hi'' \<and>
     (edge c \<or> Client 8 \<in> set (batch s))"
proof -
  obtain s where s: "loop_step\<^sup>*\<^sup>* loop_start s" "proc s = Running"
    "conns s 8 = Some \<lparr>unread = ''hi'', peer = Connected, edge = True, received = ''hi'', heard = [], echoed = []\<rparr>"
    using hasty_runs [of "''x''" "''hi''" Half_closed] by auto
  with epoll_no_byte_lost [OF s(1,3)] show ?thesis by auto
qed

text \<open>
  A message of at least 256 bytes makes \<open>read\<close> fill the whole buffer, and the terminator is then
  stored behind its end; a shorter message of a client that is still there is read whole, printed up
  to its first NUL, echoed as far as the socket takes it, and leaves nothing unread.
\<close>

theorem epoll_buffer_overflow:
  "(snd (snd (client_event reset k fd c)) = Overrun \<longleftrightarrow> 256 \<le> length (unread c)) \<and>
   (unread c \<noteq> [] \<and> length (unread c) < 256 \<and> peer c \<noteq> Gone \<longrightarrow>
     (\<exists>c'. client_event reset k fd c = (Some c', [From_client fd (c_str (unread c))], Running) \<and>
      heard c' = heard c @ unread c \<and> echoed c' = echoed c @ take k (unread c) \<and> unread c' = []))"
proof -
  obtain c' out p where e: "client_event reset k fd c = (c', out, p)" by (rule prod_cases3)
  then show ?thesis by (cases rule: client_event_cases) (simp_all add: e c_str_cut)
qed

theorem epoll_buffer_overflow_witness:
  "\<exists>c'. fst (client_event False 5 7 (new_conn\<lparr>unread := ''hello''\<rparr>)) = Some c' \<and> echoed c' = ''hello''"
  using epoll_buffer_overflow [of False 5 7 "new_conn\<lparr>unread := ''hello''\<rparr>"] by (auto simp: new_conn_def)

text \<open>
  A client that has sent its last bytes and shut down its sending side is never seen to have done
  so, if both come before the server reads: the one event of the edge-triggered socket is spent on
  the bytes, and as long as the client keeps its socket, no later event leads the server to the end
  of the stream; the descriptor stays open.
\<close>

theorem epoll_missed_hang_up:
  assumes "bytes \<noteq> []" "length bytes < 256"
  shows "\<exists>s. loop_step\<^sup>*\<^sup>* loop_start s \<and> (\<exists>c. conns s 7 = Some c \<and> echoed c = bytes \<and> unread c = []) \<and>
    (\<forall>t. (\<lambda>x y. loop_step x y \<and> (\<forall>c. conns y 7 = Some c \<longrightarrow> peer c \<noteq> Gone))\<^sup>*\<^sup>* s t \<longrightarrow>
      (\<exists>c. conns t 7 = Some c \<and> peer c = Half_closed \<and> \<not> edge c))"
proof -
  obtain s where s: "loop_step\<^sup>*\<^sup>* loop_start s" "batch s = []"
    "conns s 7 = Some \<lparr>unread = [], peer = Half_closed, edge = False, received = bytes, heard = bytes, echoed = bytes\<rparr>"
    using hasty_runs [of bytes "''x''" Half_closed] assms by auto
  then have "forgotten 7 s" by (auto simp: forgotten_def)
  from forgotten_run [OF _ this] s(1,3) show ?thesis by (fastforce simp: forgotten_def)
qed

theorem epoll_missed_hang_up_witness:
  "\<exists>s. loop_step\<^sup>*\<^sup>* loop_start s \<and> (\<exists>c. conns s 7 = Some c \<and> echoed c = ''bye'')"
  using epoll_missed_hang_up [of "''bye''"] by auto

text \<open>
  A single client can end the server for all: if it closes its socket behind a message and before the
  server reads it, the echo meets a closed socket and \<open>SIGPIPE\<close> kills the process. In the state
  reached another client is connected whose message is never read.
\<close>

theorem epoll_client_kills_server:
  fixes bytes other :: string
  assumes "bytes \<noteq> []" "length bytes < 256" "other \<noteq> []"
  shows "\<exists>s c. loop_step\<^sup>*\<^sup>* loop_start s \<and> proc s = Killed \<and> conns s 8 = Some c \<and> peer c = Connected \<and>
    received c = other \<and> heard c = [] \<and> (\<forall>t. \<not> loop_step s t)"
proof -
  obtain s where "loop_step\<^sup>*\<^sup>* loop_start s" "proc s = Killed"
    "conns s 8 = Some \<lparr>unread = other, peer = Connected, edge = True, received = other, heard = [], echoed = []\<rparr>"
    using hasty_runs [of bytes other Gone] assms by auto
  with ended_step [of s] show ?thesis by fastforce
qed

theorem epoll_client_kills_server_witness:
  "\<exists>s c. loop_step\<^sup>*\<^sup>* loop_start s \<and> proc s = Killed \<and> conns s 8 = Some c \<and> received c = ''hi'' \<and> heard c = []"
  using epoll_client_kills_server [of "''bye''" "''hi''"] by auto

end
