(* ===== verification/IovDemo.thy ===== *)
theory IovDemo
  imports CMem CStrings Syscalls
begin

section \<open>Scatter and gather of a message (iov_demo.c)\<close>

text \<open>
  \<open>writev\<close> and \<open>readv\<close> over a pipe as gathering of byte strings and filling of buffers in order; the
  message as the program lays it out, on the little-endian target, with the type in network order.
\<close>

record message_t =
  msg_type :: u32
  msg_id :: u64
  payload :: "byte list"

text \<open>\<open>htonl\<close> on the little-endian target reverses the four bytes; \<open>ntohl\<close> is the same function.\<close>

definition htonl :: "u32 \<Rightarrow> u32" where
  "htonl w = of_bytes (rev (to_bytes 4 w))"

definition ntohl :: "u32 \<Rightarrow> u32" where
  "ntohl w = of_bytes (rev (to_bytes 4 w))"

text \<open>\<open>strncpy\<close> into an array of \<open>n\<close> bytes; \<open>strlen\<close> of an array, \<^const>\<open>None\<close> without a terminator.\<close>

definition strncpy :: "nat \<Rightarrow> byte list \<Rightarrow> byte list" where
  "strncpy n s = take n (s @ replicate n 0)"

definition strlen :: "byte list \<Rightarrow> nat option" where
  "strlen buf = (if 0 \<in> set buf then Some (length (takeWhile (\<lambda>b. b \<noteq> 0) buf)) else None)"

definition writev :: "byte list list \<Rightarrow> byte list" where
  "writev iov = concat iov"

text \<open>\<open>readv\<close> fills the buffers, given by their lengths, with what the pipe holds.\<close>

fun readv :: "nat list \<Rightarrow> byte list \<Rightarrow> byte list list" where
  "readv [] bytes = []"
| "readv (n # ns) bytes = take n bytes # readv ns (drop n bytes)"

text \<open>What a partial fill leaves of a buffer that was zero before.\<close>

definition over_zeros :: "nat \<Rightarrow> byte list \<Rightarrow> byte list" where
  "over_zeros n bs = bs @ replicate (n - length bs) 0"

definition msg_bytes :: "message_t \<Rightarrow> nat \<Rightarrow> byte list list" where
  "msg_bytes m plen = [to_bytes 4 (msg_type m), to_bytes 8 (msg_id m), take plen (payload m)]"

text \<open>
  The program for any type, id and text: the bytes \<open>writev\<close> counts and the message received, into a
  zeroed \<open>message_t\<close>, the payload's length taken from the message sent.
\<close>

definition iov_demo :: "u32 \<Rightarrow> u64 \<Rightarrow> byte list \<Rightarrow> (nat \<times> message_t) option" where
  "iov_demo ty mid text = (
     let sent = \<lparr>msg_type = htonl ty, msg_id = mid, payload = strncpy 20 text\<rparr>
     in do {
       len \<leftarrow> strlen (payload sent);
       let pipe = writev (msg_bytes sent len);
       (case readv [4, 8, len] pipe of
          [a, b, c] \<Rightarrow> Some (length pipe,
            \<lparr>msg_type = of_bytes (over_zeros 4 a), msg_id = of_bytes (over_zeros 8 b),
             payload = over_zeros 20 c\<rparr>)
        | _ \<Rightarrow> None) })"

definition check_passed :: "u32 \<Rightarrow> u64 \<Rightarrow> byte list \<Rightarrow> message_t \<Rightarrow> bool" where
  "check_passed ty mid text m \<longleftrightarrow> ntohl (msg_type m) = ty \<and> msg_id m = mid \<and>
     takeWhile (\<lambda>b. b \<noteq> 0) (payload m) = text"

text \<open>
  \<open>main\<close>: what \<open>pipe\<close> gives, whether \<open>writev\<close> and \<open>readv\<close> succeed. The message is the one of the
  program, \<open>Hello, IOV!\<close> with type 1.
\<close>

definition hello :: "byte list" where
  "hello = map (of_nat \<circ> of_char) ''Hello, IOV!''"

definition iov_main :: "(int \<times> int) option \<Rightarrow> bool \<Rightarrow> bool \<Rightarrow> (act list \<times> exit_status) option" where
  "iov_main pipe writes reads = (case pipe of
     None \<Rightarrow> Some ([Message ''pipe''], Some EXIT_FAILURE)
   | Some (r, w) \<Rightarrow>
      if \<not> writes then Some ([Opened r, Opened w, Message ''writev''], Some EXIT_FAILURE)
      else do {
        (n, m) \<leftarrow> iov_demo 1 9988776655443322 hello;
        let wrote = [Opened r, Opened w, Message (''writev() wrote '' @ show_nat n @ '' bytes.''), Closed w];
        (if \<not> reads then Some (wrote @ [Message ''readv''], Some EXIT_FAILURE)
         else Some (wrote @ [Message (''readv() read '' @ show_nat n @ '' bytes.''), Closed r,
               Message (if check_passed 1 9988776655443322 hello m then ''Check passed: data matches.''
                        else ''Check failed: data does not match.'')], Some EXIT_SUCCESS)) })"

lemma to_bytes_of_bytes_rev: "to_bytes 4 (of_bytes (rev (to_bytes 4 w)) :: u32) = rev (to_bytes 4 (w :: u32))"
proof (rule nth_equalityI)
  fix i assume "i < length (to_bytes 4 (of_bytes (rev (to_bytes 4 w)) :: u32))"
  then have i: "i < 4" by simp
  show "to_bytes 4 (of_bytes (rev (to_bytes 4 w)) :: u32) ! i = rev (to_bytes 4 w) ! i"
  proof (rule bit_word_eqI)
    fix k assume k: "k < LENGTH(8)"
    with i have "(8 * i + k) div 8 = i" "(8 * i + k) mod 8 = k" "8 * i + k < 32" by simp_all
    with i k show "bit (to_bytes 4 (of_bytes (rev (to_bytes 4 w)) :: u32) ! i) k = bit (rev (to_bytes 4 w) ! i) k"
      by (simp add: bit_to_bytes bit_of_bytes)
  qed
qed simp

lemma ntohl_htonl: "ntohl (htonl w) = w"
  unfolding ntohl_def htonl_def to_bytes_of_bytes_rev by (simp add: of_bytes_to_bytes)

lemma readv_writev:
  "map length bss = ns \<Longrightarrow> readv ns (concat bss) = bss"
  by (induction bss arbitrary: ns) auto

lemma takeWhile_nonzero: "0 \<notin> set t \<Longrightarrow> takeWhile (\<lambda>b. b \<noteq> (0 :: byte)) (t @ replicate n 0) = t"
proof -
  assume "0 \<notin> set t"
  then have "takeWhile (\<lambda>b. b \<noteq> 0) (t @ replicate n 0) = t @ takeWhile (\<lambda>b. b \<noteq> 0) (replicate n (0 :: byte))"
    by (intro takeWhile_append2) auto
  then show ?thesis by (cases n) simp_all
qed

lemma iov_demo_run:
  assumes "0 \<notin> set text" "length text < 20"
  shows "iov_demo ty mid text = Some (12 + length text,
    \<lparr>msg_type = htonl ty, msg_id = mid, payload = text @ replicate (20 - length text) 0\<rparr>)"
proof -
  have pay: "strncpy 20 text = text @ replicate (20 - length text) 0"
    using assms(2) by (simp add: strncpy_def)
  have len: "strlen (text @ replicate (20 - length text) 0) = Some (length text)"
    using assms takeWhile_nonzero [OF assms(1)] by (simp add: strlen_def)
  have "readv [4, 8, length text] (writev [to_bytes 4 (htonl ty), to_bytes 8 mid, text]) =
      [to_bytes 4 (htonl ty), to_bytes 8 mid, text]"
    unfolding writev_def by (rule readv_writev) simp
  moreover have "of_bytes (to_bytes 4 w) = w" for w :: u32 by (rule of_bytes_to_bytes) simp
  moreover have "of_bytes (to_bytes 8 mid) = mid" by (rule of_bytes_to_bytes) simp
  ultimately show ?thesis
    by (simp add: iov_demo_def pay len msg_bytes_def over_zeros_def) (simp add: writev_def)
qed

subsection \<open>Properties\<close>

text \<open>
  The message survives the pipe: for every type, id and text of fewer than 20 bytes without a
  zero, one gathering write followed by one scattering read with the same lengths gives back all
  three fields, the text terminated, and the program's check passes.
\<close>

theorem iov_roundtrip:
  assumes "0 \<notin> set text" "length text < 20"
  shows "\<exists>m. iov_demo ty mid text = Some (12 + length text, m) \<and> check_passed ty mid text m"
  using iov_demo_run [OF assms] takeWhile_nonzero [OF assms(1)]
  by (simp add: check_passed_def ntohl_htonl)

theorem iov_roundtrip_witness:
  "\<exists>m. iov_demo 1 9988776655443322 [72, 105, 33] = Some (15, m) \<and> check_passed 1 9988776655443322 [72, 105, 33] m"
  using iov_roundtrip [of "[72, 105, 33]" 1 9988776655443322] by simp

text \<open>
  The program as a whole: it passes its own check and closes both ends of the pipe exactly when all
  three system calls succeed; whatever fails, it says so and ends with \<open>EXIT_FAILURE\<close>.
\<close>

theorem iov_main_passes:
  "(iov_main pipe writes reads = Some (tr, Some EXIT_SUCCESS) \<longleftrightarrow>
      (\<exists>r w. pipe = Some (r, w) \<and> writes \<and> reads \<and>
         tr = [Opened r, Opened w, Message ''writev() wrote 23 bytes.'', Closed w,
               Message ''readv() read 23 bytes.'', Closed r, Message ''Check passed: data matches.''])) \<and>
   (\<exists>tr ex. iov_main pipe writes reads = Some (tr, Some ex) \<and>
      (ex = EXIT_FAILURE \<longleftrightarrow> pipe = None \<or> \<not> writes \<or> \<not> reads))"
proof -
  have h: "0 \<notin> set hello" "length hello = 11" by (simp_all add: hello_def)
  from iov_roundtrip [OF h(1), of 1 9988776655443322] h(2) obtain m where
    "iov_demo 1 9988776655443322 hello = Some (23, m)" "check_passed 1 9988776655443322 hello m" by auto
  moreover have "show_nat 23 = ''23''" by (simp add: show_nat.simps)
  ultimately show ?thesis by (cases pipe; cases writes; cases reads) (auto simp: iov_main_def Let_def)
qed

end
