(* ===== verification/Timeouts.thy ===== *)
theory Timeouts
  imports Clock MsgQueue Syscalls
begin

section \<open>Waiting with timeouts (task2: reptimer_timerfd, timeout_mq, timeout_condvar, timeout_poll, timeout_ppoll)\<close>

text \<open>
  The main functions of the timeout demonstrations, with the results of the system calls as
  arguments, and \<open>timeout_ppoll.c\<close> as a small transition system of the signal against the wait.
  \<^const>\<open>None\<close> as the result means still waiting with the results used up.
\<close>

subsection \<open>reptimer_timerfd.c\<close>

text \<open>The results of \<open>read(tfd, ...)\<close>: an expiration count, \<open>EINTR\<close>, or another error.\<close>

datatype timer_read = Expired u64 timespec | Timer_EINTR | Timer_error | Clock_error u64

definition iterations_to_run :: int where "iterations_to_run = 5"

text \<open>
  The loop from loop variable \<open>i\<close>; \<open>EINTR\<close> decrements it before the loop increments it. The lines are
  the time stamps with the counts; the flag says whether the loop ended normally.
\<close>

function timer_loop :: "int \<Rightarrow> timer_read list \<Rightarrow> ((timespec \<times> u64) list \<times> bool) option" where
  "timer_loop i rs =
     (if i < iterations_to_run then
        (case rs of
           [] \<Rightarrow> None
         | Timer_EINTR # rs' \<Rightarrow> timer_loop (i - 1 + 1) rs'
         | Timer_error # rs' \<Rightarrow> Some ([], False)
         | Clock_error n # rs' \<Rightarrow> Some ([], False)
         | Expired n now # rs' \<Rightarrow> map_option (apfst (Cons (now, n))) (timer_loop (i + 1) rs'))
      else Some ([], True))"
  by pat_completeness auto
termination by (relation "measure (\<lambda>(i, rs). length rs)") auto

declare timer_loop.simps [simp del]

definition reptimer_main :: "int option \<Rightarrow> bool \<Rightarrow> timer_read list \<Rightarrow> act list \<times> exit_status" where
  "reptimer_main tfd settime_ok rs = (case tfd of
     None \<Rightarrow> ([Message ''timerfd_create failed''], Some EXIT_FAILURE)
   | Some fd \<Rightarrow>
      if \<not> settime_ok then ([Opened fd, Message ''timerfd_settime failed'', Closed fd], Some EXIT_FAILURE)
      else (case timer_loop 0 rs of
          None \<Rightarrow> ([Opened fd], None)
        | Some (lines, normal) \<Rightarrow>
            ([Opened fd] @ map (\<lambda>_. Message ''Timer expired!'') lines @
             (if normal then [Closed fd] else [Message ''failed'', Closed fd]),
             Some (if normal then EXIT_SUCCESS else EXIT_FAILURE))))"

definition expirations :: "timer_read list \<Rightarrow> (timespec \<times> u64) list" where
  "expirations rs = concat (map (\<lambda>r. case r of Expired n now \<Rightarrow> [(now, n)] | _ \<Rightarrow> []) rs)"

lemma expirations_simps [simp]:
  "expirations [] = []" "expirations (Expired n now # rs) = (now, n) # expirations rs"
  "expirations (Timer_EINTR # rs) = expirations rs"
  by (simp_all add: expirations_def)

lemma timer_loop_normal:
  "timer_loop i rs = Some (lines, True) \<Longrightarrow> i \<le> 5 \<Longrightarrow>
   lines = take (nat (5 - i)) (expirations rs) \<and> length lines = nat (5 - i)"
proof (induction i rs arbitrary: lines rule: timer_loop.induct)
  case (1 i rs)
  show ?case
  proof (cases "i < 5")
    case False
    with "1.prems" show ?thesis by (subst (asm) timer_loop.simps) (simp add: iterations_to_run_def)
  next
    case True
    then have lt: "i < iterations_to_run" by (simp add: iterations_to_run_def)
    show ?thesis
    proof (cases rs)
      case Nil
      with "1.prems" lt show ?thesis by (subst (asm) timer_loop.simps) simp
    next
      case (Cons r rs')
      show ?thesis
      proof (cases r)
        case (Expired n now)
        with "1.prems"(1) lt Cons obtain ls where ls: "timer_loop (i + 1) rs' = Some (ls, True)"
          "lines = (now, n) # ls" by (subst (asm) timer_loop.simps) auto
        have "ls = take (nat (5 - (i + 1))) (expirations rs') \<and> length ls = nat (5 - (i + 1))"
          by (rule "1.IH"(1) [OF lt Cons Expired ls(1)]) (use True in simp)
        moreover have "nat (5 - i) = Suc (nat (5 - (i + 1)))" using True by simp
        ultimately show ?thesis using ls(2) Cons Expired by (auto simp del: length_take)
      next
        case Timer_EINTR
        with "1.prems"(1) lt Cons have "timer_loop (i - 1 + 1) rs' = Some (lines, True)"
          by (subst (asm) timer_loop.simps) simp
        from "1.IH"(2) [OF lt Cons Timer_EINTR this] True Cons Timer_EINTR show ?thesis
          by (auto simp del: length_take)
      qed (use "1.prems"(1) lt Cons in \<open>subst (asm) timer_loop.simps, simp\<close>)+
    qed
  qed
qed

lemma open_fds_messages [simp]: "open_fds (map (\<lambda>_. Message m) xs) S = S"
  by (induction xs) auto

lemma closes_open_messages [simp]: "closes_open (map (\<lambda>_. Message m) xs) S"
  by (induction xs) auto

subsection \<open>timeout_condvar.c\<close>

definition ETIMEDOUT :: int where "ETIMEDOUT = 110"

text \<open>
  The wait loop of the second scenario; every \<open>pthread_cond_timedwait\<close> gives its result and whether
  \<open>event_ready\<close> is set when it returns.
\<close>

fun condvar_wait :: "(bool \<times> int) list \<Rightarrow> bool \<Rightarrow> int \<Rightarrow> (nat \<times> bool \<times> int) option" where
  "condvar_wait waits event_ready rc =
     (if \<not> event_ready \<and> rc \<noteq> ETIMEDOUT then
        (case waits of [] \<Rightarrow> None
         | (ready', rc') # rest \<Rightarrow> map_option (apfst Suc) (condvar_wait rest ready' rc'))
      else Some (0, event_ready, rc))"

declare condvar_wait.simps [simp del]

definition timeout_condvar_main ::
  "int \<Rightarrow> bool \<Rightarrow> bool \<Rightarrow> (bool \<times> int) list \<Rightarrow> (string list \<times> exit_status)" where
  "timeout_condvar_main rc1 created ready waits =
    (let line1 = (if rc1 = ETIMEDOUT then ''Timed out as expected.'' else ''Unexpected success or error'')
     in if \<not> created then ([line1, ''pthread_create failed''], Some EXIT_FAILURE)
        else (case condvar_wait waits ready rc1 of
            None \<Rightarrow> ([line1], None)
          | Some (n, event_ready, rc) \<Rightarrow>
             ([line1, if event_ready then ''Condition was signaled successfully.''
                      else if rc = ETIMEDOUT then ''Unexpected timeout.''
                      else ''Error during wait''], Some 0)))"

lemma condvar_wait_result:
  "condvar_wait waits ready rc = Some (n, r, rc') \<Longrightarrow> r \<or> rc' = ETIMEDOUT"
proof (induction waits arbitrary: ready rc n)
  case Nil
  then show ?case by (subst (asm) condvar_wait.simps) (auto split: if_splits)
next
  case (Cons w ws)
  then show ?case
    by (cases w) (subst (asm) (2) condvar_wait.simps, auto split: if_splits)
qed

subsection \<open>timeout_mq.c\<close>

definition QNAME :: string where "QNAME = ''/rt_timeout_demo_mq''"

text \<open>
  What \<open>mq_timedreceive\<close> gives: a message, \<open>ETIMEDOUT\<close> or another error. \<open>arrival\<close> is what the sender
  sends and when; it is received if the queue takes it and it is there by the deadline.
\<close>

datatype received = Got string | Late | Refused

definition timed_receive :: "mq \<Rightarrow> nat \<Rightarrow> (int \<times> string) option \<Rightarrow> timespec \<Rightarrow> received \<times> mq" where
  "timed_receive q len arrival deadline =
    (case mq_receive q len of
       Inr ((p, m), q') \<Rightarrow> (Got m, q')
     | Inl EMSGSIZE \<Rightarrow> (Refused, q)
     | Inl _ \<Rightarrow> (case arrival of
          None \<Rightarrow> (Late, q)
        | Some (t, m) \<Rightarrow> if t \<le> ns_of deadline \<and> \<not> isl (mq_send q m 0) then (Got m, q) else (Late, q)))"

text \<open>
  Main, over the queue behind the name (an old one if it is left from an earlier run), with the
  descriptor \<open>mq_open\<close> gives, the clock readings before each wait, and when the sender sends.
\<close>

definition timeout_mq_main ::
  "int option \<Rightarrow> mq \<Rightarrow> bool \<Rightarrow> timespec \<Rightarrow> timespec \<Rightarrow> int \<Rightarrow> (act list \<times> exit_status) option" where
  "timeout_mq_main mqd q created clock1 clock2 sent_at = (case mqd of
     None \<Rightarrow> Some ([Message ''mq_open failed''], Some EXIT_FAILURE)
   | Some fd \<Rightarrow> do {
       ts1 \<leftarrow> abs_time_after_ms clock1 100;
       let (n1, q1) = timed_receive q 128 None ts1;
       let tr = [NameCreated QNAME, Opened fd,
         Message (case n1 of Late \<Rightarrow> ''Timed out as expected.''
                  | Got m \<Rightarrow> ''Unexpectedly received message: '' @ c_str m
                  | Refused \<Rightarrow> ''mq_timedreceive error'')];
       (if \<not> created
        then Some (tr @ [Message ''pthread_create failed'', Closed fd, Unlinked QNAME], Some EXIT_FAILURE)
        else do {
          ts2 \<leftarrow> abs_time_after_ms clock2 1000;
          let (n2, q2) = timed_receive q1 128 (Some (sent_at, ''hello'' @ [NUL])) ts2;
          Some (tr @ [Message (case n2 of Got m \<Rightarrow> ''Successfully received '' @ c_str m
                               | Late \<Rightarrow> ''Unexpected timeout.'' | Refused \<Rightarrow> ''mq_timedreceive error''),
                      Closed fd, Unlinked QNAME], Some EXIT_SUCCESS) }) })"

subsection \<open>timeout_poll.c\<close>

text \<open>\<open>poll\<close> on the pipe: 1 when a byte is there by the end of the timeout, else 0.\<close>

definition poll_pipe :: "int option \<Rightarrow> int \<Rightarrow> int \<Rightarrow> int" where
  "poll_pipe written_at now timeout_ms =
    (case written_at of None \<Rightarrow> 0 | Some t \<Rightarrow> if t \<le> now + timeout_ms then 1 else 0)"

definition writer_delay :: "int \<Rightarrow> timespec" where
  "writer_delay delay_ms = \<lparr>tv_sec = delay_ms sdiv 1000, tv_nsec = (delay_ms smod 1000) * 1000000\<rparr>"

text \<open>
  Times in milliseconds: the first poll at \<open>t0\<close>, the second at \<open>t1\<close>, the byte at \<open>written_at\<close>; the
  flags tell whether a poll fails.
\<close>

definition timeout_poll_main ::
  "(int \<times> int) option \<Rightarrow> bool \<Rightarrow> bool \<times> bool \<Rightarrow> int \<Rightarrow> int \<Rightarrow> int option \<Rightarrow> act list \<times> exit_status" where
  "timeout_poll_main pipe created = (\<lambda>(fails1, fails2) t0 t1 written_at. (case pipe of
     None \<Rightarrow> ([Message ''pipe failed''], Some EXIT_FAILURE)
   | Some (r, w) \<Rightarrow>
      (let rc1 = (if fails1 then - 1 else poll_pipe None t0 300)
       in if rc1 < 0 then ([Opened r, Opened w, Message ''poll failed''], Some EXIT_FAILURE)
          else (let tr = [Opened r, Opened w,
                     Message (if rc1 = 0 then ''timed out as expected'' else ''ready unexpectedly'')]
                in if \<not> created then (tr @ [Message ''pthread_create failed''], Some EXIT_FAILURE)
                   else (let rc2 = (if fails2 then - 1 else poll_pipe written_at t1 1000)
                         in (tr @ [Message (if rc2 = 1 then ''Received byte X within timeout''
                                       else if rc2 = 0 then ''unexpectedly timed out'' else ''poll failed''),
                                   Closed r, Closed w], Some EXIT_SUCCESS))))))"

subsection \<open>timeout_ppoll.c\<close>

datatype ppoll_at = Before | Polling | Interrupted_EINTR | Timed_out

record ppoll_state =
  usr1_blocked :: bool
  usr1_pending :: bool
  usr1_sent :: bool
  signal_received :: bool
  ppoll_at :: ppoll_at

definition ppoll_start :: ppoll_state where
  "ppoll_start = \<lparr>usr1_blocked = True, usr1_pending = False, usr1_sent = False,
                  signal_received = False, ppoll_at = Before\<rparr>"

text \<open>
  \<open>ppoll\<close> unblocks the signal and starts to wait in one step, and restores the mask when it returns;
  a pending signal that is not blocked runs the handler and interrupts the wait. The kernel delivers
  such a signal before it lets the wait time out.
\<close>

inductive ppoll_step :: "ppoll_state \<Rightarrow> ppoll_state \<Rightarrow> bool" where
  send: "\<not> usr1_sent s \<Longrightarrow> ppoll_step s (s\<lparr>usr1_sent := True, usr1_pending := True\<rparr>)"
| enter: "ppoll_at s = Before \<Longrightarrow> ppoll_step s (s\<lparr>ppoll_at := Polling, usr1_blocked := False\<rparr>)"
| interrupt: "ppoll_at s = Polling \<Longrightarrow> usr1_pending s \<Longrightarrow> \<not> usr1_blocked s \<Longrightarrow>
     ppoll_step s (s\<lparr>usr1_pending := False, signal_received := True, ppoll_at := Interrupted_EINTR,
                     usr1_blocked := True\<rparr>)"
| time_out: "ppoll_at s = Polling \<Longrightarrow> \<not> usr1_pending s \<Longrightarrow>
     ppoll_step s (s\<lparr>ppoll_at := Timed_out, usr1_blocked := True\<rparr>)"

definition ppoll_inv :: "ppoll_state \<Rightarrow> bool" where
  "ppoll_inv s \<longleftrightarrow> (usr1_blocked s \<longleftrightarrow> ppoll_at s \<noteq> Polling) \<and>
     (signal_received s \<longleftrightarrow> ppoll_at s = Interrupted_EINTR) \<and>
     (usr1_sent s \<longleftrightarrow> usr1_pending s \<or> signal_received s)"

interpretation ppoll_run: inductive_invariant "\<lambda>s. s = ppoll_start" ppoll_step ppoll_inv
proof unfold_locales
  show "ppoll_inv s" if "s = ppoll_start" for s
    using that by (simp add: ppoll_inv_def ppoll_start_def)
  show "ppoll_inv t" if "ppoll_inv s" "ppoll_step s t" for s t
    using that(2,1) by cases (auto simp: ppoll_inv_def)
qed

text \<open>
  \<open>main\<close>: whether the set-up calls succeed, what \<open>pipe\<close> gives, the result of \<open>ppoll\<close> (\<^const>\<open>None\<close>: -1
  with \<open>EINTR\<close>, \<open>Some (- 1)\<close>: -1 with another error), and the flag when it is looked at.
\<close>

definition timeout_ppoll_main ::
  "bool \<Rightarrow> bool \<Rightarrow> (int \<times> int) option \<Rightarrow> bool \<Rightarrow> int option \<Rightarrow> bool \<Rightarrow> act list \<times> exit_status" where
  "timeout_ppoll_main handler_ok mask_ok pipe created rc received =
    (if \<not> handler_ok then ([Message ''sigaction''], Some EXIT_FAILURE)
     else if \<not> mask_ok then ([Message ''pthread_sigmask''], Some EXIT_FAILURE)
     else (case pipe of
         None \<Rightarrow> ([Message ''Main thread blocked SIGUSR1.'', Message ''pipe''], Some EXIT_FAILURE)
       | Some (r, w) \<Rightarrow>
          (let tr = [Message ''Main thread blocked SIGUSR1.'', Opened r, Opened w]
           in if \<not> created then (tr @ [Message ''pthread_create''], Some EXIT_FAILURE)
              else (tr @ [Message (case rc of
                        None \<Rightarrow> ''ppoll was correctly interrupted by a signal.''
                      | Some n \<Rightarrow> if n = - 1 then ''ppoll failed''
                                 else if n = 0 then ''ppoll timed out, which is unexpected.''
                                 else ''ppoll detected data, which is unexpected.''),
                    Message (if received then ''Verified that the signal handler was executed.''
                             else ''Warning: signal handler was not executed.''),
                    Closed r, Closed w], Some EXIT_SUCCESS))))"

text \<open>The result of \<open>ppoll\<close> in a state where it has returned.\<close>

fun ppoll_result :: "ppoll_at \<Rightarrow> int option" where
  "ppoll_result Interrupted_EINTR = None"
| "ppoll_result _ = Some 0"

lemma fresh_mq_ok: "mq_receive (mq_create 10 128) 128 = Inl EAGAIN"
  by (simp add: mq_receive_def mq_create_def)

subsection \<open>Properties\<close>

text \<open>
  \<open>timeout_condvar.c\<close> never waits in its second scenario: after the timeout that its first scenario
  expects, the loop finds \<open>ETIMEDOUT\<close> still in \<open>rc\<close>, so whatever the producer would do, the program
  reports an unexpected timeout at once unless the event had come before the wait.
\<close>

theorem timeout_condvar_no_wait:
  "timeout_condvar_main ETIMEDOUT True False waits =
     ([''Timed out as expected.'', ''Unexpected timeout.''], Some 0)"
  by (simp add: timeout_condvar_main_def) (subst condvar_wait.simps, simp)

text \<open>
  The deadlines of \<open>timeout_mq.c\<close> do what its scenario says: with a fresh queue the first wait
  times out, and the second receives the sender's message whenever that is sent within 1000 ms of
  the second clock reading. A message that an earlier run left in the queue is received by the
  first wait instead, and a queue left with messages above 128 bytes refuses both waits. Once the
  queue is open, every way out closes it and removes its name.
\<close>

theorem timeout_mq_scenario:
  assumes "valid_ts c1" "0 \<le> tv_sec c1" "tv_sec c1 < 2 ^ 62" "valid_ts c2" "0 \<le> tv_sec c2" "tv_sec c2 < 2 ^ 62"
    and "sent_at \<le> ns_of c2 + 1000 * 1000000"
    and "timeout_mq_main (Some fd) q created c1 c2 sent_at = Some (tr, ex)"
  shows "(q = mq_create 10 128 \<and> created \<longrightarrow> ex = Some EXIT_SUCCESS \<and>
      tr = [NameCreated QNAME, Opened fd, Message ''Timed out as expected.'',
            Message ''Successfully received hello'', Closed fd, Unlinked QNAME]) \<and>
    (mq_msgsize q \<le> 128 \<and> mq_msgs q = (p, m) # ms \<longrightarrow>
       Message (''Unexpectedly received message: '' @ c_str m) \<in> set tr) \<and>
    (128 < mq_msgsize q \<longrightarrow> Message ''mq_timedreceive error'' \<in> set tr) \<and>
    open_fds tr {} = {} \<and> closes_open tr {} \<and> live_names tr N = N - {QNAME}"
proof -
  obtain ts1 where ts1: "abs_time_after_ms c1 100 = Some ts1" using abs_time_exact [of c1 100] assms by auto
  obtain ts2 where ts2: "abs_time_after_ms c2 1000 = Some ts2" "ns_of ts2 = ns_of c2 + 1000 * 1000000"
    using abs_time_exact [of c2 1000] assms by auto
  note run = assms(8) [unfolded timeout_mq_main_def, simplified, unfolded ts1 ts2(1), simplified]
  have "q = mq_create 10 128 \<and> created \<longrightarrow> ex = Some EXIT_SUCCESS \<and>
      tr = [NameCreated QNAME, Opened fd, Message ''Timed out as expected.'',
            Message ''Successfully received hello'', Closed fd, Unlinked QNAME]"
    using run assms(7) ts2(2)
    by (auto simp: timed_receive_def fresh_mq_ok mq_send_def) (auto simp: mq_create_def c_str_def)
  moreover have "mq_msgsize q \<le> 128 \<and> mq_msgs q = (p, m) # ms \<longrightarrow>
       Message (''Unexpectedly received message: '' @ c_str m) \<in> set tr"
    "128 < mq_msgsize q \<longrightarrow> Message ''mq_timedreceive error'' \<in> set tr"
    using run by (cases created; auto simp: timed_receive_def mq_receive_def Let_def split: prod.splits)+
  moreover have "open_fds tr {} = {} \<and> closes_open tr {} \<and> live_names tr N = N - {QNAME}"
    using run by (cases created) (auto simp: Let_def split: prod.splits)
  ultimately show ?thesis by blast
qed

theorem timeout_mq_scenario_witness:
  "\<exists>tr. timeout_mq_main (Some 3) (mq_create 10 128) True \<lparr>tv_sec = 5, tv_nsec = 950000000\<rparr>
      \<lparr>tv_sec = 6, tv_nsec = 50000000\<rparr> 6350000000 = Some (tr, Some EXIT_SUCCESS) \<and>
    Message ''Successfully received hello'' \<in> set tr"
proof -
  let ?c1 = "\<lparr>tv_sec = 5, tv_nsec = 950000000\<rparr>" and ?c2 = "\<lparr>tv_sec = 6, tv_nsec = 50000000\<rparr>"
  have v: "valid_ts ?c1" "valid_ts ?c2" by (simp_all add: valid_ts_def)
  obtain ts1 ts2 where "abs_time_after_ms ?c1 100 = Some ts1" "abs_time_after_ms ?c2 1000 = Some ts2"
    using abs_time_exact [OF v(1), of 100] abs_time_exact [OF v(2), of 1000] by auto
  then have "timeout_mq_main (Some 3) (mq_create 10 128) True ?c1 ?c2 6350000000 \<noteq> None"
    by (simp add: timeout_mq_main_def split: prod.splits)
  then obtain tr ex where
    m: "timeout_mq_main (Some 3) (mq_create 10 128) True ?c1 ?c2 6350000000 = Some (tr, ex)" by auto
  from timeout_mq_scenario [OF v(1) _ _ v(2) _ _ _ m] m show ?thesis by (simp add: ns_of_def)
qed

text \<open>
  The timer program prints exactly five expirations: interrupted reads do not count, the lines
  are the first five counts the timer delivered with their time stamps, and whichever way the
  program ends, the timer's descriptor is closed once.
\<close>

lemma reptimer_five_expirations:
  "(timer_loop 0 rs = Some (lines, True) \<longrightarrow> lines = take 5 (expirations rs) \<and> length lines = 5) \<and>
   (\<forall>tr ex. reptimer_main (Some fd) ok rs = (tr, Some ex) \<longrightarrow> closes_open tr {} \<and> open_fds tr {} = {})"
  using timer_loop_normal [of 0 rs lines]
  by (auto simp: reptimer_main_def split: if_splits option.splits)

text \<open>
  \<open>ppoll\<close> closes the race of the signal against the wait: in every order of the sender, the call
  and the delivery, a call that returns \<open>EINTR\<close> has run the handler and one that times out has not,
  and a signal already sent never leaves the wait unable to be interrupted.
\<close>

theorem ppoll_no_race:
  assumes "ppoll_step\<^sup>*\<^sup>* ppoll_start s"
  shows "(ppoll_at s = Interrupted_EINTR \<longleftrightarrow> signal_received s) \<and>
    (ppoll_at s = Polling \<and> usr1_sent s \<longrightarrow>
       (\<exists>t. ppoll_step s t \<and> ppoll_at t = Interrupted_EINTR \<and> signal_received t) \<and>
       (\<forall>t. ppoll_step s t \<longrightarrow> ppoll_at t \<noteq> Timed_out))"
proof -
  from assms have inv: "ppoll_inv s" using ppoll_run.inv_run by blast
  have "\<exists>t. ppoll_step s t \<and> ppoll_at t = Interrupted_EINTR \<and> signal_received t"
    if "ppoll_at s = Polling" "usr1_sent s"
  proof -
    from that inv have "usr1_pending s" "\<not> usr1_blocked s" by (auto simp: ppoll_inv_def)
    from ppoll_step.interrupt [OF that(1) this] show ?thesis by (intro exI conjI) (assumption, simp_all)
  qed
  moreover have "ppoll_at t \<noteq> Timed_out" if "ppoll_at s = Polling" "usr1_sent s" "ppoll_step s t" for t
    using that(3,1,2) inv by cases (auto simp: ppoll_inv_def)
  ultimately show ?thesis using inv by (auto simp: ppoll_inv_def)
qed

theorem ppoll_no_race_witness:
  "\<exists>s. ppoll_step\<^sup>*\<^sup>* ppoll_start s \<and> ppoll_at s = Polling \<and> usr1_sent s \<and>
     (\<exists>t. ppoll_step s t \<and> ppoll_at t = Interrupted_EINTR)"
proof -
  let ?s1 = "ppoll_start\<lparr>usr1_sent := True, usr1_pending := True\<rparr>"
  let ?s2 = "?s1\<lparr>ppoll_at := Polling, usr1_blocked := False\<rparr>"
  have "ppoll_step ppoll_start ?s1" by (rule ppoll_step.send) (simp add: ppoll_start_def)
  moreover have "ppoll_step ?s1 ?s2" by (rule ppoll_step.enter) (simp add: ppoll_start_def)
  ultimately have r: "ppoll_step\<^sup>*\<^sup>* ppoll_start ?s2" by (meson rtranclp.rtrancl_into_rtrancl rtranclp.rtrancl_refl)
  have "ppoll_at ?s2 = Polling \<and> usr1_sent ?s2" by simp
  with ppoll_no_race [OF r] r show ?thesis by blast
qed

text \<open>
  The poll demonstration: when the writer's byte arrives within the second poll's 1000 ms the
  program reports it, else the timeout or the failure, and every exit with success has closed both
  ends of the pipe; the error exits behind the pipe's creation leave them to the kernel.
\<close>

lemma timeout_poll_scenario:
  assumes "timeout_poll_main (Some (r, w)) created (fails1, fails2) t0 t1 (Some t) = (tr, ex)" "r \<noteq> w"
  shows "(ex = Some EXIT_SUCCESS \<longleftrightarrow> created \<and> \<not> fails1) \<and>
    (ex = Some EXIT_SUCCESS \<longrightarrow>
      closes_open tr {} \<and> open_fds tr {} = {} \<and>
      (Message ''Received byte X within timeout'' \<in> set tr \<longleftrightarrow> \<not> fails2 \<and> t \<le> t1 + 1000) \<and>
      Message ''timed out as expected'' \<in> set tr) \<and>
    (ex \<noteq> Some EXIT_SUCCESS \<longrightarrow> open_fds tr {} = {r, w})"
  using assms
  by (auto simp: timeout_poll_main_def poll_pipe_def Let_def split: if_splits)

text \<open>
  The two lines of \<open>timeout_ppoll.c\<close> agree: in every run, once \<open>ppoll\<close> has returned, main says that
  it was interrupted exactly when it says that the handler was executed, and it closes the pipe.
\<close>

theorem timeout_ppoll_consistent:
  assumes "ppoll_step\<^sup>*\<^sup>* ppoll_start s" "ppoll_at s = Interrupted_EINTR \<or> ppoll_at s = Timed_out" "r \<noteq> w"
    and "timeout_ppoll_main True True (Some (r, w)) True (ppoll_result (ppoll_at s)) (signal_received s) = (tr, ex)"
  shows "(Message ''ppoll was correctly interrupted by a signal.'' \<in> set tr \<longleftrightarrow>
      Message ''Verified that the signal handler was executed.'' \<in> set tr) \<and>
    ex = Some EXIT_SUCCESS \<and> open_fds tr {} = {} \<and> closes_open tr {}"
proof -
  from assms(1) have "ppoll_inv s" using ppoll_run.inv_run by blast
  then show ?thesis using assms(2-4) by (auto simp: ppoll_inv_def timeout_ppoll_main_def Let_def)
qed

theorem timeout_ppoll_consistent_witness:
  "\<exists>s. ppoll_step\<^sup>*\<^sup>* ppoll_start s \<and> ppoll_at s = Timed_out \<and>
     open_fds (fst (timeout_ppoll_main True True (Some (3, 4)) True (ppoll_result (ppoll_at s)) (signal_received s))) {} = {}"
proof -
  let ?s1 = "ppoll_start\<lparr>ppoll_at := Polling, usr1_blocked := False\<rparr>"
  let ?s2 = "?s1\<lparr>ppoll_at := Timed_out, usr1_blocked := True\<rparr>"
  have "ppoll_step ppoll_start ?s1" by (rule ppoll_step.enter) (simp add: ppoll_start_def)
  moreover have "ppoll_step ?s1 ?s2" by (rule ppoll_step.time_out) (simp_all add: ppoll_start_def)
  ultimately have r: "ppoll_step\<^sup>*\<^sup>* ppoll_start ?s2" by (meson rtranclp.rtrancl_into_rtrancl rtranclp.rtrancl_refl)
  obtain tr ex where m: "timeout_ppoll_main True True (Some (3, 4)) True (ppoll_result (ppoll_at ?s2))
      (signal_received ?s2) = (tr, ex)" by force
  from timeout_ppoll_consistent [OF r _ _ m] m r show ?thesis by (intro exI [of _ ?s2]) simp
qed

end
