(* ===== verification/Intro.thy ===== *)
theory Intro
  imports Prelude
begin

section \<open>The state display (intro.c)\<close>

text \<open>
  Three threads around \<open>state\<close> and \<open>changed\<close>. The critical sections of \<open>sense\<close> and \<open>stateOutput\<close> are
  atomic steps, and so is the store to \<open>changed\<close> with which \<open>stateOutput\<close> begins outside the lock.
  \<open>stateOutput\<close> tests the flag under the lock before it waits, so a signal that finds nobody waiting
  is not missed; its pass is possible exactly while the flag is set. \<open>userInterface\<close> takes no lock and
  reads the state anew for each of its six comparisons, which are steps of their own.
\<close>

datatype name = NotReady | Ready | RunMode

record display =
  dstate :: char
  changed :: bool
  prevState :: char          \<comment> \<open>local to \<open>sense\<close>\<close>
  output_started :: bool
  announced :: "name option list"
  ui :: nat                  \<comment> \<open>the comparison \<open>userInterface\<close> is at\<close>
  drawn :: "name option list"

definition isRealState :: "char \<Rightarrow> bool" where
  "isRealState s \<longleftrightarrow> (if s = CHR ''R'' \<or> s = CHR ''r'' then True
     else if s = CHR ''N'' \<or> s = CHR ''n'' then True
     else if s = CHR ''D'' \<or> s = CHR ''d'' then True else False)"

text \<open>\<open>state ^ ' '\<close>.\<close>

definition flip_case :: "char \<Rightarrow> char" where
  "flip_case c = char_of ((of_char c :: nat) XOR 32)"

text \<open>The chain of tests that picks the text; \<^const>\<open>None\<close> prints none.\<close>

definition state_name :: "char \<Rightarrow> name option" where
  "state_name s = (if s = CHR ''n'' \<or> s = CHR ''N'' then Some NotReady
     else if s = CHR ''r'' \<or> s = CHR ''R'' then Some Ready
     else if s = CHR ''d'' \<or> s = CHR ''D'' then Some RunMode else None)"

definition sense :: "char \<Rightarrow> display \<Rightarrow> display" where
  "sense tempState s =
     (let st = (if isRealState tempState then tempState else dstate s);
          ch = (if prevState s \<noteq> st \<and> prevState s \<noteq> flip_case st then True else changed s)
      in s\<lparr>dstate := st, changed := ch, prevState := st\<rparr>)"

definition output_start :: "display \<Rightarrow> display" where
  "output_start s = s\<lparr>changed := False, output_started := True\<rparr>"

definition stateOutput :: "display \<Rightarrow> display" where
  "stateOutput s = s\<lparr>announced := announced s @ [state_name (dstate s)], changed := False\<rparr>"

text \<open>
  The comparisons of \<open>userInterface\<close> in their order, with the picture each of them draws. A pass that
  has drawn, or found no match, sleeps and starts again.
\<close>

definition ui_tests :: "(char \<times> name) list" where
  "ui_tests = [(CHR ''n'', NotReady), (CHR ''N'', NotReady), (CHR ''r'', Ready), (CHR ''R'', Ready),
     (CHR ''d'', RunMode), (CHR ''D'', RunMode)]"

definition userInterface :: "display \<Rightarrow> display" where
  "userInterface s =
     (if ui s < length ui_tests
      then (case ui_tests ! ui s of (c, n) \<Rightarrow>
        if dstate s = c then s\<lparr>drawn := drawn s @ [Some n], ui := 0\<rparr> else s\<lparr>ui := Suc (ui s)\<rparr>)
      else s\<lparr>drawn := drawn s @ [None], ui := 0\<rparr>)"

definition intro_start :: display where
  "intro_start = \<lparr>dstate = CHR ''N'', changed = False, prevState = CHR '' '', output_started = False,
                  announced = [], ui = 0, drawn = []\<rparr>"

text \<open>
  \<open>main\<close>: the lines it prints and how it ends. \<open>pause\<close> returns only when a signal was caught, and
  the program installs no handler.
\<close>

definition intro_main :: "bool \<Rightarrow> string list \<times> int option" where
  "intro_main caught =
     (if caught then ([''Hello World!'', ''Exit Success!''], Some 0) else ([''Hello World!''], None))"

inductive intro_step :: "display \<Rightarrow> display \<Rightarrow> bool" where
  press: "intro_step s (sense c s)"
| output_begins: "\<not> output_started s \<Longrightarrow> intro_step s (output_start s)"
| announce: "output_started s \<Longrightarrow> changed s \<Longrightarrow> intro_step s (stateOutput s)"
| redraw: "intro_step s (userInterface s)"

definition intro_inv :: "display \<Rightarrow> bool" where
  "intro_inv s \<longleftrightarrow> isRealState (dstate s) \<and> None \<notin> set (announced s) \<and> ui s \<le> length ui_tests"

lemma state_name_real: "isRealState c \<longleftrightarrow> state_name c \<noteq> None"
  by (auto simp: isRealState_def state_name_def)

interpretation intro_run: inductive_invariant "\<lambda>s. s = intro_start" intro_step intro_inv
proof unfold_locales
  show "intro_inv s" if "s = intro_start" for s
    using that by (simp add: intro_inv_def intro_start_def isRealState_def)
  show "intro_inv t" if "intro_inv s" "intro_step s t" for s t
    using that(2,1) state_name_real [of "dstate s"]
    by cases (auto simp: intro_inv_def sense_def output_start_def stateOutput_def userInterface_def Let_def
        split: prod.splits)
qed

text \<open>A key that does not change the state up to case is not announced; one that does is.\<close>

lemma flip_case_evals:
  "flip_case (CHR ''N'') = CHR ''n'' \<and> flip_case (CHR ''n'') = CHR ''N'' \<and> flip_case (CHR ''R'') = CHR ''r'' \<and>
   flip_case (CHR ''r'') = CHR ''R'' \<and> flip_case (CHR ''D'') = CHR ''d'' \<and> flip_case (CHR ''d'') = CHR ''D''"
  by code_simp

lemma sense_announces:
  assumes "isRealState (prevState s)" "isRealState c"
  shows "changed (sense c s) \<longleftrightarrow> changed s \<or> state_name c \<noteq> state_name (prevState s)"
  using assms flip_case_evals
  by (auto simp: sense_def Let_def isRealState_def state_name_def split: if_splits)

text \<open>Scripts of keys and of steps of \<open>userInterface\<close>.\<close>

datatype intro_turn = Key char | Redraw

fun intro_move :: "intro_turn \<Rightarrow> display \<Rightarrow> display option" where
  "intro_move (Key c) s = Some (sense c s)"
| "intro_move Redraw s = Some (userInterface s)"

lemma intro_move_sound: "intro_move m s = Some t \<Longrightarrow> intro_step s t"
  by (cases m) (auto intro: intro_step.intros)

text \<open>A pass of \<open>userInterface\<close> that nothing comes between draws the current state.\<close>

definition ui_pass :: "display \<Rightarrow> display" where
  "ui_pass s = (userInterface ^^ Suc (length (takeWhile (\<lambda>t. fst t \<noteq> dstate s) ui_tests))) s"

lemma map_of_takeWhile:
  "map_of xs c = (let k = length (takeWhile (\<lambda>t. fst t \<noteq> c) xs) in if k < length xs then Some (snd (xs ! k)) else None)"
  by (induction xs) (auto simp: Let_def)

lemma state_name_tests: "state_name c = map_of ui_tests c"
  by (simp add: state_name_def ui_tests_def)

lemma userInterface_at:
  "userInterface (s\<lparr>ui := k\<rparr>) =
     (if k < length ui_tests then
        if dstate s = fst (ui_tests ! k) then s\<lparr>drawn := drawn s @ [Some (snd (ui_tests ! k))], ui := 0\<rparr>
        else s\<lparr>ui := Suc k\<rparr>
      else s\<lparr>drawn := drawn s @ [None], ui := 0\<rparr>)"
  by (simp add: userInterface_def split: prod.split)

lemma ui_skips:
  "k \<le> length ui_tests \<Longrightarrow> \<forall>j < k. fst (ui_tests ! j) \<noteq> dstate s \<Longrightarrow> ui s = 0 \<Longrightarrow> (userInterface ^^ k) s = s\<lparr>ui := k\<rparr>"
proof (induction k)
  case (Suc k)
  then have "(userInterface ^^ k) s = s\<lparr>ui := k\<rparr>" "fst (ui_tests ! k) \<noteq> dstate s" "k < length ui_tests" by simp_all
  then show ?case by (simp add: userInterface_at)
qed simp

lemma ui_pass_draws:
  assumes "ui s = 0"
  shows "ui_pass s = s\<lparr>drawn := drawn s @ [state_name (dstate s)]\<rparr>"
proof -
  let ?P = "\<lambda>t. fst t \<noteq> dstate s"
  let ?k = "length (takeWhile ?P ui_tests)"
  have "fst (ui_tests ! j) \<noteq> dstate s" if "j < ?k" for j
    using set_takeWhileD [OF nth_mem [OF that]] takeWhile_nth [OF that] by simp
  then have "(userInterface ^^ ?k) s = s\<lparr>ui := ?k\<rparr>"
    by (intro ui_skips allI impI) (use assms in \<open>simp_all add: length_takeWhile_le\<close>)
  moreover have "fst (ui_tests ! ?k) = dstate s" if "?k < length ui_tests" using nth_length_takeWhile [OF that] by simp
  ultimately have "ui_pass s = s\<lparr>ui := 0, drawn := drawn s @ [map_of ui_tests (dstate s)]\<rparr>"
    by (simp add: ui_pass_def map_of_takeWhile userInterface_at Let_def)
  with assms show ?thesis by (simp add: state_name_tests)
qed

subsection \<open>Properties\<close>

text \<open>
  The display announces by meaning, not by letter, and never an unknown state: in every reachable
  state the current state is a real one and every announcement names one, and a real key sets the
  flag exactly when it names another state than the key before, upper and lower case being the
  same; and a pass of \<open>userInterface\<close> that no key comes between draws the current state.
\<close>

lemma intro_display_sound:
  assumes "intro_step\<^sup>*\<^sup>* intro_start s"
  shows "state_name (dstate s) \<noteq> None \<and> None \<notin> set (announced s) \<and>
    (isRealState (prevState s) \<and> isRealState c \<longrightarrow>
       (changed (sense c s) \<longleftrightarrow> changed s \<or> state_name c \<noteq> state_name (prevState s))) \<and>
    (ui s = 0 \<longrightarrow> drawn (ui_pass s) = drawn s @ [state_name (dstate s)])"
proof -
  from assms have "intro_inv s" using intro_run.inv_run by blast
  with sense_announces [of s c] state_name_real ui_pass_draws [of s] show ?thesis by (auto simp: intro_inv_def)
qed

text \<open>
  A key that comes between the comparisons makes \<open>userInterface\<close> draw nothing in its pass: it has
  found the state to be neither \<open>n\<close> nor \<open>N\<close> when it was \<open>R\<close>, and finds it none of the others when
  it is \<open>N\<close> again.
\<close>

theorem intro_pass_draws_nothing:
  "\<exists>s. intro_step\<^sup>*\<^sup>* intro_start s \<and> drawn s = [None] \<and> state_name (dstate s) = Some NotReady"
proof -
  let ?ms = "[Key CHR ''R'', Redraw, Redraw, Key CHR ''N'', Redraw, Redraw, Redraw, Redraw, Redraw]"
  obtain s where s: "run_script intro_move ?ms intro_start = Some s" "drawn s = [None]" "dstate s = CHR ''N''"
    by (simp add: intro_start_def sense_def Let_def isRealState_def userInterface_def ui_tests_def numeral_eq_Suc)
  have "intro_step\<^sup>*\<^sup>* intro_start s" by (rule run_script_reachable [OF s(1)]) (rule intro_move_sound)
  moreover have "state_name (CHR ''N'') = Some NotReady" by (simp add: state_name_def)
  ultimately show ?thesis using s(2,3) by metis
qed

text \<open>
  A change can be lost: \<open>stateOutput\<close> clears the flag outside the lock when it starts, so a key
  read before that changes the state without ever being announced; the output thread then waits
  with the flag clear.
\<close>

theorem intro_change_lost:
  "\<exists>s. intro_step\<^sup>*\<^sup>* intro_start s \<and> dstate s = CHR ''R'' \<and> output_started s \<and> announced s = [] \<and>
     \<not> changed s \<and> changed (sense CHR ''R'' intro_start)"
proof -
  let ?s = "sense CHR ''R'' intro_start"
  have ch: "changed ?s" "dstate ?s = CHR ''R''" "\<not> output_started ?s" "announced ?s = []"
    using flip_case_evals by (simp_all add: sense_def intro_start_def isRealState_def Let_def)
  have "intro_step intro_start ?s" by (rule intro_step.press)
  moreover have "intro_step ?s (output_start ?s)" by (rule intro_step.output_begins) (rule ch(3))
  ultimately have "intro_step\<^sup>*\<^sup>* intro_start (output_start ?s)"
    by (meson rtranclp.rtrancl_into_rtrancl rtranclp.rtrancl_refl)
  moreover have "dstate (output_start ?s) = CHR ''R'' \<and> output_started (output_start ?s) \<and>
      announced (output_start ?s) = [] \<and> \<not> changed (output_start ?s)"
    using ch by (simp add: output_start_def)
  ultimately show ?thesis using ch(1) by blast
qed

end
