(* ===== verification/PrioInversion.thy ===== *)
theory PrioInversion
  imports Clock Syscalls
begin

section \<open>The priority inversion scenarios (task1/src/inv_prio)\<close>

text \<open>
  The three threads of \<open>working.c\<close> as the sequences of calls they make, the mutex they share, and
  the two mains that start them: \<open>scenario_1.c\<close> with a plain mutex, \<open>scenario_2.c\<close> with priority
  inheritance. Two step relations give their runs: \<open>any_step\<close> lets any runnable thread go on (any
  number of processors), \<open>fifo_step\<close> is one processor under \<open>SCHED_FIFO\<close>, where the runnable
  thread of the highest effective priority goes on. How long a sleep lasts and when main creates
  the next thread is left to the environment. The lines the threads print are named by
  constructors, since all but three of the texts are in Russian.
\<close>

subsection \<open>working.c\<close>

datatype thread = Server | T1 | T2

datatype line =
    Server_starts | Server_released | T1_starts | T1_ends | T2_tries | T2_has | T2_done
  | Working int int      \<comment> \<open>server is working for (tid) - (i)th start\<close>
  | Worked int int       \<comment> \<open>server is working for (tid) - (i)th end\<close>
  | Finished_all int     \<comment> \<open>server finished all work for (tid)\<close>

datatype call = Print line | Nap timespec | Mutex_lock | Mutex_unlock

definition busy_ms :: "int \<Rightarrow> call" where
  "busy_ms ms = Nap \<lparr>tv_sec = ms sdiv 1000, tv_nsec = (ms smod 1000) * 1000000\<rparr>"

definition working :: "int \<Rightarrow> call list" where
  "working tid = concat (map (\<lambda>i. [Print (Working tid i), busy_ms 50, Print (Worked tid i)]) [0..4])
     @ [Print (Finished_all tid)]"

definition server :: "call list" where
  "server = [Print Server_starts, Mutex_lock] @ working 0 @ [Mutex_unlock, Print Server_released]"

definition t1 :: "call list" where
  "t1 = [Print T1_starts] @ replicate 200 (busy_ms 10) @ [Print T1_ends]"

definition t2 :: "call list" where
  "t2 = [Print T2_tries, Mutex_lock, Print T2_has, busy_ms 20, Mutex_unlock, Print T2_done]"

fun code_of :: "thread \<Rightarrow> call list" where
  "code_of Server = server"
| "code_of T1 = t1"
| "code_of T2 = t2"

text \<open>The calls of \<open>init_resource_mutex\<close> with what it returns; the arguments are its switch and the
  results of the attribute's initialisation, of \<open>setprotocol\<close> and of \<open>pthread_mutex_init\<close>.\<close>

datatype mutex_act = Attr_init | Set_type | Set_inherit | Complaint int | Mutex_init | Attr_destroy

definition init_resource_mutex :: "int \<Rightarrow> int \<Rightarrow> int \<Rightarrow> int \<Rightarrow> mutex_act list \<times> int" where
  "init_resource_mutex enable_prio_inherit rc_attr rc_protocol rc_init =
    (if rc_attr \<noteq> 0 then ([Attr_init], - 1)
     else if enable_prio_inherit \<noteq> 0 \<and> rc_protocol \<noteq> 0
     then ([Attr_init, Set_type, Set_inherit, Complaint rc_protocol, Attr_destroy], - 1)
     else ([Attr_init, Set_type] @ (if enable_prio_inherit \<noteq> 0 then [Set_inherit] else []) @
           [Mutex_init, Attr_destroy],
           if rc_init = 0 then 0 else - 1))"

subsection \<open>scenario_1.c and scenario_2.c\<close>

definition SCHED_FIFO :: int where "SCHED_FIFO = 1"

record thread_attr =
  explicit_sched :: bool
  policy :: int
  sched_prio :: int

text \<open>The attributes and the result, which is the one of \<open>pthread_attr_setschedparam\<close>.\<close>

definition set_thread_priority :: "int \<Rightarrow> int \<Rightarrow> int \<Rightarrow> thread_attr \<times> int" where
  "set_thread_priority pol prio rc =
    (\<lparr>explicit_sched = True, policy = pol, sched_prio = (if rc = 0 then prio else 0)\<rparr>, rc)"

text \<open>The copy in \<open>scenario_2.c\<close>.\<close>

definition set_thread_priority_2 :: "int \<Rightarrow> int \<Rightarrow> int \<Rightarrow> thread_attr \<times> int" where
  "set_thread_priority_2 pol prio rc =
    (\<lparr>explicit_sched = True, policy = pol, sched_prio = (if rc = 0 then prio else 0)\<rparr>, rc)"

lemma same_set_thread_priority: "set_thread_priority_2 = set_thread_priority"
  by (simp add: fun_eq_iff set_thread_priority_def set_thread_priority_2_def)

datatype main_act = Mutex mutex_act | Perror string | Spawn thread thread_attr | Farewell

text \<open>
  \<open>main\<close>: the results of the mutex calls, of the three attributes (server, t1, t2) and of the three
  \<open>pthread_create\<close> (server, t2, t1). Behind the last one it joins the threads and says goodbye.
\<close>

definition scenario_main ::
  "int \<Rightarrow> int \<times> int \<times> int \<Rightarrow> int \<times> int \<times> int \<Rightarrow> int \<times> int \<times> int \<Rightarrow> main_act list \<times> exit_status" where
  "scenario_main enable = (\<lambda>(ra, rp, ri) (as, a1, a2) (cs, c2, c1).
    (let (acts, rc) = init_resource_mutex enable ra rp ri;
         tr0 = map Mutex acts
     in if rc \<noteq> 0 then (tr0 @ [Perror ''init_resource_mutex''], Some EXIT_FAILURE)
        else
         (let (attr_server, rs) = set_thread_priority SCHED_FIFO 10 as;
              (attr_t1, r1) = set_thread_priority SCHED_FIFO 20 a1;
              (attr_t2, r2) = set_thread_priority SCHED_FIFO 30 a2;
              tr1 = tr0 @ (if rs \<noteq> 0 then [Perror ''attr_server''] else [])
                        @ (if r1 \<noteq> 0 then [Perror ''attr_t1''] else [])
                        @ (if r2 \<noteq> 0 then [Perror ''attr_t2''] else [])
          in if cs \<noteq> 0 then (tr1 @ [Perror ''pthread_create server''], Some EXIT_FAILURE)
             else if c2 \<noteq> 0
             then (tr1 @ [Spawn Server attr_server, Perror ''pthread_create t2''], Some EXIT_FAILURE)
             else if c1 \<noteq> 0
             then (tr1 @ [Spawn Server attr_server, Spawn T2 attr_t2, Perror ''pthread_create t1''],
                   Some EXIT_FAILURE)
             else (tr1 @ [Spawn Server attr_server, Spawn T2 attr_t2, Spawn T1 attr_t1, Farewell],
                   Some EXIT_SUCCESS))))"

definition scenario_1 ::
  "int \<times> int \<times> int \<Rightarrow> int \<times> int \<times> int \<Rightarrow> int \<times> int \<times> int \<Rightarrow> main_act list \<times> exit_status" where
  "scenario_1 = scenario_main 0"

definition scenario_2 ::
  "int \<times> int \<times> int \<Rightarrow> int \<times> int \<times> int \<Rightarrow> int \<times> int \<times> int \<Rightarrow> main_act list \<times> exit_status" where
  "scenario_2 = scenario_main 1"

subsection \<open>Runs of the threads\<close>

record pstate =
  pc :: "thread \<Rightarrow> nat"           \<comment> \<open>calls made\<close>
  asleep :: "thread \<Rightarrow> bool"      \<comment> \<open>in \<open>nanosleep\<close>\<close>
  waits :: "thread \<Rightarrow> bool"       \<comment> \<open>blocked in \<open>pthread_mutex_lock\<close>\<close>
  mutex :: "thread option"        \<comment> \<open>the owner of \<open>resource_mutex\<close>\<close>
  to_create :: "thread list"      \<comment> \<open>what main still has to start\<close>
  printed :: "line list"

definition prio_start :: pstate where
  "prio_start = \<lparr>pc = (\<lambda>_. 0), asleep = (\<lambda>_. False), waits = (\<lambda>_. False), mutex = None,
                 to_create = [Server, T2, T1], printed = []\<rparr>"

definition rest :: "pstate \<Rightarrow> thread \<Rightarrow> call list" where
  "rest s t = drop (pc s t) (code_of t)"

definition runnable :: "pstate \<Rightarrow> thread \<Rightarrow> bool" where
  "runnable s t \<longleftrightarrow> t \<notin> set (to_create s) \<and> \<not> asleep s t \<and> \<not> waits s t \<and> rest s t \<noteq> []"

text \<open>
  The next call of a thread. A lock that is taken blocks the caller, which tries again when an
  unlock has woken it.
\<close>

definition perform :: "thread \<Rightarrow> pstate \<Rightarrow> pstate" where
  "perform t s = (case rest s t of
     [] \<Rightarrow> s
   | c # cs \<Rightarrow>
      (let s' = s\<lparr>pc := (pc s)(t := Suc (pc s t))\<rparr>
       in case c of
            Print l \<Rightarrow> s'\<lparr>printed := printed s @ [l]\<rparr>
          | Nap d \<Rightarrow> s'\<lparr>asleep := (asleep s)(t := True)\<rparr>
          | Mutex_lock \<Rightarrow> (if mutex s = None then s'\<lparr>mutex := Some t\<rparr>
                          else s\<lparr>waits := (waits s)(t := True)\<rparr>)
          | Mutex_unlock \<Rightarrow> s'\<lparr>mutex := None, waits := (\<lambda>_. False)\<rparr>))"

inductive env_step :: "pstate \<Rightarrow> pstate \<Rightarrow> bool" where
  wake: "asleep s t \<Longrightarrow> env_step s (s\<lparr>asleep := (asleep s)(t := False)\<rparr>)"
| create: "to_create s = t # ts \<Longrightarrow> env_step s (s\<lparr>to_create := ts\<rparr>)"

inductive any_step :: "pstate \<Rightarrow> pstate \<Rightarrow> bool" where
  run: "runnable s t \<Longrightarrow> any_step s (perform t s)"
| env: "env_step s s' \<Longrightarrow> any_step s s'"

fun priority :: "thread \<Rightarrow> int" where
  "priority Server = 10"
| "priority T1 = 20"
| "priority T2 = 30"

text \<open>With \<open>PTHREAD_PRIO_INHERIT\<close> the owner has at least the priority of every thread it blocks.\<close>

definition eff :: "bool \<Rightarrow> pstate \<Rightarrow> thread \<Rightarrow> int" where
  "eff inherit s t = (if inherit \<and> mutex s = Some t
     then foldr max (map priority (filter (waits s) [Server, T1, T2])) (priority t) else priority t)"

definition dispatched :: "bool \<Rightarrow> pstate \<Rightarrow> thread \<Rightarrow> bool" where
  "dispatched inherit s t \<longleftrightarrow> runnable s t \<and>
     (\<forall>u \<in> {Server, T1, T2}. runnable s u \<longrightarrow> eff inherit s u \<le> eff inherit s t)"

inductive fifo_step :: "bool \<Rightarrow> pstate \<Rightarrow> pstate \<Rightarrow> bool" for inherit where
  dispatch: "dispatched inherit s t \<Longrightarrow> fifo_step inherit s (perform t s)"
| environment: "env_step s s' \<Longrightarrow> fifo_step inherit s s'"

inductive_cases env_stepE: "env_step s s'"
inductive_cases any_stepE: "any_step s s'"
inductive_cases fifo_stepE: "fifo_step inherit s s'"

lemma fifo_any: "fifo_step inherit s s' \<Longrightarrow> any_step s s'"
  by (auto elim!: fifo_stepE intro: any_step.intros simp: dispatched_def)

lemma fifo_any_star: "(fifo_step inherit)\<^sup>*\<^sup>* s s' \<Longrightarrow> any_step\<^sup>*\<^sup>* s s'"
  by (induction rule: rtranclp_induct) (auto intro: rtranclp.rtrancl_into_rtrancl fifo_any)

subsection \<open>The invariant\<close>

text \<open>A thread that holds the mutex unlocks it next, one that does not locks it next.\<close>

fun balanced :: "bool \<Rightarrow> call list \<Rightarrow> bool" where
  "balanced h [] \<longleftrightarrow> \<not> h"
| "balanced h (Mutex_lock # cs) \<longleftrightarrow> \<not> h \<and> balanced True cs"
| "balanced h (Mutex_unlock # cs) \<longleftrightarrow> h \<and> balanced False cs"
| "balanced h (c # cs) \<longleftrightarrow> balanced h cs"

fun prints :: "call list \<Rightarrow> line list" where
  "prints [] = []"
| "prints (Print l # cs) = l # prints cs"
| "prints (c # cs) = prints cs"

fun speaker :: "line \<Rightarrow> thread" where
  "speaker T1_starts = T1" | "speaker T1_ends = T1"
| "speaker T2_tries = T2" | "speaker T2_has = T2" | "speaker T2_done = T2"
| "speaker l = Server"

fun is_work :: "line \<Rightarrow> bool" where
  "is_work (Working tid i) = True"
| "is_work (Worked tid i) = True"
| "is_work (Finished_all tid) = True"
| "is_work l = False"

definition serial :: "line list \<Rightarrow> bool" where
  "serial ls \<longleftrightarrow> (\<forall>xs ys. ls = xs @ T2_has # ys \<longrightarrow>
     filter is_work xs = [] \<or> filter is_work xs = prints (working 0))"

lemmas codes = server_def t1_def t2_def working_def busy_ms_def

lemma prints_append [simp]: "prints (as @ bs) = prints as @ prints bs"
  by (induction as rule: prints.induct) auto

lemma balanced_needs_unlock: "balanced True cs \<Longrightarrow> Mutex_unlock \<in> set cs"
  by (induction True cs rule: balanced.induct) auto

lemma interval_0_4: "[0..4] = [0, 1, 2, 3, 4::int]"
  by (simp add: upto.simps)

lemma server_unfold: "server = [Print Server_starts, Mutex_lock,
   Print (Working 0 0), busy_ms 50, Print (Worked 0 0), Print (Working 0 1), busy_ms 50, Print (Worked 0 1),
   Print (Working 0 2), busy_ms 50, Print (Worked 0 2), Print (Working 0 3), busy_ms 50, Print (Worked 0 3),
   Print (Working 0 4), busy_ms 50, Print (Worked 0 4), Print (Finished_all 0), Mutex_unlock,
   Print Server_released]"
  by (simp add: server_def working_def interval_0_4)

lemma lengths: "length server = 20" "length t1 = 202" "length t2 = 6"
  by (simp_all add: server_unfold t1_def t2_def)

lemma balanced_naps: "balanced h (replicate n (Nap d) @ cs) = balanced h cs"
  by (induction n) auto

lemma balanced_code: "balanced False (code_of t)"
  by (cases t) (simp_all add: server_unfold t1_def t2_def busy_ms_def balanced_naps)

lemma speaker_code: "Print l \<in> set (code_of t) \<Longrightarrow> speaker l = t"
  by (cases t) (auto simp: server_unfold t1_def t2_def busy_ms_def)

lemma t1_no_unlock: "Mutex_unlock \<notin> set t1"
  by (auto simp: t1_def busy_ms_def)

lemma is_work_speaker: "is_work l \<Longrightarrow> speaker l = Server"
  by (cases l) auto

lemma less_20: "(k::nat) < 20 \<longleftrightarrow> k \<in> {0,1,2,3,4,5,6,7,8,9,10,11,12,13,14,15,16,17,18,19}"
  by (simp only: insert_iff empty_iff) presburger

text \<open>Wherever the server does not hold the mutex, it has done none of its work or all of it.\<close>

lemma server_outside:
  assumes "balanced False (drop k server)" "k \<le> 20"
  shows "filter is_work (prints (take k server)) = [] \<or>
    filter is_work (prints (take k server)) = prints (working 0)"
proof -
  have "k < 20 \<or> k = 20" using assms(2) by auto
  then show ?thesis using assms(1) unfolding less_20
    by (elim disjE insertE) (simp_all add: server_unfold working_def interval_0_4 busy_ms_def)
qed

lemma t2_prints_has: "rest s T2 = Print T2_has # cs \<Longrightarrow> balanced h (rest s T2) \<Longrightarrow> h"
proof -
  assume r: "rest s T2 = Print T2_has # cs" and b: "balanced h (rest s T2)"
  from r have "pc s T2 < 6" by (cases "pc s T2 < 6") (simp_all add: rest_def lengths)
  then have "pc s T2 \<in> {0,1,2,3,4,5}" by auto
  with r b show h by (auto simp: rest_def t2_def busy_ms_def)
qed

lemma rest_Cons:
  assumes "rest s t = c # cs"
  shows "drop (Suc (pc s t)) (code_of t) = cs \<and>
    take (Suc (pc s t)) (code_of t) = take (pc s t) (code_of t) @ [c] \<and>
    pc s t < length (code_of t) \<and> c \<in> set (code_of t)"
proof -
  from assms have d: "drop (pc s t) (code_of t) = c # cs" by (simp add: rest_def)
  then have l: "pc s t < length (code_of t)" by (cases "pc s t < length (code_of t)") auto
  with d have "code_of t ! pc s t = c" "drop (Suc (pc s t)) (code_of t) = cs"
    by (simp_all add: Cons_nth_drop_Suc [symmetric])
  with l show ?thesis by (auto simp: take_Suc_conv_app_nth)
qed

lemma serial_snoc:
  assumes "serial ls" "l = T2_has \<Longrightarrow> filter is_work ls = [] \<or> filter is_work ls = prints (working 0)"
  shows "serial (ls @ [l])"
  unfolding serial_def
proof (intro allI impI)
  fix xs ys assume eq: "ls @ [l] = xs @ T2_has # ys"
  show "filter is_work xs = [] \<or> filter is_work xs = prints (working 0)"
  proof (cases ys rule: rev_cases)
    case Nil
    with eq assms(2) show ?thesis by auto
  next
    case (snoc zs z)
    with eq have "ls = xs @ T2_has # zs" by (metis append.assoc append_Cons append1_eq_conv)
    with assms(1) show ?thesis unfolding serial_def by blast
  qed
qed

definition prio_inv :: "pstate \<Rightarrow> bool" where
  "prio_inv s \<longleftrightarrow> (\<forall>t. balanced (mutex s = Some t) (rest s t)) \<and>
     (\<forall>t. waits s t \<longrightarrow> (\<exists>cs. rest s t = Mutex_lock # cs) \<and> mutex s \<noteq> None) \<and>
     (\<forall>t \<in> set (to_create s). pc s t = 0 \<and> \<not> asleep s t \<and> \<not> waits s t) \<and>
     (\<forall>t. pc s t \<le> length (code_of t)) \<and>
     (\<forall>t. filter (\<lambda>l. speaker l = t) (printed s) = prints (take (pc s t) (code_of t))) \<and>
     serial (printed s)"

lemma prio_inv_start: "prio_inv prio_start"
  using balanced_code by (simp add: prio_inv_def prio_start_def rest_def serial_def)

lemma perform_inv:
  assumes inv: "prio_inv s" and run: "runnable s t"
  shows "prio_inv (perform t s)"
proof -
  from run obtain c cs where r: "rest s t = c # cs" by (cases "rest s t") (auto simp: runnable_def)
  note rc = rest_Cons [OF r]
  have up: "drop (pc s u) (code_of u) = rest s u" for u by (simp add: rest_def)
  from inv have bal: "balanced (mutex s = Some u) (rest s u)" for u by (simp add: prio_inv_def)
  from bal [of t] r have bt: "balanced (mutex s = Some t) (c # cs)" by simp
  from inv have wt: "waits s u \<Longrightarrow> \<exists>ds. rest s u = Mutex_lock # ds" for u by (simp add: prio_inv_def)
  from inv run have nt: "t \<notin> set (to_create s)" "\<not> waits s t" by (auto simp: runnable_def)
  have parts: "\<forall>u \<in> set (to_create s). pc s u = 0 \<and> \<not> asleep s u \<and> \<not> waits s u"
    "pc s u \<le> length (code_of u)" "serial (printed s)"
    "filter (\<lambda>l. speaker l = u) (printed s) = prints (take (pc s u) (code_of u))"
    "waits s u \<Longrightarrow> mutex s \<noteq> None" for u
    using inv by (simp_all add: prio_inv_def)
  show ?thesis
  proof (cases c)
    case (Print l)
    then have sp: "speaker l = t" using rc speaker_code by blast
    have "filter is_work (printed s) = [] \<or> filter is_work (printed s) = prints (working 0)"
      if "l = T2_has"
    proof -
      from that sp have T2: "t = T2" by auto
      with r Print that bal [of T2] have "mutex s = Some T2" using t2_prints_has by blast
      with bal [of Server] have "balanced False (drop (pc s Server) server)" by (simp add: rest_def)
      moreover have "filter is_work (printed s) = filter is_work (prints (take (pc s Server) server))"
      proof -
        have "filter is_work (printed s) = filter is_work (filter (\<lambda>l. speaker l = Server) (printed s))"
          using is_work_speaker by (auto intro: filter_cong)
        with parts(4) [of Server] show ?thesis by simp
      qed
      ultimately show ?thesis
        using server_outside [of "pc s Server"] parts(2) [of Server] by (simp add: lengths)
    qed
    then have "serial (printed s @ [l])" using parts(3) serial_snoc by blast
    then show ?thesis using inv nt bt rc sp Print r wt parts
      by (auto simp: prio_inv_def perform_def rest_def)
  next
    case (Nap d)
    then show ?thesis using inv nt bt rc r
      by (auto simp: prio_inv_def perform_def rest_def)
  next
    case Mutex_lock
    then show ?thesis using inv nt bt rc r
      by (auto simp: prio_inv_def perform_def rest_def)
  next
    case Mutex_unlock
    with bt have "mutex s = Some t" by simp
    then have "balanced False (rest s u)" if "u \<noteq> t" for u using bal [of u] that by simp
    with Mutex_unlock show ?thesis using inv nt bt rc r
      by (auto simp: prio_inv_def perform_def rest_def)
  qed
qed

lemma env_inv: "prio_inv s \<Longrightarrow> env_step s s' \<Longrightarrow> prio_inv s'"
  by (erule env_stepE) (auto simp: prio_inv_def rest_def)

interpretation prio_runs: inductive_invariant "\<lambda>s. s = prio_start" any_step prio_inv
proof unfold_locales
  show "prio_inv s" if "s = prio_start" for s using that prio_inv_start by simp
  show "prio_inv t" if "prio_inv s" "any_step s t" for s t
    using that(2,1) by cases (auto intro: perform_inv env_inv)
qed

subsection \<open>Every run ends\<close>

text \<open>Three units for every call still to be made, so that an unlock pays for the threads it wakes.\<close>

definition thread_measure :: "pstate \<Rightarrow> thread \<Rightarrow> nat" where
  "thread_measure s t = 3 * (length (code_of t) - pc s t) +
     (if asleep s t then 1 else 0) + (if waits s t then 0 else 1)"

definition prio_measure :: "pstate \<Rightarrow> nat" where
  "prio_measure s = thread_measure s Server + thread_measure s T1 + thread_measure s T2 + length (to_create s)"

definition final :: "pstate \<Rightarrow> bool" where
  "final s \<longleftrightarrow> to_create s = [] \<and> (\<forall>t. rest s t = [] \<and> \<not> asleep s t)"

lemma any_step_measure:
  assumes "any_step s s'"
  shows "prio_measure s' < prio_measure s"
  using assms
proof cases
  case (run t)
  then obtain c cs where r: "rest s t = c # cs" by (cases "rest s t") (auto simp: runnable_def)
  with rest_Cons have lt: "pc s t < length (code_of t)" by blast
  have nw: "\<not> waits s t" "\<not> asleep s t" using run by (auto simp: runnable_def)
  show ?thesis
    using lt nw run(1) r
    by (cases t; cases c) (auto simp: prio_measure_def thread_measure_def perform_def)
next
  case env
  then show ?thesis
  proof (cases rule: env_step.cases)
    case (wake t)
    then show ?thesis by (cases t) (auto simp: prio_measure_def thread_measure_def)
  qed (auto simp: prio_measure_def thread_measure_def)
qed

lemma any_steps_measure: "(any_step ^^ n) s s' \<Longrightarrow> n + prio_measure s' \<le> prio_measure s"
proof (induction n arbitrary: s')
  case (Suc n)
  then obtain u where "(any_step ^^ n) s u" "any_step u s'" by auto
  with Suc.IH [of u] any_step_measure [of u s'] show ?case by simp
qed simp

lemma start_measure: "prio_measure prio_start = 690"
  by (simp add: prio_measure_def thread_measure_def prio_start_def lengths)

text \<open>The one that is next: of the runnable threads, one has the highest effective priority.\<close>

lemma some_dispatched:
  assumes "runnable s t"
  shows "\<exists>u. dispatched inherit s u"
proof -
  let ?R = "{u \<in> {Server, T1, T2}. runnable s u}"
  have "t \<in> ?R" using assms by (cases t) auto
  then have "Max (eff inherit s ` ?R) \<in> eff inherit s ` ?R" by (intro Max_in) auto
  then obtain u where u: "Max (eff inherit s ` ?R) = eff inherit s u" "u \<in> ?R" by (rule imageE)
  have "eff inherit s v \<le> eff inherit s u" if "v \<in> ?R" for v
    using that by (subst u(1) [symmetric]) (intro Max_ge, auto)
  with u(2) have "dispatched inherit s u" by (auto simp: dispatched_def)
  then show ?thesis by blast
qed

lemma progress:
  assumes inv: "prio_inv s" and nf: "\<not> final s"
  shows "\<exists>s'. fifo_step inherit s s'"
proof (rule ccontr)
  assume stuck: "\<nexists>s'. fifo_step inherit s s'"
  have nr: "\<not> runnable s t" for t
    using stuck some_dispatched [of s t inherit] fifo_step.dispatch [of inherit s] by blast
  have na: "\<not> asleep s t" for t
    using stuck fifo_step.environment [of s _ inherit] env_step.wake [of s t] by blast
  have nc: "to_create s = []"
    using stuck fifo_step.environment [of s _ inherit] env_step.create [of s] by (cases "to_create s") blast+
  from nf na nc obtain t where "rest s t \<noteq> []" by (auto simp: final_def)
  with nr [of t] na nc have "waits s t" by (auto simp: runnable_def)
  then obtain u where u: "mutex s = Some u" using inv by (auto simp: prio_inv_def)
  with inv have b: "balanced True (rest s u)" unfolding prio_inv_def by metis
  then have "rest s u \<noteq> []" "\<not> waits s u" using inv by (auto simp: prio_inv_def)
  with nr [of u] na nc show False by (simp add: runnable_def)
qed

subsection \<open>Who runs while T2 is blocked\<close>

lemma blocked_by_server:
  assumes inv: "prio_inv s" and w: "waits s T2"
  shows "mutex s = Some Server \<and> \<not> waits s Server \<and> Server \<notin> set (to_create s) \<and> rest s Server \<noteq> []"
proof -
  from inv w obtain cs where cs: "rest s T2 = Mutex_lock # cs" "mutex s \<noteq> None"
    unfolding prio_inv_def by metis
  have bal: "balanced (mutex s = Some u) (rest s u)" for u using inv by (simp add: prio_inv_def)
  from bal [of T2] cs have "mutex s \<noteq> Some T2" by auto
  moreover have "mutex s \<noteq> Some T1"
  proof
    assume "mutex s = Some T1"
    with bal [of T1] have "Mutex_unlock \<in> set (rest s T1)" using balanced_needs_unlock by simp
    then show False using t1_no_unlock by (auto simp: rest_def dest: in_set_dropD)
  qed
  ultimately have m: "mutex s = Some Server" using cs(2) by (cases "mutex s"; cases "the (mutex s)") auto
  with bal [of Server] have b: "balanced True (rest s Server)" by simp
  then have "\<not> waits s Server" "rest s Server \<noteq> []" using inv by (auto simp: prio_inv_def)
  moreover have "Server \<notin> set (to_create s)"
  proof
    assume "Server \<in> set (to_create s)"
    with inv have "pc s Server = 0" by (simp add: prio_inv_def)
    with b show False by (simp add: rest_def server_unfold)
  qed
  ultimately show ?thesis using m by blast
qed

lemma eff_boosted: "waits s T2 \<Longrightarrow> mutex s = Some t \<Longrightarrow> 30 \<le> eff True s t"
  by (simp add: eff_def)

text \<open>The situation the scenarios are about: T1 gets the processor before the thread T2 waits for.\<close>

definition inversion :: "bool \<Rightarrow> pstate \<Rightarrow> bool" where
  "inversion inherit s \<longleftrightarrow> waits s T2 \<and> runnable s Server \<and> dispatched inherit s T1"

lemma no_inversion: "prio_inv s \<Longrightarrow> \<not> inversion True s"
proof
  assume inv: "prio_inv s" and i: "inversion True s"
  then have w: "waits s T2" "dispatched True s T1" "runnable s Server" by (auto simp: inversion_def)
  from blocked_by_server [OF inv w(1)] have m: "mutex s = Some Server" by blast
  from w(2,3) have "eff True s Server \<le> eff True s T1" by (simp add: dispatched_def)
  moreover have "eff True s T1 = 20" using m by (simp add: eff_def)
  ultimately show False using eff_boosted [OF w(1) m] by simp
qed

lemma t1_call:
  assumes "rest s T1 \<noteq> []" "pc s T1 \<noteq> 0" "pc s T1 \<noteq> 201"
  shows "\<exists>d cs. rest s T1 = Nap d # cs"
proof -
  from assms have k: "0 < pc s T1" "pc s T1 < 201" by (auto simp: rest_def lengths)
  then have "pc s T1 - 1 < 200" by simp
  with k(1) have "t1 ! pc s T1 = busy_ms 10" by (simp add: t1_def nth_append)
  moreover have "pc s T1 < length t1" using k by (simp add: lengths)
  ultimately show ?thesis by (simp add: rest_def busy_ms_def flip: Cons_nth_drop_Suc)
qed

text \<open>T1's calls: a line at its start and one at its end, otherwise it gives the processor up.\<close>

lemma t1_gives_up:
  assumes "runnable s T1"
  shows "asleep (perform T1 s) T1 \<or> pc s T1 = 0 \<or> rest (perform T1 s) T1 = []"
proof -
  from assms have ne: "rest s T1 \<noteq> []" by (simp add: runnable_def)
  consider "pc s T1 = 0" | "pc s T1 = 201" | "pc s T1 \<noteq> 0" "pc s T1 \<noteq> 201" by blast
  then show ?thesis
  proof cases
    case 2
    with ne obtain c cs where r: "rest s T1 = c # cs" by (cases "rest s T1") auto
    have "drop 201 t1 = [Print T1_ends]" by (simp add: t1_def)
    with 2 r have "c = Print T1_ends" "cs = []" by (auto simp: rest_def)
    with r show ?thesis using 2 by (simp add: perform_def) (simp add: rest_def lengths)
  next
    case 3
    with ne t1_call obtain d cs where "rest s T1 = Nap d # cs" by blast
    then show ?thesis by (simp add: perform_def)
  qed simp
qed

lemma t1_calls: "rest s T1 = c # cs \<Longrightarrow> (\<exists>l. c = Print l) \<or> (\<exists>d. c = Nap d)"
  using rest_Cons [of s T1 c cs] by (auto simp: t1_def busy_ms_def)

lemma perform_t1_frame:
  "waits (perform T1 s) = waits s \<and> mutex (perform T1 s) = mutex s \<and> to_create (perform T1 s) = to_create s \<and>
   asleep (perform T1 s) Server = asleep s Server \<and> rest (perform T1 s) Server = rest s Server"
proof (cases "rest s T1")
  case (Cons c cs)
  with t1_calls [OF Cons] show ?thesis by (auto simp: perform_def) (simp_all add: rest_def)
qed (simp add: perform_def)

lemma server_next:
  assumes "waits s T2" "runnable s Server" "\<not> runnable s T1"
  shows "dispatched inherit s t \<longleftrightarrow> t = Server"
  using assms by (cases t) (auto simp: dispatched_def runnable_def)

lemma can_finish: "prio_inv s \<Longrightarrow> \<exists>s'. (fifo_step inherit)\<^sup>*\<^sup>* s s' \<and> final s'"
proof (induction "prio_measure s" arbitrary: s rule: less_induct)
  case less
  show ?case
  proof (cases "final s")
    case False
    with less.prems progress obtain u where u: "fifo_step inherit s u" by blast
    then have a: "any_step s u" by (rule fifo_any)
    then have "prio_inv u" using less.prems prio_runs.inv_step by blast
    with less.hyps [OF any_step_measure [OF a]] u show ?thesis
      by (meson converse_rtranclp_into_rtranclp)
  qed blast
qed

lemma final_prints:
  "prio_inv s \<Longrightarrow> final s \<Longrightarrow> filter (\<lambda>l. speaker l = t) (printed s) = prints (code_of t)"
  by (auto simp: prio_inv_def final_def rest_def)

text \<open>A state of scenario 1 with an inversion: T2 blocked, the server ready, T1 dispatched.\<close>

definition inverted :: pstate where
  "inverted = \<lparr>pc = (\<lambda>_. 0)(Server := 4, T2 := 1), asleep = (\<lambda>_. False), waits = (\<lambda>_. False)(T2 := True),
     mutex = Some Server, to_create = [], printed = [Server_starts, Working 0 0, T2_tries]\<rparr>"

lemma star_dispatch: "dispatched i s t \<Longrightarrow> (fifo_step i)\<^sup>*\<^sup>* (perform t s) z \<Longrightarrow> (fifo_step i)\<^sup>*\<^sup>* s z"
  by (meson converse_rtranclp_into_rtranclp fifo_step.dispatch)

lemma star_env: "env_step s u \<Longrightarrow> (fifo_step i)\<^sup>*\<^sup>* u z \<Longrightarrow> (fifo_step i)\<^sup>*\<^sup>* s z"
  by (meson converse_rtranclp_into_rtranclp fifo_step.environment)

definition snapshot :: "nat \<Rightarrow> bool \<Rightarrow> nat \<Rightarrow> bool \<Rightarrow> thread option \<Rightarrow> thread list \<Rightarrow> line list \<Rightarrow> pstate" where
  "snapshot n sl m w own cr out = \<lparr>pc = (\<lambda>_. 0)(Server := n, T2 := m), asleep = (\<lambda>_. False)(Server := sl),
     waits = (\<lambda>_. False)(T2 := w), mutex = own, to_create = cr, printed = out\<rparr>"

lemma upd_order: "f(T2 := x, Server := y) = f(Server := y, T2 := x)"
  by (simp add: fun_upd_twist)

lemmas snapshot_simps = upd_order snapshot_def dispatched_def runnable_def eff_def perform_def rest_def server_unfold t2_def busy_ms_def

lemma const_upd: "(\<lambda>_. c)(x := c) = (\<lambda>_. c)"
  by (simp add: fun_eq_iff)

lemma inverted_reachable: "(fifo_step i)\<^sup>*\<^sup>* prio_start inverted"
proof -
  note d = star_dispatch [of i _ Server] star_dispatch [of i _ T2]
  have "(fifo_step i)\<^sup>*\<^sup>* (snapshot 4 False 1 True (Some Server) [T1] [Server_starts, Working 0 0, T2_tries]) inverted"
    by (rule star_env [OF env_step.create [of _ T1 "[]"]]) (simp_all add: snapshot_def inverted_def const_upd)
  then have "(fifo_step i)\<^sup>*\<^sup>* (snapshot 4 True 1 True (Some Server) [T1] [Server_starts, Working 0 0, T2_tries]) inverted"
    by - (rule star_env [OF env_step.wake [of _ Server]], simp_all add: snapshot_def)
  then have "(fifo_step i)\<^sup>*\<^sup>* (snapshot 4 True 1 False (Some Server) [T1] [Server_starts, Working 0 0, T2_tries]) inverted"
    by - (rule d(2), simp_all add: snapshot_simps)
  then have "(fifo_step i)\<^sup>*\<^sup>* (snapshot 4 True 0 False (Some Server) [T1] [Server_starts, Working 0 0]) inverted"
    by - (rule d(2), simp_all add: snapshot_simps)
  then have "(fifo_step i)\<^sup>*\<^sup>* (snapshot 4 True 0 False (Some Server) [T2, T1] [Server_starts, Working 0 0]) inverted"
    by - (rule star_env [OF env_step.create [of _ T2 "[T1]"]], simp_all add: snapshot_def)
  then have "(fifo_step i)\<^sup>*\<^sup>* (snapshot 3 False 0 False (Some Server) [T2, T1] [Server_starts, Working 0 0]) inverted"
    by - (rule d(1), simp_all add: snapshot_simps)
  then have "(fifo_step i)\<^sup>*\<^sup>* (snapshot 2 False 0 False (Some Server) [T2, T1] [Server_starts]) inverted"
    by - (rule d(1), simp_all add: snapshot_simps numeral_3_eq_3 numeral_2_eq_2)
  then have "(fifo_step i)\<^sup>*\<^sup>* (snapshot 1 False 0 False None [T2, T1] [Server_starts]) inverted"
    by - (rule d(1), simp_all add: snapshot_simps numeral_2_eq_2)
  then have "(fifo_step i)\<^sup>*\<^sup>* (snapshot 0 False 0 False None [T2, T1] []) inverted"
    by - (rule d(1), simp_all add: snapshot_simps)
  then show ?thesis
    by - (rule star_env [OF env_step.create [of _ Server "[T2, T1]"]], simp_all add: snapshot_def prio_start_def const_upd)
qed

lemma inverted_inverts: "inversion False inverted"
  by (simp add: inversion_def inverted_def dispatched_def runnable_def eff_def rest_def server_unfold t1_def)

lemma naps_valid: "Nap d \<in> set (code_of t) \<Longrightarrow> valid_ts d \<and> 0 \<le> tv_sec d"
  using ms_split_valid [of 10] ms_split_valid [of 20] ms_split_valid [of 50]
  by (cases t) (auto simp: server_unfold t1_def t2_def busy_ms_def)

subsection \<open>Properties\<close>

text \<open>
  C16. The scenarios end, whatever the scheduler does: no run has more than 690 steps, in every state
  that is not final the processor has a next step to make under \<open>SCHED_FIFO\<close> (with either kind of
  mutex), and at the end each thread has printed all of its lines in order.
\<close>

theorem inv_prio_terminates:
  assumes "(any_step ^^ n) prio_start s"
  shows "n \<le> 690 \<and> (\<not> final s \<longrightarrow> (\<exists>s'. fifo_step inherit s s')) \<and>
    (final s \<longrightarrow> filter (\<lambda>l. speaker l = t) (printed s) = prints (code_of t))"
proof -
  from assms have inv: "prio_inv s"
    using prio_runs.inv_run [of prio_start] relpowp_imp_rtranclp by metis
  have "n \<le> 690" using any_steps_measure [OF assms] by (simp add: start_measure)
  with inv show ?thesis using progress final_prints by blast
qed

theorem inv_prio_terminates_witness:
  "\<exists>n s. (any_step ^^ n) prio_start s \<and> n \<le> 690 \<and> final s \<and>
     filter (\<lambda>l. speaker l = T2) (printed s) = [T2_tries, T2_has, T2_done]"
proof -
  from can_finish [OF prio_inv_start] obtain s where s: "(fifo_step True)\<^sup>*\<^sup>* prio_start s" "final s" by blast
  from fifo_any_star [OF s(1)] obtain n where n: "(any_step ^^ n) prio_start s"
    by (auto dest: rtranclp_imp_relpowp)
  from inv_prio_terminates [OF n, of True T2] n s(2) show ?thesis by (auto simp: t2_def busy_ms_def)
qed

text \<open>
  The resource is used by one thread at a time, on any number of processors: when T2 prints that
  it has the resource, the server has printed either nothing of its eleven lines of work or all
  of them, so its critical section is never split.
\<close>

theorem resource_exclusive:
  assumes "any_step\<^sup>*\<^sup>* prio_start s" "printed s = xs @ T2_has # ys"
  shows "filter is_work xs = [] \<or> filter is_work xs = prints (working 0)"
  using prio_runs.inv_run [OF refl assms(1)] assms(2) by (auto simp: prio_inv_def serial_def)

theorem resource_exclusive_witness:
  "\<exists>s xs ys. any_step\<^sup>*\<^sup>* prio_start s \<and> printed s = xs @ T2_has # ys \<and>
     (filter is_work xs = [] \<or> filter is_work xs = prints (working 0))"
proof -
  from can_finish [OF prio_inv_start] obtain s where s: "(fifo_step True)\<^sup>*\<^sup>* prio_start s" "final s" by blast
  from fifo_any_star [OF s(1)] have r: "any_step\<^sup>*\<^sup>* prio_start s" .
  then have "filter (\<lambda>l. speaker l = T2) (printed s) = [T2_tries, T2_has, T2_done]"
    using final_prints [OF prio_runs.inv_run [OF refl] s(2), of T2] by (simp add: t2_def busy_ms_def)
  then have "T2_has \<in> set (filter (\<lambda>l. speaker l = T2) (printed s))" by simp
  then have "T2_has \<in> set (printed s)" by simp
  then obtain xs ys where "printed s = xs @ T2_has # ys" by (meson split_list)
  with resource_exclusive [OF r] r show ?thesis by blast
qed



text \<open>
  Scenario 1 does get into a priority inversion, but not into a delay worth the name: T1, which
  is meant to keep the processor busy, sleeps in every turn of its loop, so from any inversion on
  it makes at most two calls and then the processor is the server's, with T2 still waiting.
\<close>

theorem inversion_is_short:
  assumes "(fifo_step False)\<^sup>*\<^sup>* prio_start s" "inversion False s"
  shows "\<exists>k s'. 0 < k \<and> k \<le> 2 \<and> s' = (perform T1 ^^ k) s \<and> waits s' T2 \<and>
    (\<forall>t. dispatched False s' t \<longleftrightarrow> t = Server)"
proof -
  let ?f = "perform T1"
  have fr: "waits (?f u) T2 = waits u T2" "runnable (?f u) Server = runnable u Server" for u
    using perform_t1_frame [of u] by (simp_all add: runnable_def)
  from assms(2) have w: "waits s T2" "runnable s Server" "runnable s T1"
    by (auto simp: inversion_def dispatched_def)
  have stop: "\<not> runnable (?f u) T1" if "runnable u T1" "pc u T1 \<noteq> 0" for u
    using t1_gives_up [OF that(1)] that(2) by (auto simp: runnable_def)
  have next1: "\<exists>k s'. 0 < k \<and> k \<le> 2 \<and> s' = (?f ^^ k) s \<and> waits s' T2 \<and> (\<forall>t. dispatched False s' t \<longleftrightarrow> t = Server)"
    if "\<not> runnable (?f s) T1"
    using server_next [of "?f s"] fr [of s] w that by (intro exI [of _ 1] exI [of _ "?f s"]) auto
  show ?thesis
  proof (cases "runnable (?f s) T1")
    case True
    have "\<not> asleep (?f s) T1" using True by (simp add: runnable_def)
    moreover from w(3) obtain c cs where "rest s T1 = c # cs" by (cases "rest s T1") (auto simp: runnable_def)
    then have "pc (?f s) T1 \<noteq> 0" using t1_calls by (fastforce simp: perform_def)
    ultimately have "\<not> runnable (?f (?f s)) T1" using stop True by blast
    then show ?thesis
      using server_next [of "?f (?f s)"] fr [of s] fr [of "?f s"] w
      by (intro exI [of _ 2] exI [of _ "?f (?f s)"]) (auto simp: numeral_2_eq_2)
  next
    case False
    then show ?thesis by (rule next1)
  qed
qed

theorem inversion_is_short_witness:
  "(fifo_step False)\<^sup>*\<^sup>* prio_start inverted \<and> inversion False inverted \<and>
   (\<exists>k. 0 < k \<and> k \<le> 2 \<and> dispatched False ((perform T1 ^^ k) inverted) Server)"
  using inversion_is_short [OF inverted_reachable inverted_inverts] inverted_reachable inverted_inverts by blast

text \<open>
  The mains: when every call succeeds they start the server, T2 and T1 in this order under
  \<open>SCHED_FIFO\<close> with the priorities 10, 30 and 20, and the mutex inherits priorities in scenario 2
  and not in scenario 1; a failure of the mutex or of a \<open>pthread_create\<close> ends the program with
  \<open>EXIT_FAILURE\<close> and without a farewell.
\<close>

theorem scenario_mains:
  "[(t, policy a, sched_prio a). Spawn t a \<leftarrow> fst (scenario_main e (0, 0, 0) (0, 0, 0) (0, 0, 0))] =
      [(t, SCHED_FIFO, priority t). t \<leftarrow> to_create prio_start] \<and>
   Mutex Set_inherit \<in> set (fst (scenario_2 (0, 0, 0) as cs)) \<and>
   Mutex Set_inherit \<notin> set (fst (scenario_1 ms as cs)) \<and>
   (snd (scenario_main e ms as cs) = Some EXIT_SUCCESS \<longleftrightarrow>
      snd (init_resource_mutex e (fst ms) (fst (snd ms)) (snd (snd ms))) = 0 \<and> cs = (0, 0, 0)) \<and>
   (Farewell \<in> set (fst (scenario_main e ms as cs)) \<longleftrightarrow> snd (scenario_main e ms as cs) = Some EXIT_SUCCESS)"
  by (intro conjI; cases ms; cases as; cases cs;
      auto simp: scenario_main_def scenario_1_def scenario_2_def init_resource_mutex_def
        set_thread_priority_def prio_start_def Let_def)

end
