(* ===== verification/InputDevices.thy ===== *)
theory InputDevices
  imports CStrings Syscalls
begin

section \<open>Input device readers (task4/src)\<close>

text \<open>
  \<open>read_input.c\<close> prints the key events of one device, \<open>poll_inputs.c\<close> those of up to 16 devices it
  polls. What the kernel answers is an argument: the results of \<open>access\<close>, \<open>open\<close> and \<open>ioctl\<close>, and
  the successive results of \<open>read\<close> and \<open>poll\<close>. The outer \<^const>\<open>None\<close> is a \<open>%s\<close> of a buffer
  whose text has no end or was never written.
\<close>

record input_event =
  ev_type :: "16 word"
  ev_code :: "16 word"
  ev_value :: int

definition EV_KEY :: "16 word" where "EV_KEY = 1"
definition POLLIN :: "16 word" where "POLLIN = 1"
definition POLLERR :: "16 word" where "POLLERR = 8"
definition POLLHUP :: "16 word" where "POLLHUP = 16"

definition sizeof_event :: int where "sizeof_event = 24"

text \<open>What a \<open>read(fd, &ev, sizeof(ev))\<close> returns and leaves in \<open>ev\<close>.\<close>

type_synonym read_result = "int \<times> input_event"

definition event_text :: "input_event \<Rightarrow> string" where
  "event_text ev = ''type='' @ show_nat (unat (ev_type ev)) @ '', code='' @ show_nat (unat (ev_code ev)) @
     '', value='' @ show_int (ev_value ev) @ [LF]"

text \<open>The same fields in the format of \<open>poll_inputs.c\<close>.\<close>

definition polled_text :: "input_event \<Rightarrow> string" where
  "polled_text ev = ''type '' @ show_nat (unat (ev_type ev)) @ '', code '' @ show_nat (unat (ev_code ev)) @
     '', value '' @ show_int (ev_value ev) @ [LF]"

subsection \<open>read_input.c\<close>

text \<open>\<open>char name[256] = "Unknown"\<close>, what \<open>ioctl\<close> copies over it, and what \<open>%s\<close> prints of it.\<close>

definition unknown_name :: string where
  "unknown_name = ''Unknown'' @ replicate 249 NUL"

definition ioctl_into :: "string option \<Rightarrow> string \<Rightarrow> string" where
  "ioctl_into copied buf = (case copied of None \<Rightarrow> buf | Some b \<Rightarrow> b @ drop (length b) buf)"

definition print_buf :: "string \<Rightarrow> string option" where
  "print_buf buf = (if NUL \<in> set buf then Some (c_str buf) else None)"

text \<open>The loop: the lines it prints and whether it has ended.\<close>

fun read_loop :: "read_result list \<Rightarrow> string list \<times> bool" where
  "read_loop [] = ([], False)"
| "read_loop ((bytes, ev) # rs) =
     (if bytes \<noteq> sizeof_event then ([''Failed to read event''], True)
      else (let (ls, ended) = read_loop rs
            in ((if ev_type ev = EV_KEY then [''Event: '' @ event_text ev] else []) @ ls, ended)))"

definition read_input_main ::
  "int \<Rightarrow> bool \<Rightarrow> int \<Rightarrow> string option \<Rightarrow> string option \<Rightarrow> read_result list \<Rightarrow> (act list \<times> exit_status) option"
where
  "read_input_main argc readable fd nm ph reads =
    (if argc \<noteq> 2 then Some ([Message ''Usage''], Some 1)
     else if \<not> readable then Some ([Message ''No read permission for device''], Some 1)
     else if fd < 0 then Some ([Message ''Failed to open device''], Some 1)
     else do {
       name \<leftarrow> print_buf (ioctl_into nm unknown_name);
       phys \<leftarrow> print_buf (ioctl_into ph unknown_name);
       let (ls, ended) = read_loop reads;
       Some ([Opened fd] @
             (if nm = None then [Message ''ioctl EVIOCGNAME failed''] else []) @
             (if ph = None then [Message ''ioctl EVIOCGPHYS failed''] else []) @
             [Message (''Reading events from '' @ name @ '' ('' @ phys @ ''). Press Ctrl+C to exit.'' @ [LF])] @
             map Message ls @ (if ended then [Closed fd] else []),
             if ended then Some 0 else None) })"

subsection \<open>poll_inputs.c\<close>

definition MAX_DEVICES :: int where "MAX_DEVICES = 16"

text \<open>
  One entry of \<open>fds\<close> and of \<open>device_names\<close>; the name is \<^const>\<open>None\<close> where the array holds no
  terminated text, as after a failed \<open>ioctl\<close>, whose result the program does not look at.
\<close>

record polled =
  pfd :: int
  pname :: "string option"

definition device_name :: "string option \<Rightarrow> string option" where
  "device_name copied = (case copied of None \<Rightarrow> None | Some b \<Rightarrow> print_buf b)"

text \<open>Per path: its text, whether it is readable, the result of \<open>open\<close>, what \<open>ioctl\<close> copied.\<close>

type_synonym device_arg = "string \<times> bool \<times> int \<times> string option"

fun open_devices :: "device_arg list \<Rightarrow> string option \<times> polled list" where
  "open_devices [] = (None, [])"
| "open_devices ((path, readable, fd, copied) # ds) =
     (if \<not> readable then (Some path, [])
      else if fd < 0 then (Some ''Failed to open device'', [])
      else apsnd (Cons \<lparr>pfd = fd, pname = device_name copied\<rparr>) (open_devices ds))"

text \<open>
  One pass over the descriptors, with their \<open>revents\<close> and what a read of each would return: the
  lines printed, each with the descriptor that was read.
\<close>

fun poll_pass :: "(polled \<times> 16 word \<times> read_result) list \<Rightarrow> (int \<times> string) list option" where
  "poll_pass [] = Some []"
| "poll_pass ((d, revents, bytes, ev) # ds) =
     (if revents AND POLLIN \<noteq> 0 \<and> bytes = sizeof_event then do {
        n \<leftarrow> pname d;
        ls \<leftarrow> poll_pass ds;
        Some ((pfd d, ''Event from '' @ n @ '': '' @ polled_text ev) # ls) }
      else poll_pass ds)"

datatype poll_answer = Poll_failed | Polled "(16 word \<times> read_result) list"

fun poll_loop :: "polled list \<Rightarrow> poll_answer list \<Rightarrow> ((int \<times> string) list \<times> bool) option" where
  "poll_loop fds [] = Some ([], False)"
| "poll_loop fds (Poll_failed # as) = Some ([], True)"
| "poll_loop fds (Polled rs # as) = do {
     ls \<leftarrow> poll_pass (zip fds rs);
     (ls', ended) \<leftarrow> poll_loop fds as;
     Some (ls @ ls', ended) }"

definition poll_inputs_main ::
  "int \<Rightarrow> device_arg list \<Rightarrow> poll_answer list \<Rightarrow> (act list \<times> exit_status) option" where
  "poll_inputs_main argc args answers =
    (if argc < 2 then Some ([Message ''Usage''], Some 1)
     else if argc - 1 > MAX_DEVICES then Some ([Message ''Error: Too many devices. Max is 16.''], Some 1)
     else (let (err, fds) = open_devices args; opened = map (Opened \<circ> pfd) fds
           in case err of
                Some e \<Rightarrow> Some (opened @ [Message e], Some 1)
              | None \<Rightarrow> do {
                  (ls, ended) \<leftarrow> poll_loop fds answers;
                  Some (opened @ [Message (''Polling '' @ show_int (argc - 1) @
                          '' devices. Press Ctrl+C to exit.'' @ [LF])] @
                        map (Message \<circ> snd) ls @
                        (if ended then Message ''poll failed'' # map (Closed \<circ> pfd) fds else []),
                        if ended then Some 0 else None) }))"

subsection \<open>The kernel's side\<close>

text \<open>
  \<open>EVIOCGNAME(256)\<close> and \<open>EVIOCGPHYS(256)\<close> copy the text with its terminator, cut at 256 bytes.
\<close>

definition kernel_name :: "string \<Rightarrow> string" where
  "kernel_name n = take 256 (n @ [NUL])"

text \<open>
  A device is the queue of its events. \<open>poll\<close> marks it readable while the queue is not empty, and a
  read takes the first event. Before each poll some events arrive.
\<close>

definition front :: "input_event list \<Rightarrow> 16 word \<times> read_result" where
  "front q = (case q of [] \<Rightarrow> (0, - 1, \<lparr>ev_type = 0, ev_code = 0, ev_value = 0\<rparr>)
              | e # _ \<Rightarrow> (POLLIN, sizeof_event, e))"

fun device_answers :: "input_event list list list \<Rightarrow> input_event list list \<Rightarrow> poll_answer list" where
  "device_answers [] qs = []"
| "device_answers (a # as) qs =
     (let qs' = map2 (@) qs a in Polled (map front qs') # device_answers as (map tl qs'))"

fun pending :: "input_event list list list \<Rightarrow> input_event list list \<Rightarrow> input_event list list" where
  "pending [] qs = qs"
| "pending (a # as) qs = pending as (map tl (map2 (@) qs a))"

subsection \<open>Lemmas on the loops\<close>

definition key_lines :: "read_result list \<Rightarrow> string list" where
  "key_lines rs = map (\<lambda>e. ''Event: '' @ event_text e)
     (filter (\<lambda>e. ev_type e = EV_KEY) (map snd (takeWhile (\<lambda>r. fst r = sizeof_event) rs)))"

lemma read_loop_correct:
  "read_loop rs = (if \<forall>r \<in> set rs. fst r = sizeof_event then (key_lines rs, False)
     else (key_lines rs @ [''Failed to read event''], True))"
  by (induction rs rule: read_loop.induct) (auto simp: key_lines_def split: prod.splits)

lemma print_kernel_name:
  assumes "NUL \<notin> set n"
  shows "print_buf (kernel_name n) = (if length n < 256 then Some n else None)"
proof (cases "length n < 256")
  case True
  then have "kernel_name n = n @ [NUL]" by (simp add: kernel_name_def)
  with True assms show ?thesis by (simp add: print_buf_def c_str_def takeWhile_append)
next
  case False
  then have "kernel_name n = take 256 n" by (simp add: kernel_name_def)
  moreover have "NUL \<notin> set (take 256 n)" using assms in_set_takeD by fastforce
  ultimately show ?thesis using False by (simp add: print_buf_def)
qed

lemma length_unknown_name: "length unknown_name = 256"
  by (simp add: unknown_name_def)

lemma print_ioctl_name:
  assumes "NUL \<notin> set n"
  shows "print_buf (ioctl_into (Some (kernel_name n)) unknown_name) = (if length n < 256 then Some n else None)"
proof (cases "length n < 256")
  case True
  then have "kernel_name n = n @ [NUL]" by (simp add: kernel_name_def)
  with True assms show ?thesis by (simp add: print_buf_def ioctl_into_def c_str_def takeWhile_append)
next
  case False
  then have "length (kernel_name n) = 256" by (simp add: kernel_name_def)
  then have "ioctl_into (Some (kernel_name n)) unknown_name = kernel_name n"
    by (simp add: ioctl_into_def length_unknown_name)
  with print_kernel_name [OF assms] show ?thesis by simp
qed

lemma print_unknown: "print_buf (ioctl_into None unknown_name) = Some ''Unknown''"
  by (simp add: print_buf_def ioctl_into_def unknown_name_def c_str_def takeWhile_append)

lemma poll_pass_skip: "revents AND POLLIN = 0 \<Longrightarrow> poll_pass ((d, revents, x) # ds) = poll_pass ds"
  by (cases x) simp

definition event_line :: "polled \<Rightarrow> input_event \<Rightarrow> string" where
  "event_line d e = ''Event from '' @ the (pname d) @ '': '' @ polled_text e"

definition front_line :: "polled \<Rightarrow> input_event list \<Rightarrow> (int \<times> string) list" where
  "front_line d q = (case q of [] \<Rightarrow> [] | e # _ \<Rightarrow> [(pfd d, event_line d e)])"

lemma poll_pass_fronts:
  "length fds = length qs \<Longrightarrow> \<forall>d \<in> set fds. pname d \<noteq> None \<Longrightarrow>
   poll_pass (zip fds (map front qs)) = Some (concat (map2 front_line fds qs))"
  by (induction fds qs rule: list_induct2)
    (auto simp: front_def front_line_def event_line_def POLLIN_def sizeof_event_def split: list.splits)

lemma fronts_of_one:
  "length fds = length qs \<Longrightarrow> distinct (map pfd fds) \<Longrightarrow> i < length fds \<Longrightarrow>
   filter (\<lambda>l. fst l = pfd (fds ! i)) (concat (map2 front_line fds qs)) = front_line (fds ! i) (qs ! i)"
proof (induction fds qs arbitrary: i rule: list_induct2)
  case (Cons d fds q qs)
  have other: "filter (\<lambda>l. fst l = pfd d) (concat (map2 front_line fds qs)) = []"
    using Cons.prems(1) Cons.hyps
    by (auto simp: filter_empty_conv front_line_def set_zip split: list.splits) (metis image_eqI nth_mem)
  show ?case
  proof (cases i)
    case 0
    with other show ?thesis by (auto simp: front_line_def split: list.splits)
  next
    case (Suc j)
    with Cons.prems have "pfd d \<noteq> pfd (fds ! j)" by auto
    with Suc Cons show ?thesis by (auto simp: front_line_def split: list.splits)
  qed
qed simp

lemma length_pending:
  "\<forall>a \<in> set arr. length a = length qs \<Longrightarrow> length (pending arr qs) = length qs"
  by (induction arr arbitrary: qs) auto

lemma pending_append: "pending (as @ bs) qs = pending bs (pending as qs)"
  by (induction as arbitrary: qs) auto

lemma pending_quiet: "length qs = n \<Longrightarrow> pending (replicate k (replicate n [])) qs = map (drop k) qs"
proof (induction k arbitrary: qs)
  case (Suc k)
  have "map2 (@) qs (replicate n []) = qs"
    using Suc.prems by (intro nth_equalityI) auto
  with Suc show ?case by (simp add: drop_Suc)
qed (simp add: map_idI)

text \<open>What has been reported of a device and what is pending is what has arrived, in order.\<close>

lemma poll_loop_reports:
  assumes "distinct (map pfd fds)" "\<forall>d \<in> set fds. pname d \<noteq> None"
  shows "length qs = length fds \<Longrightarrow> \<forall>a \<in> set arr. length a = length fds \<Longrightarrow>
    \<exists>ls. poll_loop fds (device_answers arr qs) = Some (ls, False) \<and>
      (\<forall>i < length fds. map snd (filter (\<lambda>l. fst l = pfd (fds ! i)) ls) @
           map (event_line (fds ! i)) (pending arr qs ! i) =
         map (event_line (fds ! i)) (qs ! i @ concat (map (\<lambda>a. a ! i) arr)))"
proof (induction arr arbitrary: qs)
  case (Cons a arr)
  let ?qs = "map2 (@) qs a"
  have len: "length ?qs = length fds" "length (map tl ?qs) = length fds" using Cons.prems by auto
  from Cons.IH [OF len(2)] Cons.prems(2) obtain ls where
    ls: "poll_loop fds (device_answers arr (map tl ?qs)) = Some (ls, False)"
    "\<forall>i < length fds. map snd (filter (\<lambda>l. fst l = pfd (fds ! i)) ls) @
           map (event_line (fds ! i)) (pending arr (map tl ?qs) ! i) =
         map (event_line (fds ! i)) (map tl ?qs ! i @ concat (map (\<lambda>a. a ! i) arr))" by auto
  have "poll_loop fds (device_answers (a # arr) qs) = Some (concat (map2 front_line fds ?qs) @ ls, False)"
    using ls(1) poll_pass_fronts [of fds ?qs] len(1) assms(2) by (simp add: Let_def)
  moreover have "map snd (filter (\<lambda>l. fst l = pfd (fds ! i)) (concat (map2 front_line fds ?qs) @ ls)) @
           map (event_line (fds ! i)) (pending (a # arr) qs ! i) =
         map (event_line (fds ! i)) (qs ! i @ concat (map (\<lambda>a. a ! i) (a # arr)))" if "i < length fds" for i
  proof -
    have "?qs ! i = qs ! i @ a ! i" "map tl ?qs ! i = tl (?qs ! i)" using that Cons.prems len by simp_all
    moreover have "map snd (front_line (fds ! i) q) @ map (event_line (fds ! i)) (tl q) =
        map (event_line (fds ! i)) q" for q
      by (simp add: front_line_def split: list.splits)
    ultimately show ?thesis
      using fronts_of_one [OF len(1) [symmetric] assms(1) that] ls(2) that
      by (simp del: map_append add: map_append [of _ "tl _"] append_assoc) (metis append_assoc map_append)
  qed
  ultimately show ?case by blast
qed simp

lemma open_devices_ok:
  "open_devices ds = (None, fds) \<Longrightarrow>
   map pfd fds = map (\<lambda>(p, r, fd, c). fd) ds \<and> (\<forall>d \<in> set ds. case d of (p, r, fd, c) \<Rightarrow> r \<and> 0 \<le> fd)"
proof (induction ds arbitrary: fds rule: open_devices.induct)
  case (2 path readable fd copied ds)
  then obtain gs where "readable" "0 \<le> fd" "open_devices ds = (None, gs)" "map pfd fds = fd # map pfd gs"
    by (cases "open_devices ds") (auto split: if_splits)
  with "2.IH" show ?case by auto
qed simp

lemma opened_closed:
  "distinct xs \<Longrightarrow> set xs \<inter> S = {} \<Longrightarrow>
   open_fds (map Opened xs) S = S \<union> set xs \<and> closes_open (map Opened xs) S \<and>
   open_fds (map Closed xs) (S \<union> set xs) = S \<and> closes_open (map Closed xs) (S \<union> set xs)"
proof (induction xs arbitrary: S)
  case (Cons x xs)
  from Cons.IH [of "insert x S"] Cons.IH [of S] Cons.prems show ?case
    by (auto simp: insert_Diff_if Un_Diff)
qed simp

subsection \<open>Properties\<close>



text \<open>
  Device names: a text of fewer than 256 characters is printed as it is by both programs, and
  \<open>read_input\<close> prints Unknown after an \<open>ioctl\<close> error. A text of 256 characters or more fills the
  buffer without a terminator, and printing it reads past the buffer; and \<open>poll_inputs\<close>, which
  looks at no \<open>ioctl\<close> result, has no text to print at all after an error.
\<close>

theorem device_name_bounds:
  assumes "NUL \<notin> set n"
  shows "print_buf (ioctl_into (Some (kernel_name n)) unknown_name) = (if length n < 256 then Some n else None) \<and>
    device_name (Some (kernel_name n)) = (if length n < 256 then Some n else None) \<and>
    print_buf (ioctl_into None unknown_name) = Some ''Unknown'' \<and>
    poll_pass [(\<lparr>pfd = fd, pname = device_name None\<rparr>, POLLIN, sizeof_event, e)] = None"
  using print_ioctl_name [OF assms] print_kernel_name [OF assms] print_unknown
  by (simp add: device_name_def POLLIN_def)

theorem device_name_bounds_witness:
  "print_buf (ioctl_into (Some (kernel_name ''Touchpad'')) unknown_name) = Some ''Touchpad'' \<and>
   device_name (Some (kernel_name (replicate 256 CHR ''x''))) = None"
  using device_name_bounds [of "''Touchpad''"] device_name_bounds [of "replicate 256 CHR ''x''"] by simp



text \<open>
  \<open>poll_inputs\<close> looks at \<open>POLLIN\<close> only. A device that is unplugged makes every \<open>poll\<close> return at
  once with \<open>POLLHUP\<close> and \<open>POLLERR\<close>: the loop then runs on for as many polls as one likes, without
  reading, printing or ending, whatever a read would return.
\<close>

theorem poll_inputs_spins:
  "poll_loop fds (replicate k (Polled (map (\<lambda>d. (POLLHUP OR POLLERR, r d)) fds))) = Some ([], False)"
proof (induction k)
  case (Suc k)
  have "(POLLHUP OR POLLERR) AND POLLIN = 0" by (simp add: POLLHUP_def POLLERR_def POLLIN_def)
  then have "poll_pass (zip ds (map (\<lambda>d. (POLLHUP OR POLLERR, r d)) ds)) = Some []" for ds
    by (induction ds) (auto simp: poll_pass_skip)
  with Suc show ?case by simp
qed simp

text \<open>
  The descriptors: when \<open>poll\<close> fails the program closes every device it has opened and ends with
  status 0; when a device cannot be opened it ends with status 1.
\<close>

lemma poll_inputs_closes:
  assumes "poll_inputs_main argc args answers = Some (tr, Some ex)" "distinct (map (\<lambda>(p, r, fd, c). fd) args)"
  shows "(ex = 0 \<longrightarrow> open_fds tr {} = {} \<and> closes_open tr {}) \<and> ex \<in> {0, 1}"
proof -
  obtain err fds where o: "open_devices args = (err, fds)" by force
  have "open_fds tr {} = {} \<and> closes_open tr {}" if "ex = 0"
  proof -
    from that assms(1) o obtain ls :: "(int \<times> string) list" where e: "err = None" and
      tr: "tr = map Opened (map pfd fds) @ Message (''Polling '' @ show_int (argc - 1) @
        '' devices. Press Ctrl+C to exit.'' @ [LF]) # map (Message \<circ> snd) ls @ Message ''poll failed'' #
        map Closed (map pfd fds)"
      by (auto simp: poll_inputs_main_def Let_def split: if_splits option.splits bind_splits)
    have m: "open_fds (map (Message \<circ> snd) ls) S = S" "closes_open (map (Message \<circ> snd) ls) S" for S and ls :: "(int \<times> string) list"
      by (induction ls) auto
    from o e open_devices_ok assms(2) have "distinct (map pfd fds)" by simp
    from opened_closed [OF this, of "{}"] show ?thesis by (simp add: tr m)
  qed
  moreover have "ex \<in> {0, 1}" using assms(1) o
    by (auto simp: poll_inputs_main_def Let_def split: if_splits option.splits bind_splits)
  ultimately show ?thesis by blast
qed

end
