(* ===== verification/Latency.thy ===== *)
theory Latency
  imports Clock CMem
begin

section \<open>Page faults (task5/src/task1_latency.c, task2_mlock.c)\<close>

text \<open>
  Both programs write to one byte of each of the first 1000 pages of a large array and print, per
  access, its duration and the page faults counted by \<open>getrusage\<close>; the second one locks its memory
  and writes to every page beforehand. The virtual memory is modelled as \<open>getrusage(2)\<close> and
  \<open>mlockall(2)\<close> describe it: an access to a page that is not resident is a major fault when the page
  has been swapped out and a minor fault otherwise; locked pages are not swapped out. Only the
  pages matter: the bytes written are never read. The clock readings and the pages the kernel takes
  away before an iteration are arguments. \<^const>\<open>None\<close> is an overflow or an access out of bounds,
  \<open>Inl\<close> an exit with an error.
\<close>

definition PAGE_SIZE :: int where "PAGE_SIZE = 4096"
definition ARRAY_SIZE :: int where "ARRAY_SIZE = 512 * 1024 * 1024"
definition NUM_ITERATIONS :: nat where "NUM_ITERATIONS = 1000"

subsection \<open>Virtual memory\<close>

record vm =
  resident :: "nat set"
  swapped :: "nat set"
  locked :: bool
  minflt :: int
  majflt :: int

definition page :: "addr \<Rightarrow> nat" where
  "page a = unat a div 4096"

definition access :: "addr \<Rightarrow> vm \<Rightarrow> vm" where
  "access a v = (let p = page a in
     if p \<in> resident v then v
     else if p \<in> swapped v
     then v\<lparr>resident := insert p (resident v), swapped := swapped v - {p}, majflt := majflt v + 1\<rparr>
     else v\<lparr>resident := insert p (resident v), minflt := minflt v + 1\<rparr>)"

definition evict :: "nat set \<Rightarrow> vm \<Rightarrow> vm" where
  "evict ps v = (if locked v then v
     else v\<lparr>resident := resident v - ps, swapped := swapped v \<union> (resident v \<inter> ps)\<rparr>)"

subsection \<open>The programs\<close>

text \<open>\<open>&array[index]\<close>\<close>

definition elem :: "addr \<Rightarrow> int \<Rightarrow> addr option" where
  "elem array index = (if 0 \<le> index \<and> index < ARRAY_SIZE then Some (array + of_int index) else None)"

definition page_index :: "int \<Rightarrow> int option" where
  "page_index i = map_option (\<lambda>x. x smod ARRAY_SIZE) (i32 (i * PAGE_SIZE))"

record row =
  iter :: int
  latency :: int
  minor :: int
  major :: int

text \<open>The clock readings around the access, and the pages taken away before it, per iteration.\<close>

type_synonym environment = "int \<Rightarrow> (timespec \<times> timespec) \<times> nat set"

text \<open>\<open>task1_latency.c\<close>: the counters are read around each access.\<close>

fun latency_loop :: "environment \<Rightarrow> addr \<Rightarrow> nat \<Rightarrow> int \<Rightarrow> vm \<Rightarrow> row list option" where
  "latency_loop env array 0 i v = Some []"
| "latency_loop env array (Suc n) i v = do {
     let ((start, end), taken) = env i;
     let before = evict taken v;
     index \<leftarrow> page_index i;
     a \<leftarrow> elem array index;
     let after = access a before;
     lat \<leftarrow> timespec_diff_ns_latency start end;
     minor_faults \<leftarrow> i64 (minflt after - minflt before);
     major_faults \<leftarrow> i64 (majflt after - majflt before);
     rows \<leftarrow> latency_loop env array n (i + 1) after;
     Some (\<lparr>iter = i, latency = lat, minor = minor_faults, major = major_faults\<rparr> # rows) }"

definition task1_latency :: "addr \<Rightarrow> environment \<Rightarrow> vm \<Rightarrow> (string + row list) option" where
  "task1_latency array env v =
    (if array = NULL then Some (Inl ''malloc failed'')
     else map_option Inr (latency_loop env array NUM_ITERATIONS 0 v))"

text \<open>\<open>task2_mlock.c\<close>: the loop that touches every page; its counter is a \<open>size_t\<close>.\<close>

function prefault :: "addr \<Rightarrow> u64 \<Rightarrow> vm \<Rightarrow> vm" where
  "prefault array i v = (if i < of_int ARRAY_SIZE then prefault array (i + of_int PAGE_SIZE) (access (array + i) v) else v)"
  by pat_completeness auto

termination
proof (relation "measure (\<lambda>(array, i, v). 2 ^ 29 - unat i)")
  fix i :: u64
  assume "i < of_int ARRAY_SIZE"
  then have lt: "unat i < 2 ^ 29" by (simp add: ARRAY_SIZE_def word_less_nat_alt)
  then have "unat (i + of_int PAGE_SIZE) = unat i + 4096"
    by (simp add: PAGE_SIZE_def unat_word_ariths)
  with lt show "((array, i + of_int PAGE_SIZE, access (array + i) v), array, i, v)
      \<in> measure (\<lambda>(array, i, v). 2 ^ 29 - unat i)" for array v by simp
qed simp

declare prefault.simps [simp del]

text \<open>Here each row shows the faults since the previous one: \<open>usage_before = usage_after\<close>.\<close>

fun mlock_loop :: "environment \<Rightarrow> addr \<Rightarrow> nat \<Rightarrow> int \<Rightarrow> int \<times> int \<Rightarrow> vm \<Rightarrow> row list option" where
  "mlock_loop env array 0 i before v = Some []"
| "mlock_loop env array (Suc n) i (min_before, maj_before) v = do {
     let ((start, end), taken) = env i;
     index \<leftarrow> page_index i;
     a \<leftarrow> elem array index;
     let after = access a (evict taken v);
     lat \<leftarrow> timespec_diff_ns_mlock start end;
     minor_faults \<leftarrow> i64 (minflt after - min_before);
     major_faults \<leftarrow> i64 (majflt after - maj_before);
     rows \<leftarrow> mlock_loop env array n (i + 1) (minflt after, majflt after) after;
     Some (\<lparr>iter = i, latency = lat, minor = minor_faults, major = major_faults\<rparr> # rows) }"

text \<open>\<open>rc\<close> is the result of \<open>mlockall(MCL_CURRENT | MCL_FUTURE)\<close>, \<open>v\<close> the memory behind \<open>malloc\<close>.\<close>

definition task2_mlock :: "int \<Rightarrow> addr \<Rightarrow> environment \<Rightarrow> vm \<Rightarrow> (string + row list) option" where
  "task2_mlock rc array env v =
    (if rc \<noteq> 0 then Some (Inl ''mlockall failed. Try running with sudo.'')
     else if array = NULL then Some (Inl ''malloc failed'')
     else (let warm = prefault array 0 (v\<lparr>locked := True\<rparr>)
           in map_option Inr (mlock_loop env array NUM_ITERATIONS 0 (minflt warm, majflt warm) warm)))"

subsection \<open>The array's pages\<close>

definition fits_memory :: "addr \<Rightarrow> bool" where
  "fits_memory array \<longleftrightarrow> array \<noteq> NULL \<and> unat array + 2 ^ 29 \<le> 2 ^ 64"

definition page_addr :: "addr \<Rightarrow> nat \<Rightarrow> addr" where
  "page_addr array k = array + of_nat k * 4096"

lemma unat_offset: "k \<le> 131072 \<Longrightarrow> unat (of_nat k * 4096 :: u64) = k * 4096"
  by (simp add: unat_word_ariths unat_of_nat take_bit_nat_eq_self)

lemma unat_page_addr:
  "fits_memory array \<Longrightarrow> k < 131072 \<Longrightarrow> unat (page_addr array k) = unat array + k * 4096"
  using unat_offset [of k] unat_plus_if' [of array "of_nat k * 4096"]
  by (simp add: page_addr_def fits_memory_def)

lemma page_page_addr: "fits_memory array \<Longrightarrow> k < 131072 \<Longrightarrow> page (page_addr array k) = page array + k"
  by (simp add: page_def unat_page_addr)

lemma page_index_elem:
  assumes "k < 131072"
  shows "page_index (int k) = Some (int k * 4096) \<and> elem array (int k * 4096) = Some (page_addr array k)"
proof -
  have "int k * 4096 < 2 ^ 29" using assms by simp
  then show ?thesis
    by (simp add: page_index_def elem_def PAGE_SIZE_def ARRAY_SIZE_def chk_def fits_def smod_nonneg page_addr_def)
qed

text \<open>The pre-faulting loop touches each of the 131072 pages of the array once, in order.\<close>

lemma prefault_fold:
  "k \<le> 131072 \<Longrightarrow> prefault array (of_nat k * 4096) v = fold (\<lambda>j. access (page_addr array j)) [k..<131072] v"
proof (induction "131072 - k" arbitrary: k v)
  case 0
  then show ?case by (subst prefault.simps) (simp add: ARRAY_SIZE_def)
next
  case (Suc n)
  then have lt: "k < 131072" by simp
  then have "unat (of_nat k * 4096 :: u64) < 536870912" using unat_offset [of k] by simp
  then have "(of_nat k * 4096 :: u64) < of_int ARRAY_SIZE"
    by (simp add: word_less_nat_alt ARRAY_SIZE_def)
  moreover have "(of_nat k * 4096 :: u64) + of_int PAGE_SIZE = of_nat (Suc k) * 4096"
    by (simp add: PAGE_SIZE_def)
  ultimately have "prefault array (of_nat k * 4096) v =
      prefault array (of_nat (Suc k) * 4096) (access (page_addr array k) v)"
    by (subst prefault.simps) (simp add: page_addr_def ac_simps)
  also have "\<dots> = fold (\<lambda>j. access (page_addr array j)) [Suc k..<131072] (access (page_addr array k) v)"
    using Suc.hyps(2) lt by (intro Suc.hyps(1)) auto
  finally show ?case using lt by (simp only: upt_conv_Cons fold_simps)
qed

lemma access_resident: "resident (access a v) = insert (page a) (resident v)"
  by (auto simp: access_def Let_def)

lemma access_present: "page a \<in> resident v \<Longrightarrow> access a v = v"
  by (simp add: access_def)

lemma access_locked [simp]: "locked (access a v) = locked v"
  by (simp add: access_def Let_def)

lemma fold_access_resident:
  "resident (fold (\<lambda>j. access (f j)) js v) = resident v \<union> (page \<circ> f) ` set js"
  by (induction js arbitrary: v) (auto simp: access_resident)

lemma fold_access_locked [simp]: "locked (fold (\<lambda>j. access (f j)) js v) = locked v"
  by (induction js arbitrary: v) auto

lemma prefault_resident:
  assumes "fits_memory array" "k < 131072"
  shows "page array + k \<in> resident (prefault array 0 v)"
proof -
  have "prefault array 0 v = fold (\<lambda>j. access (page_addr array j)) [0..<131072] v"
    using prefault_fold [of 0 array v] by simp
  moreover have "page array + k = (page \<circ> page_addr array) k" using assms by (simp add: page_page_addr)
  ultimately show ?thesis using assms(2) by (simp only: fold_access_resident) auto
qed

text \<open>Clock readings that are valid and not centuries apart.\<close>

definition good_clock :: "environment \<Rightarrow> bool" where
  "good_clock env \<longleftrightarrow> (\<forall>i. valid_ts (fst (fst (env i))) \<and> valid_ts (snd (fst (env i))) \<and>
     \<bar>tv_sec (snd (fst (env i))) - tv_sec (fst (fst (env i)))\<bar> < 9223372035)"

definition duration :: "environment \<Rightarrow> int \<Rightarrow> int" where
  "duration env i = ns_of (snd (fst (env i))) - ns_of (fst (fst (env i)))"

lemma good_clock_diff: "good_clock env \<Longrightarrow> env i = ((a, b), ps) \<Longrightarrow> timespec_diff_ns a b = Some (duration env i)"
  using timespec_diff_exact [of a b] by (simp add: good_clock_def duration_def) (metis fst_conv snd_conv)

text \<open>Pages from \<open>k\<close> on that have never been touched: each access is one minor fault.\<close>

lemma latency_loop_cold:
  assumes "fits_memory array" "good_clock env"
  shows "k + n \<le> 131072 \<Longrightarrow> (resident v \<union> swapped v) \<inter> {page array + k..<page array + k + n} = {} \<Longrightarrow>
    latency_loop env array n (int k) v =
      Some (map (\<lambda>i. \<lparr>iter = int i, latency = duration env (int i), minor = 1, major = 0\<rparr>) [k..<k + n])"
proof (induction n arbitrary: k v)
  case (Suc n)
  obtain a b ps where e: "env (int k) = ((a, b), ps)" by (metis surj_pair)
  let ?before = "evict ps v" and ?p = "page array + k"
  have k: "k < 131072" using Suc.prems(1) by simp
  note pi = page_index_elem [OF k, of array]
  have ev: "resident ?before \<union> swapped ?before = resident v \<union> swapped v" by (auto simp: evict_def)
  have "?p \<in> {?p..<?p + Suc n}" by simp
  with Suc.prems(2) ev have "?p \<notin> resident ?before \<union> swapped ?before" by blast
  then have ac: "access (page_addr array k) ?before =
      ?before\<lparr>resident := insert ?p (resident ?before), minflt := minflt ?before + 1\<rparr>"
    by (simp add: access_def page_page_addr [OF assms(1) k] Let_def)
  have "(resident v \<union> swapped v) \<inter> {page array + Suc k..<page array + Suc k + n} = {}"
    using Suc.prems(2) by (auto simp: disjoint_iff)
  then have "(resident (access (page_addr array k) ?before) \<union> swapped (access (page_addr array k) ?before)) \<inter>
      {page array + Suc k..<page array + Suc k + n} = {}"
    using ev by (auto simp: ac)
  with Suc.IH [of "Suc k"] Suc.prems(1) have rec: "latency_loop env array n (int k + 1) (access (page_addr array k) ?before) =
      Some (map (\<lambda>i. \<lparr>iter = int i, latency = duration env (int i), minor = 1, major = 0\<rparr>) [Suc k..<Suc k + n])"
    by (simp add: add.commute)
  have one: "i64 1 = Some 1" "i64 0 = Some 0" by (simp_all add: c_arith)
  show ?case
    using rec pi good_clock_diff [OF assms(2) e] one
    by (simp add: e ac upt_conv_Cons del: upt_Suc)
qed simp

lemma mlock_loop_warm:
  assumes "fits_memory array" "good_clock env" "locked v" "\<forall>k < 131072. page array + k \<in> resident v"
  shows "k + n \<le> 131072 \<Longrightarrow> mlock_loop env array n (int k) (minflt v, majflt v) v =
      Some (map (\<lambda>i. \<lparr>iter = int i, latency = duration env (int i), minor = 0, major = 0\<rparr>) [k..<k + n])"
proof (induction n arbitrary: k)
  case (Suc n)
  obtain a b ps where e: "env (int k) = ((a, b), ps)" by (metis surj_pair)
  have k: "k < 131072" using Suc.prems by simp
  have "access (page_addr array k) (evict ps v) = v"
    using assms(3,4) k by (simp add: evict_def access_present page_page_addr [OF assms(1) k])
  moreover from Suc.IH [of "Suc k"] Suc.prems have "mlock_loop env array n (int k + 1) (minflt v, majflt v) v =
      Some (map (\<lambda>i. \<lparr>iter = int i, latency = duration env (int i), minor = 0, major = 0\<rparr>) [Suc k..<Suc k + n])"
    by (simp add: add.commute)
  moreover have "i64 0 = Some 0" by (simp add: c_arith)
  ultimately show ?case
    using page_index_elem [OF k, of array] good_clock_diff [OF assms(2) e]
    by (simp add: e upt_conv_Cons del: upt_Suc)
qed simp

subsection \<open>Properties\<close>

text \<open>
  C35. The pre-faulting loop of \<open>task2_mlock.c\<close> ends and is the walk over the pages: it writes to the
  first byte of every one of the 131072 pages of the array, once and in ascending order, and
  nowhere else, so that behind it all of them are resident.
\<close>

theorem prefault_touches_every_page:
  "prefault array 0 v = fold (\<lambda>j. access (page_addr array j)) [0..<131072] v \<and>
   resident (prefault array 0 v) = resident v \<union> (page \<circ> page_addr array) ` {0..<131072}"
proof -
  have "prefault array 0 v = fold (\<lambda>j. access (page_addr array j)) [0..<131072] v"
    using prefault_fold [of 0 array v] by simp
  then show ?thesis by (simp only: fold_access_resident set_upt)
qed

text \<open>
  C13. The point of the exercise. On an array none of whose pages has been touched, every one of the
  1000 accesses of \<open>task1_latency.c\<close> is one minor fault and no major one, whatever the kernel
  swaps out meanwhile; with the memory locked and warmed up, no access of \<open>task2_mlock.c\<close> is a
  fault at all, whatever malloc left resident and however the kernel tries to take pages away. In
  both programs no index leaves the array and the durations shown are exact.
\<close>

theorem mlock_removes_faults:
  assumes "fits_memory array" "good_clock env"
    and "(resident v \<union> swapped v) \<inter> {page array..<page array + 1000} = {}"
  shows "task1_latency array env v =
      Some (Inr (map (\<lambda>i. \<lparr>iter = int i, latency = duration env (int i), minor = 1, major = 0\<rparr>) [0..<1000])) \<and>
    task2_mlock 0 array env w =
      Some (Inr (map (\<lambda>i. \<lparr>iter = int i, latency = duration env (int i), minor = 0, major = 0\<rparr>) [0..<1000]))"
proof
  have nn: "array \<noteq> NULL" using assms(1) by (simp add: fits_memory_def)
  then show "task1_latency array env v =
      Some (Inr (map (\<lambda>i. \<lparr>iter = int i, latency = duration env (int i), minor = 1, major = 0\<rparr>) [0..<1000]))"
    using latency_loop_cold [OF assms(1,2), of 0 1000 v] assms(3)
    by (simp add: task1_latency_def NUM_ITERATIONS_def)
  let ?w = "prefault array 0 (w\<lparr>locked := True\<rparr>)"
  have "locked ?w"
    using prefault_fold [of 0 array "w\<lparr>locked := True\<rparr>"] by (simp del: upt_Suc)
  then show "task2_mlock 0 array env w =
      Some (Inr (map (\<lambda>i. \<lparr>iter = int i, latency = duration env (int i), minor = 0, major = 0\<rparr>) [0..<1000]))"
    using mlock_loop_warm [OF assms(1,2), of ?w 0 1000] prefault_resident [OF assms(1)] nn
    by (simp add: task2_mlock_def NUM_ITERATIONS_def Let_def)
qed

theorem mlock_removes_faults_witness:
  "\<exists>rows. task1_latency 8192 (\<lambda>i. ((\<lparr>tv_sec = 1, tv_nsec = i mod 10\<rparr>, \<lparr>tv_sec = 1, tv_nsec = 500\<rparr>), UNIV))
      \<lparr>resident = {0}, swapped = {1}, locked = False, minflt = 0, majflt = 0\<rparr> = Some (Inr rows) \<and>
    map minor rows = replicate 1000 1 \<and>
    (\<exists>rows'. task2_mlock 0 8192 (\<lambda>i. ((\<lparr>tv_sec = 1, tv_nsec = i mod 10\<rparr>, \<lparr>tv_sec = 1, tv_nsec = 500\<rparr>), UNIV))
      \<lparr>resident = {0}, swapped = {1}, locked = False, minflt = 0, majflt = 0\<rparr> = Some (Inr rows') \<and>
      map minor rows' = replicate 1000 0)"
proof -
  let ?env = "\<lambda>i. ((\<lparr>tv_sec = 1, tv_nsec = i mod 10\<rparr>, \<lparr>tv_sec = 1, tv_nsec = 500\<rparr>), UNIV)"
  let ?v = "\<lparr>resident = {0}, swapped = {1}, locked = False, minflt = 0, majflt = 0\<rparr>"
  have "good_clock ?env" by (auto simp: good_clock_def valid_ts_def)
  moreover have "fits_memory 8192" by (simp add: fits_memory_def)
  moreover have "(resident ?v \<union> swapped ?v) \<inter> {page 8192..<page 8192 + 1000} = {}" by (simp add: page_def)
  ultimately show ?thesis using mlock_removes_faults [of 8192 ?env ?v ?v]
    by (simp add: comp_def map_replicate_const)
qed

end
