(* ===== verification/PoolBenchmark.thy ===== *)
theory PoolBenchmark
  imports MempoolSpec Clock CStrings
begin

section \<open>The pool benchmark (task5/src/task3_benchmark.c)\<close>

text \<open>
  A client of the memory pool: a million timed allocations, as many frees, and the same with
  \<open>malloc\<close>. The two measuring loops differ only in the call between the clock readings, which is the
  argument \<open>al\<close> of \<open>timed_allocs\<close>; the readings are given per iteration. What the loops do to the
  pool is not proved from the pool's code again but from its contract (\<open>block_allocator\<close>, which
  theory \<open>MempoolSpec\<close> interprets on \<open>mempool.c\<close>).
\<close>

definition BENCH_ITERATIONS :: nat where "BENCH_ITERATIONS = 1000000"
definition BLOCK_SIZE :: u64 where "BLOCK_SIZE = 128"

type_synonym stopwatch = "nat \<Rightarrow> timespec \<times> timespec"

fun timed_allocs ::
  "('s \<Rightarrow> ('b \<times> 's) option) \<Rightarrow> stopwatch \<Rightarrow> nat \<Rightarrow> nat \<Rightarrow> int \<Rightarrow> 's \<Rightarrow> ('b list \<times> int \<times> 's) option" where
  "timed_allocs al clk 0 i max_latency s = Some ([], max_latency, s)"
| "timed_allocs al clk (Suc n) i max_latency s = do {
     (p, s') \<leftarrow> al s;
     latency \<leftarrow> timespec_diff_ns_benchmark (fst (clk i)) (snd (clk i));
     let max_latency = (if latency > max_latency then latency else max_latency);
     (ptrs, mx, s'') \<leftarrow> timed_allocs al clk n (Suc i) max_latency s';
     Some (p # ptrs, mx, s'') }"

definition benchmark_malloc :: "malloc_fn \<Rightarrow> free_fn \<Rightarrow> stopwatch \<Rightarrow> mem \<Rightarrow> (string \<times> mem) option" where
  "benchmark_malloc malloc cfree clk m = do {
     (ptrs, max_latency, m') \<leftarrow> timed_allocs (\<lambda>m. Some (malloc BLOCK_SIZE m)) clk BENCH_ITERATIONS 0 0 m;
     Some (''malloc/free max latency: '' @ show_int max_latency @ '' ns'' @ [LF], fold cfree ptrs m') }"

definition benchmark_mempool :: "malloc_fn \<Rightarrow> free_fn \<Rightarrow> stopwatch \<Rightarrow> mem \<Rightarrow> (string \<times> mem) option" where
  "benchmark_mempool malloc cfree clk m = do {
     (pool, m1) \<leftarrow> pool_create malloc cfree BLOCK_SIZE (of_nat BENCH_ITERATIONS) m;
     (if pool = None then Some (''Failed to create memory pool'' @ [LF], m1)
      else do {
        (ptrs, max_latency, st) \<leftarrow> timed_allocs al_pool clk BENCH_ITERATIONS 0 0 (pool, m1);
        (pool', m2) \<leftarrow> free_all fr_pool ptrs st;
        Some (''pool_alloc max latency: '' @ show_int max_latency @ '' ns'' @ [LF],
              pool_destroy cfree pool' m2) }) }"

text \<open>\<open>main\<close> with the result of \<open>mlockall\<close>: what it prints, and its status.\<close>

definition task3_main ::
  "int \<Rightarrow> malloc_fn \<Rightarrow> free_fn \<Rightarrow> stopwatch \<Rightarrow> stopwatch \<Rightarrow> mem \<Rightarrow> (string list \<times> nat) option" where
  "task3_main rc malloc cfree clk1 clk2 m =
    (if rc \<noteq> 0 then Some ([''mlockall failed. Try with sudo''], 1)
     else do {
       (t1, m1) \<leftarrow> benchmark_malloc malloc cfree clk1 m;
       (t2, m2) \<leftarrow> benchmark_mempool malloc cfree clk2 m1;
       Some ([''Benchmarking malloc/free...'' @ [LF], t1, [LF], ''Benchmarking memory pool...'' @ [LF], t2], 0) })"

subsection \<open>The measurement does not change what it measures\<close>

definition good_watch :: "stopwatch \<Rightarrow> bool" where
  "good_watch clk \<longleftrightarrow> (\<forall>i. valid_ts (fst (clk i)) \<and> valid_ts (snd (clk i)) \<and>
     \<bar>tv_sec (snd (clk i)) - tv_sec (fst (clk i))\<bar> < 9223372035)"

definition elapsed :: "stopwatch \<Rightarrow> nat \<Rightarrow> int" where
  "elapsed clk i = ns_of (snd (clk i)) - ns_of (fst (clk i))"

lemma timed_allocs_alloc_n:
  assumes "good_watch clk"
  shows "timed_allocs al clk n i mx s =
    map_option (\<lambda>(ptrs, s'). (ptrs, Max (insert mx (elapsed clk ` {i..<i + n})), s')) (alloc_n al n s)"
proof (induction n arbitrary: i mx s)
  case (Suc n)
  have d: "timespec_diff_ns (fst (clk i)) (snd (clk i)) = Some (elapsed clk i)"
    using assms by (simp add: elapsed_def good_watch_def timespec_diff_exact)
  have mx: "(if elapsed clk i > mx then elapsed clk i else mx) = max mx (elapsed clk i)"
    by (simp add: max_def)
  have "{i..<i + Suc n} = insert i {Suc i..<Suc i + n}" by auto
  then have "Max (insert mx (elapsed clk ` {i..<i + Suc n})) =
      Max (insert (max mx (elapsed clk i)) (elapsed clk ` {Suc i..<Suc i + n}))"
    by (simp add: Max_insert_max insert_commute)
  with Suc d mx show ?case
    by (cases "al s"; cases "alloc_n al n (snd (the (al s)))") (auto simp: Let_def)
qed simp

lemma pool_benchmark_run:
  assumes w: "good_watch clk" and spec: "malloc_spec malloc"
    and c: "pool_create malloc cfree BLOCK_SIZE (of_nat BENCH_ITERATIONS) m = Some (Some (a, p), m1)"
  obtains ptrs st st' where
    "timed_allocs al_pool clk BENCH_ITERATIONS 0 0 (Some (a, p), m1) =
       Some (ptrs, Max (insert 0 (elapsed clk ` {0..<BENCH_ITERATIONS})), st)"
    "length ptrs = BENCH_ITERATIONS" "distinct ptrs" "NULL \<notin> set ptrs" "al_pool st = Some (NULL, st)"
    "free_all fr_pool ptrs st = Some st'" "pool_rep BENCH_ITERATIONS st' (rev ptrs) {}"
proof -
  have n: "unat (of_nat BENCH_ITERATIONS :: u64) = BENCH_ITERATIONS"
    by (simp add: BENCH_ITERATIONS_def)
  have fit: "unat (real_block_size BLOCK_SIZE) * unat (of_nat BENCH_ITERATIONS :: u64) < 2 ^ 64"
    by (simp add: n) (simp add: BENCH_ITERATIONS_def real_block_size_def BLOCK_SIZE_def sizeof_node_def)
  let ?xs = "rev (map (block_addr p) [0..<BENCH_ITERATIONS])"
  from pool_create_inv [OF spec fit, of cfree m] c n
  have rep: "pool_rep BENCH_ITERATIONS (Some (a, p), m1) ?xs {}" by (auto simp: pool_rep_def)
  have len: "length ?xs = BENCH_ITERATIONS" by simp
  from pool_contract.alloc_free_cycle [OF rep] obtain st st' where
    st: "alloc_n al_pool BENCH_ITERATIONS (Some (a, p), m1) = Some (?xs, st)"
    "al_pool st = Some (NULL, st)" "free_all fr_pool ?xs st = Some st'" "pool_rep BENCH_ITERATIONS st' (rev ?xs) {}"
    unfolding len by blast
  from pool_contract.rep_disjoint [OF rep] pool_contract.rep_null [OF rep]
  have "distinct ?xs" "NULL \<notin> set ?xs" by auto
  moreover have "timed_allocs al_pool clk BENCH_ITERATIONS 0 0 (Some (a, p), m1) =
       Some (?xs, Max (insert 0 (elapsed clk ` {0..<BENCH_ITERATIONS})), st)"
    by (simp only: timed_allocs_alloc_n [OF w] st(1) add_0) simp
  ultimately show thesis using that [of ?xs st st'] st(2-4) len by blast
qed

lemma demo_bench_create:
  "\<exists>a p m'. pool_create demo_malloc (\<lambda>_ m. m) BLOCK_SIZE (of_nat BENCH_ITERATIONS) Map.empty = Some (Some (a, p), m')"
proof -
  have n: "unat (128 * of_nat BENCH_ITERATIONS :: u64) = 128000000"
    by (simp add: BENCH_ITERATIONS_def)
  then have "(128 * of_nat BENCH_ITERATIONS :: u64) \<noteq> 32" by auto
  with n obtain m2 where
    m2: "demo_malloc (128 * of_nat BENCH_ITERATIONS) (\<lambda>x. if x \<in> span 4096 32 then Some 0 else None) = (8192, m2)"
    using demo_malloc_region [of "128 * of_nat BENCH_ITERATIONS"] by auto
  have fit: "unat (real_block_size BLOCK_SIZE) * unat (of_nat BENCH_ITERATIONS :: u64) < 2 ^ 64"
    by (simp add: BENCH_ITERATIONS_def real_block_size_def BLOCK_SIZE_def sizeof_node_def)
  from pool_create_inv [OF demo_malloc_spec fit, of "\<lambda>_ m. m" Map.empty]
  show ?thesis
    by (auto simp: pool_create_def Let_def demo_malloc_pool m2 sizeof_node_def BLOCK_SIZE_def bind_eq_Some_conv
        split: prod.splits)
qed

subsection \<open>Properties\<close>

text \<open>
  Timing the allocations does not change them: the measuring loop of the benchmark is the plain
  allocation loop of the allocator it is given, with the same blocks and the same final state (or
  the same fault), and what it reports is the longest of the durations, or 0 if none is positive.
\<close>

theorem benchmark_is_alloc_loop:
  assumes "good_watch clk"
  shows "timed_allocs al clk n 0 0 s =
    map_option (\<lambda>(ptrs, s'). (ptrs, Max (insert 0 (elapsed clk ` {0..<n})), s')) (alloc_n al n s)"
  using timed_allocs_alloc_n [OF assms, of al n 0 0 s] by simp

theorem benchmark_is_alloc_loop_witness:
  "timed_allocs (\<lambda>s. Some (s, s + 1)) (\<lambda>i. (\<lparr>tv_sec = 1, tv_nsec = 999999990\<rparr>, \<lparr>tv_sec = 2, tv_nsec = 5\<rparr>)) 3 0 0 (7::nat) =
     Some ([7, 8, 9], 15, 10)"
proof -
  have "good_watch (\<lambda>i. (\<lparr>tv_sec = 1, tv_nsec = 999999990\<rparr>, \<lparr>tv_sec = 2, tv_nsec = 5\<rparr>))"
    by (simp add: good_watch_def valid_ts_def)
  from benchmark_is_alloc_loop [OF this, of "\<lambda>s. Some (s, s + 1)" 3 "7::nat"] show ?thesis
    by (simp add: elapsed_def ns_of_def numeral_3_eq_3)
qed

text \<open>
  C14. The pool benchmark runs through: on a pool that was created, all 1,000,000 allocations give
  different blocks and none is \<open>NULL\<close>, after which the pool is empty; every free succeeds, and at
  the end all blocks are free again, the pool handed to \<open>pool_destroy\<close> is as full as a new one, and
  the line printed shows the longest of the measured durations.
\<close>

theorem pool_benchmark_correct:
  assumes "good_watch clk" "malloc_spec malloc"
    and "pool_create malloc cfree BLOCK_SIZE (of_nat BENCH_ITERATIONS) m = Some (Some (a, p), m1)"
  shows "\<exists>ptrs mx st pool' m2.
    timed_allocs al_pool clk BENCH_ITERATIONS 0 0 (Some (a, p), m1) = Some (ptrs, mx, st) \<and>
    length ptrs = BENCH_ITERATIONS \<and> distinct ptrs \<and> NULL \<notin> set ptrs \<and> al_pool st = Some (NULL, st) \<and>
    free_all fr_pool ptrs st = Some (pool', m2) \<and> pool_rep BENCH_ITERATIONS (pool', m2) (rev ptrs) {} \<and>
    mx = Max (insert 0 (elapsed clk ` {0..<BENCH_ITERATIONS})) \<and>
    benchmark_mempool malloc cfree clk m =
      Some (''pool_alloc max latency: '' @ show_int mx @ '' ns'' @ [LF], pool_destroy cfree pool' m2)"
proof -
  obtain ptrs st st' where
    r: "timed_allocs al_pool clk BENCH_ITERATIONS 0 0 (Some (a, p), m1) =
       Some (ptrs, Max (insert 0 (elapsed clk ` {0..<BENCH_ITERATIONS})), st)"
    "length ptrs = BENCH_ITERATIONS" "distinct ptrs" "NULL \<notin> set ptrs" "al_pool st = Some (NULL, st)"
    "free_all fr_pool ptrs st = Some st'" "pool_rep BENCH_ITERATIONS st' (rev ptrs) {}"
    using pool_benchmark_run [OF assms] .
  obtain pool' m2 where st': "st' = (pool', m2)" by force
  have "benchmark_mempool malloc cfree clk m =
      Some (''pool_alloc max latency: '' @ show_int (Max (insert 0 (elapsed clk ` {0..<BENCH_ITERATIONS}))) @
        '' ns'' @ [LF], pool_destroy cfree pool' m2)"
    using assms(3) r(1,6) st' by (simp add: benchmark_mempool_def)
  with r st' show ?thesis by blast
qed

theorem pool_benchmark_correct_witness:
  "\<exists>text m2. benchmark_mempool demo_malloc (\<lambda>_ m. m)
      (\<lambda>i. (\<lparr>tv_sec = 1, tv_nsec = 100\<rparr>, \<lparr>tv_sec = 1, tv_nsec = 137\<rparr>)) Map.empty = Some (text, m2) \<and>
    text = ''pool_alloc max latency: 37 ns'' @ [LF]"
proof -
  let ?clk = "\<lambda>i. (\<lparr>tv_sec = 1, tv_nsec = 100\<rparr>, \<lparr>tv_sec = 1, tv_nsec = 137\<rparr>)"
  have g: "good_watch ?clk" by (simp add: good_watch_def valid_ts_def)
  obtain a p m1 where c: "pool_create demo_malloc (\<lambda>_ m. m) BLOCK_SIZE (of_nat BENCH_ITERATIONS) Map.empty = Some (Some (a, p), m1)"
    using demo_bench_create by blast
  have "elapsed ?clk ` {0..<BENCH_ITERATIONS} = {37}"
    by (simp add: elapsed_def ns_of_def BENCH_ITERATIONS_def image_constant_conv)
  with pool_benchmark_correct [OF g demo_malloc_spec c] show ?thesis
    by (auto simp: show_int_def show_nat.simps)
qed

end
