(* ===== verification/IpcMains.thy ===== *)
theory IpcMains
  imports MsgQueue Syscalls
begin

section \<open>The main functions of the communication programs (task3, and task2/src/mq_clean_burst.c)\<close>

text \<open>
  Set-up and tear-down of \<open>shm_producer.c\<close>, \<open>shm_consumer.c\<close>, \<open>epoll_server.c\<close>, \<open>posix_mq_server.c\<close>,
  \<open>posix_mq_client.c\<close> and \<open>mq_clean_burst.c\<close> as traces of system calls: what they open, create, close
  and unlink on every way through, the error exits included. Their loops are the subject of \<open>ShmRing\<close>, \<open>EpollServer\<close> and
  \<open>MsgQueue\<close>; here a loop contributes only what it acquires and how it ends. Mappings and semaphore
  handles are numbered like descriptors.
\<close>

subsection \<open>shm_producer.c and shm_consumer.c\<close>

definition SHM_NAME :: string where "SHM_NAME = ''/shm_example''"
definition SEM_PRODUCER :: string where "SEM_PRODUCER = ''/sem_producer_ex''"
definition SEM_CONSUMER :: string where "SEM_CONSUMER = ''/sem_consumer_ex''"

text \<open>\<open>done\<close>: a signal has ended the loop.\<close>

definition shm_producer_main ::
  "int \<Rightarrow> bool \<Rightarrow> int option \<Rightarrow> int option \<Rightarrow> int option \<Rightarrow> bool \<Rightarrow> act list \<times> exit_status" where
  "shm_producer_main shm_fd truncated mapped sem_prod sem_cons done =
    (if shm_fd = - 1 then ([Message ''shm_open''], Some EXIT_FAILURE)
     else (let tr1 = [NameCreated SHM_NAME, Opened shm_fd] in
       if \<not> truncated then (tr1 @ [Message ''ftruncate''], Some EXIT_FAILURE)
       else (case mapped of None \<Rightarrow> (tr1 @ [Message ''mmap''], Some EXIT_FAILURE)
       | Some data \<Rightarrow>
          (let tr2 = tr1 @ [Opened data, Message ''Producer: Shared memory segment created and mapped.''] in
           case sem_prod of None \<Rightarrow> (tr2 @ [Message ''sem_open producer''], Some EXIT_FAILURE)
           | Some sp \<Rightarrow>
              (let tr3 = tr2 @ [NameCreated SEM_PRODUCER, Opened sp] in
               case sem_cons of None \<Rightarrow> (tr3 @ [Message ''sem_open consumer''], Some EXIT_FAILURE)
               | Some sc \<Rightarrow>
                  (let tr4 = tr3 @ [NameCreated SEM_CONSUMER, Opened sc, Message ''Producer: Semaphores created.'']
                   in if \<not> done then (tr4, None)
                      else (tr4 @ [Message ''Producer: End of work...'', Closed data, Closed shm_fd,
                              Unlinked SHM_NAME, Closed sp, Closed sc, Unlinked SEM_PRODUCER,
                              Unlinked SEM_CONSUMER, Message ''Producer: Resources freed.''],
                            Some 0)))))))"

definition shm_consumer_main ::
  "int \<Rightarrow> int option \<Rightarrow> int option \<Rightarrow> int option \<Rightarrow> bool \<Rightarrow> act list \<times> exit_status" where
  "shm_consumer_main shm_fd mapped sem_prod sem_cons done =
    (if shm_fd = - 1 then ([Message ''shm_open''], Some EXIT_FAILURE)
     else (case mapped of None \<Rightarrow> ([Opened shm_fd, Message ''mmap''], Some EXIT_FAILURE)
       | Some data \<Rightarrow>
          (let tr1 = [Opened shm_fd, Opened data, Message ''Consumer: Shared memory segment opened and mapped.''] in
           case sem_prod of None \<Rightarrow> (tr1 @ [Message ''sem_open producer''], Some EXIT_FAILURE)
           | Some sp \<Rightarrow>
              (case sem_cons of None \<Rightarrow> (tr1 @ [Opened sp, Message ''sem_open consumer''], Some EXIT_FAILURE)
               | Some sc \<Rightarrow>
                  (let tr2 = tr1 @ [Opened sp, Opened sc, Message ''Consumer: Semaphores opened.'']
                   in if \<not> done then (tr2, None)
                      else (tr2 @ [Message ''Consumer: End of work...'', Closed data, Closed shm_fd,
                              Closed sp, Closed sc, Message ''Consumer: Resources freed.''],
                            Some 0))))))"

subsection \<open>epoll_server.c\<close>

definition SOCKET_PATH :: string where "SOCKET_PATH = ''/tmp/epoll_server.sock''"

text \<open>\<open>add_to_epoll\<close>: nothing on success, a message and the end of the program on failure.\<close>

definition add_to_epoll :: "bool \<Rightarrow> act list option" where
  "add_to_epoll ok = (if ok then None else Some [Message ''epoll_ctl ADD''])"

text \<open>What the loop meets: a failed \<open>epoll_wait\<close>, a new client with the result of registering it, a
  failed \<open>accept4\<close>, a client whose descriptor it closes, anything else.\<close>

datatype epoll_event = Wait_failed | New_client int bool | Accept_failed | Client_gone int | Served

fun epoll_loop :: "epoll_event list \<Rightarrow> act list \<times> exit_status" where
  "epoll_loop [] = ([], None)"
| "epoll_loop (Wait_failed # es) = ([Message ''epoll_wait''], Some EXIT_FAILURE)"
| "epoll_loop (New_client fd ok # es) =
     (case add_to_epoll ok of
        Some err \<Rightarrow> (Opened fd # err, Some EXIT_FAILURE)
      | None \<Rightarrow> apfst (Cons (Opened fd)) (epoll_loop es))"
| "epoll_loop (Accept_failed # es) = apfst (Cons (Message ''accept4'')) (epoll_loop es)"
| "epoll_loop (Client_gone fd # es) = apfst (Cons (Closed fd)) (epoll_loop es)"
| "epoll_loop (Served # es) = epoll_loop es"

text \<open>The results of \<open>socket\<close>, \<open>bind\<close>, \<open>listen\<close>, \<open>epoll_create1\<close>, \<open>eventfd\<close> and the two registrations. The
  statements behind the endless loop have no counterpart.\<close>

definition epoll_main ::
  "int \<Rightarrow> bool \<Rightarrow> bool \<Rightarrow> int \<Rightarrow> int \<Rightarrow> bool \<Rightarrow> bool \<Rightarrow> epoll_event list \<Rightarrow> act list \<times> exit_status" where
  "epoll_main server_fd bound listening epoll_fd event_fd added1 added2 es =
    (let tr0 = [Unlinked SOCKET_PATH] in
     if server_fd = - 1 then (tr0 @ [Message ''socket''], Some EXIT_FAILURE)
     else (let tr1 = tr0 @ [Opened server_fd] in
       if \<not> bound then (tr1 @ [Message ''bind''], Some EXIT_FAILURE)
       else (let tr2 = tr1 @ [NameCreated SOCKET_PATH] in
         if \<not> listening then (tr2 @ [Message ''listen''], Some EXIT_FAILURE)
         else if epoll_fd = - 1 then (tr2 @ [Message ''epoll_create1''], Some EXIT_FAILURE)
         else (let tr3 = tr2 @ [Opened epoll_fd] in
           if event_fd = - 1 then (tr3 @ [Message ''eventfd''], Some EXIT_FAILURE)
           else (let tr4 = tr3 @ [Opened event_fd] in
             case add_to_epoll added1 of Some err \<Rightarrow> (tr4 @ err, Some EXIT_FAILURE)
             | None \<Rightarrow> (case add_to_epoll added2 of Some err \<Rightarrow> (tr4 @ err, Some EXIT_FAILURE)
             | None \<Rightarrow> (let (as, ex) = epoll_loop es in (tr4 @ as, ex))))))))"

subsection \<open>posix_mq_server.c and posix_mq_client.c\<close>

definition SERVER_QUEUE_NAME :: string where "SERVER_QUEUE_NAME = ''/mq_server_ex''"
definition CLIENT_QUEUE_NAME :: string where "CLIENT_QUEUE_NAME = ''/mq_client_ex''"

text \<open>Per message received, the result of opening the client's queue; \<^const>\<open>None\<close>: a failed receive.\<close>

fun mq_server_loop :: "int option list \<Rightarrow> act list" where
  "mq_server_loop [] = []"
| "mq_server_loop (None # rs) = Message ''mq_receive'' # mq_server_loop rs"
| "mq_server_loop (Some mq_client # rs) =
     (if mq_client = - 1 then [Message ''mq_open (client)''] else [Opened mq_client, Closed mq_client]) @
     mq_server_loop rs"

definition mq_server_main :: "int \<Rightarrow> int option list \<Rightarrow> act list \<times> exit_status" where
  "mq_server_main mq_server rs =
    (let tr = [Unlinked SERVER_QUEUE_NAME, Unlinked CLIENT_QUEUE_NAME] in
     if mq_server = - 1 then (tr @ [Message ''mq_open (server)''], Some 1)
     else (tr @ [NameCreated SERVER_QUEUE_NAME, Opened mq_server] @ mq_server_loop rs, None))"

text \<open>Per message, whether it was sent and whether an answer came.\<close>

definition mq_client_main :: "int \<Rightarrow> int \<Rightarrow> (bool \<times> bool) list \<Rightarrow> act list \<times> exit_status" where
  "mq_client_main mq_server mq_client rs =
    (if mq_server = - 1 then ([Message ''mq_open (server)''], Some 1)
     else if mq_client = - 1 then ([Opened mq_server, Message ''mq_open (client)''], Some 1)
     else (let tr = [Opened mq_server, NameCreated CLIENT_QUEUE_NAME, Opened mq_client] @
                  map (\<lambda>(sent, answered). Message (if \<not> sent then ''mq_send''
                         else if answered then ''Received answer'' else ''mq_receive'')) (take 3 rs)
           in if length rs < 3 then (tr, None)
              else (tr @ [Closed mq_server, Closed mq_client, Unlinked CLIENT_QUEUE_NAME], Some 0)))"

subsection \<open>mq_clean_burst.c\<close>

definition BURST_QUEUE :: string where "BURST_QUEUE = ''/rt_burst_demo''"

definition quoted :: "string \<Rightarrow> string" where
  "quoted m = CHR 0x27 # c_str m @ [CHR 0x27]"

text \<open>Main around the receive and the drain loop (\<open>burst_main\<close>).\<close>

definition mq_clean_burst_main ::
  "int option \<Rightarrow> bool \<Rightarrow> nat \<Rightarrow> burst_event list \<Rightarrow> (act list \<times> exit_status) option" where
  "mq_clean_burst_main mqd created n es = (case mqd of
     None \<Rightarrow> Some ([Message ''mq_open failed''], Some EXIT_FAILURE)
   | Some fd \<Rightarrow>
      if \<not> created
      then Some ([NameCreated BURST_QUEUE, Opened fd, Message ''pthread_create failed'', Closed fd, Unlinked BURST_QUEUE],
                 Some EXIT_FAILURE)
      else do {
        (first, ds) \<leftarrow> burst_main n es;
        Some ([NameCreated BURST_QUEUE, Opened fd,
               Message (''Received first message: '' @ quoted first),
               Message (''Draining the rest of the burst: '' @ concat (map (\<lambda>d. quoted d @ '' '') ds)),
               Message (''Drained '' @ show_nat (length ds) @ '' more messages.''),
               Closed fd, Unlinked BURST_QUEUE], Some EXIT_SUCCESS) })"

subsection \<open>Properties\<close>

lemma epoll_loop_names: "live_names (fst (epoll_loop es)) N = N \<and> snd (epoll_loop es) \<noteq> Some 0"
  by (induction es arbitrary: N rule: epoll_loop.induct) (auto simp: add_to_epoll_def)

lemma mq_server_loop_fds:
  "mq \<in> S \<Longrightarrow> (\<forall>c. Some c \<in> set rs \<longrightarrow> c \<notin> S) \<Longrightarrow>
   open_fds (mq_server_loop rs) S = S \<and> live_names (mq_server_loop rs) N = N \<and> closes_open (mq_server_loop rs) S"
  by (induction rs rule: mq_server_loop.induct) auto

lemma ipc_names [simp]:
  "SHM_NAME \<noteq> SEM_PRODUCER" "SHM_NAME \<noteq> SEM_CONSUMER" "SEM_PRODUCER \<noteq> SHM_NAME"
  "SEM_CONSUMER \<noteq> SHM_NAME" "SEM_PRODUCER \<noteq> SEM_CONSUMER" "SEM_CONSUMER \<noteq> SEM_PRODUCER"
  by (simp_all add: SHM_NAME_def SEM_PRODUCER_def SEM_CONSUMER_def)

lemma producer_success:
  assumes "shm_producer_main shm_fd tr mp sp sc d = (acts, Some 0)"
  shows "\<exists>m p c. mp = Some m \<and> sp = Some p \<and> sc = Some c \<and>
    acts = [NameCreated SHM_NAME, Opened shm_fd, Opened m, Message ''Producer: Shared memory segment created and mapped.'',
      NameCreated SEM_PRODUCER, Opened p, NameCreated SEM_CONSUMER, Opened c, Message ''Producer: Semaphores created.'',
      Message ''Producer: End of work...'', Closed m, Closed shm_fd, Unlinked SHM_NAME, Closed p, Closed c,
      Unlinked SEM_PRODUCER, Unlinked SEM_CONSUMER, Message ''Producer: Resources freed.'']"
  using assms
  by (cases mp; cases sp; cases sc) (simp_all add: shm_producer_main_def Let_def split: if_splits)

lemma producer_failure:
  assumes "shm_producer_main shm_fd tr mp sp sc d = (acts, Some ex)" "ex \<noteq> 0" "shm_fd \<noteq> - 1"
  shows "SHM_NAME \<in> live_names acts N"
  using assms
  by (cases mp; cases sp; cases sc) (simp_all add: shm_producer_main_def Let_def split: if_splits, auto)

lemma consumer_names: "live_names (fst (shm_consumer_main shm_fd mp sp sc d)) N = N"
  by (cases mp; cases sp; cases sc) (simp_all add: shm_consumer_main_def Let_def)

lemma consumer_success:
  assumes "shm_consumer_main shm_fd mp sp sc d = (acts, Some 0)"
  shows "\<exists>m p c. mp = Some m \<and> sp = Some p \<and> sc = Some c \<and>
    acts = [Opened shm_fd, Opened m, Message ''Consumer: Shared memory segment opened and mapped.'',
      Opened p, Opened c, Message ''Consumer: Semaphores opened.'', Message ''Consumer: End of work...'',
      Closed m, Closed shm_fd, Closed p, Closed c, Message ''Consumer: Resources freed.'']"
  using assms
  by (cases mp; cases sp; cases sc) (simp_all add: shm_consumer_main_def Let_def split: if_splits)

text \<open>
  The producer cleans up after itself only when it gets through: when the loop ends it has closed
  every handle exactly once and removed its three names, and the consumer closes all of its handles
  and creates and removes no name. But every error exit of the producer behind \<open>shm_open\<close> leaves
  the segment's name behind, and with it what the next run finds under that name.
\<close>

theorem shm_mains_release:
  assumes "shm_producer_main shm_fd tr mp sp sc d = (acts, Some ex)" "distinct (shm_fd # List.map_filter id [mp, sp, sc])"
    and "shm_consumer_main shm_fd mp sp sc d' = (acts', ex')"
  shows "(ex = 0 \<longrightarrow> open_fds acts {} = {} \<and> closes_open acts {} \<and>
      live_names acts N = N - {SHM_NAME, SEM_PRODUCER, SEM_CONSUMER}) \<and>
    (ex \<noteq> 0 \<and> shm_fd \<noteq> - 1 \<longrightarrow> SHM_NAME \<in> live_names acts N) \<and>
    (ex' = Some 0 \<longrightarrow> open_fds acts' {} = {} \<and> closes_open acts' {}) \<and> live_names acts' N = N"
proof (intro conjI impI)
  assume "ex = 0"
  with assms(1) producer_success obtain m p c where a: "mp = Some m" "sp = Some p" "sc = Some c"
    "acts = [NameCreated SHM_NAME, Opened shm_fd, Opened m, Message ''Producer: Shared memory segment created and mapped.'',
      NameCreated SEM_PRODUCER, Opened p, NameCreated SEM_CONSUMER, Opened c, Message ''Producer: Semaphores created.'',
      Message ''Producer: End of work...'', Closed m, Closed shm_fd, Unlinked SHM_NAME, Closed p, Closed c,
      Unlinked SEM_PRODUCER, Unlinked SEM_CONSUMER, Message ''Producer: Resources freed.'']" by metis
  then have "distinct [shm_fd, m, p, c]" using assms(2) by (simp add: List.map_filter_simps)
  then show "open_fds acts {} = {}" "closes_open acts {}"
    "live_names acts N = N - {SHM_NAME, SEM_PRODUCER, SEM_CONSUMER}" unfolding a(4) by auto
next
  assume "ex \<noteq> 0 \<and> shm_fd \<noteq> - 1"
  with assms(1) producer_failure show "SHM_NAME \<in> live_names acts N" by blast
next
  assume "ex' = Some 0"
  with assms(3) consumer_success obtain m p c where a: "mp = Some m" "sp = Some p" "sc = Some c"
    "acts' = [Opened shm_fd, Opened m, Message ''Consumer: Shared memory segment opened and mapped.'',
      Opened p, Opened c, Message ''Consumer: Semaphores opened.'', Message ''Consumer: End of work...'',
      Closed m, Closed shm_fd, Closed p, Closed c, Message ''Consumer: Resources freed.'']" by metis
  then have "distinct [shm_fd, m, p, c]" using assms(2) by (simp add: List.map_filter_simps)
  then show "open_fds acts' {} = {}" "closes_open acts' {}" unfolding a(4) by auto
next
  show "live_names acts' N = N" using assms(3) consumer_names [of shm_fd mp sp sc d'] by simp
qed

theorem shm_mains_release_witness:
  "live_names (fst (shm_producer_main 3 True (Some 4) (Some 5) (Some 6) True)) {''x''} = {''x''} \<and>
   SHM_NAME \<in> live_names (fst (shm_producer_main 3 True (Some 4) None None True)) {}"
proof -
  obtain acts where a: "shm_producer_main 3 True (Some 4) (Some 5) (Some 6) True = (acts, Some 0)"
    by (simp add: shm_producer_main_def)
  obtain acts1 where b: "shm_producer_main 3 True (Some 4) None None True = (acts1, Some EXIT_FAILURE)"
    by (simp add: shm_producer_main_def)
  obtain acts' ex' where c: "shm_consumer_main 3 (Some 4) (Some 5) (Some 6) True = (acts', ex')" by force
  obtain acts2 ex2 where d: "shm_consumer_main 3 (Some 4) None None True = (acts2, ex2)" by force
  from shm_mains_release [OF a _ c, of "{''x''}"] shm_mains_release [OF b _ d, of "{}"] a b
  show ?thesis
    by (simp add: List.map_filter_simps SHM_NAME_def SEM_PRODUCER_def SEM_CONSUMER_def)
qed

text \<open>
  The cleanup code of the servers is dead: \<open>epoll_server.c\<close> has no way out with status 0, and
  every way out behind \<open>bind\<close> leaves its socket in the file system; \<open>posix_mq_server.c\<close> ends only
  when it cannot open its queue, holds exactly that queue's descriptor however many clients it
  serves, and never removes its name. Only the message queue client cleans up.
\<close>

theorem servers_never_clean_up:
  assumes "epoll_main sfd True listening efd vfd a1 a2 es = (acts, ex)" "sfd \<noteq> - 1"
    and "mq_server_main q rs = (acts1, ex1)" "q \<noteq> - 1" "\<forall>c. Some c \<in> set rs \<longrightarrow> c \<noteq> q"
    and "mq_client_main q c answers = (acts2, Some 0)" "c \<noteq> q"
  shows "ex \<noteq> Some 0 \<and> SOCKET_PATH \<in> live_names acts N \<and>
    ex1 = None \<and> open_fds acts1 {} = {q} \<and> SERVER_QUEUE_NAME \<in> live_names acts1 N \<and>
    open_fds acts2 {} = {} \<and> closes_open acts2 {} \<and> live_names acts2 N = N - {CLIENT_QUEUE_NAME}"
proof (intro conjI)
  have ep: "ex \<noteq> Some 0 \<and> SOCKET_PATH \<in> live_names acts N"
    using assms(1,2) epoll_loop_names [of es]
    by (auto simp: epoll_main_def add_to_epoll_def Let_def split: if_splits prod.splits) 
  then show "ex \<noteq> Some 0" "SOCKET_PATH \<in> live_names acts N" by auto
  have loop: "open_fds (mq_server_loop rs) {q} = {q} \<and> live_names (mq_server_loop rs) N = N" for N
    using mq_server_loop_fds [of q "{q}" rs N] assms(5) by auto
  then show "ex1 = None" "open_fds acts1 {} = {q}" "SERVER_QUEUE_NAME \<in> live_names acts1 N"
    using assms(3,4) by (auto simp: mq_server_main_def Let_def SERVER_QUEUE_NAME_def CLIENT_QUEUE_NAME_def)
  have msg: "open_fds (map (\<lambda>(s, a). Message (f s a)) xs) S = S"
    "live_names (map (\<lambda>(s, a). Message (f s a)) xs) N = N"
    "closes_open (map (\<lambda>(s, a). Message (f s a)) xs) S" for f and xs :: "(bool \<times> bool) list" and S N
    by (induction xs) auto
  show "open_fds acts2 {} = {}" "closes_open acts2 {}" "live_names acts2 N = N - {CLIENT_QUEUE_NAME}"
    using assms(4,6,7) by (auto simp: mq_client_main_def Let_def msg split: if_splits)
qed

theorem servers_never_clean_up_witness:
  "SOCKET_PATH \<in> live_names (fst (epoll_main 3 True True 4 5 True True [New_client 6 True, Client_gone 6, Wait_failed])) {} \<and>
   open_fds (fst (mq_server_main 7 [Some 8, None, Some (- 1)])) {} = {7}"
proof -
  obtain acts ex where a: "epoll_main 3 True True 4 5 True True [New_client 6 True, Client_gone 6, Wait_failed] = (acts, ex)"
    by force
  obtain acts1 ex1 where b: "mq_server_main 7 [Some 8, None, Some (- 1)] = (acts1, ex1)" by force
  obtain acts2 where c: "mq_client_main 7 8 [(True, True), (True, True), (True, True)] = (acts2, Some 0)"
    by (simp add: mq_client_main_def)
  from servers_never_clean_up [OF a _ b _ _ c, of "{}"] a b show ?thesis by simp
qed

text \<open>
  \<open>mq_clean_burst.c\<close> closes and removes its queue on every way out behind \<open>mq_open\<close>; when it gets
  through, the first message it shows is the first of the burst, and the number it prints is the
  number of messages it has shown behind it.
\<close>

theorem mq_clean_burst_releases:
  assumes "mq_clean_burst_main (Some fd) created n es = Some (tr, ex)"
    and "0 < n" "n \<le> 7" "arrivals es = drop n burst_messages"
  shows "open_fds tr {} = {} \<and> closes_open tr {} \<and> live_names tr N = N - {BURST_QUEUE} \<and>
    (ex = Some EXIT_SUCCESS \<longleftrightarrow> created) \<and>
    (created \<longrightarrow> Message (''Received first message: '' @ quoted ''msg-0'') \<in> set tr \<and>
       (\<exists>k. n - 1 \<le> k \<and> k \<le> 6 \<and> Message (''Drained '' @ show_nat k @ '' more messages.'') \<in> set tr))"
proof (cases created)
  case True
  with assms(1) obtain first ds where b: "burst_main n es = Some (first, ds)" and
    tr: "tr = [NameCreated BURST_QUEUE, Opened fd, Message (''Received first message: '' @ quoted first),
       Message (''Draining the rest of the burst: '' @ concat (map (\<lambda>d. quoted d @ '' '') ds)),
       Message (''Drained '' @ show_nat (length ds) @ '' more messages.''), Closed fd, Unlinked BURST_QUEUE]" and
    ex: "ex = Some EXIT_SUCCESS"
    by (auto simp: mq_clean_burst_main_def bind_eq_Some_conv)
  from burst_main_correct [OF assms(2-4) b] obtain k where
    first: "first = hd burst_messages" and ds: "ds = take k (tl burst_messages)" "n - 1 \<le> length ds" by blast
  have "quoted first = quoted ''msg-0''"
    by (simp add: first quoted_def burst_messages_def upt_rec show_nat.simps c_str_def)
  moreover have "length ds \<le> 6" by (simp add: ds(1) burst_messages_def)
  ultimately show ?thesis using True ds(2) ex unfolding tr by auto
qed (use assms(1) in \<open>auto simp: mq_clean_burst_main_def\<close>)

theorem mq_clean_burst_releases_witness:
  "\<exists>tr ex. mq_clean_burst_main (Some 3) True 7 (replicate 7 Poll) = Some (tr, ex) \<and> open_fds tr {} = {} \<and>
     Message (''Received first message: '' @ quoted ''msg-0'') \<in> set tr"
proof -
  have "arrivals (replicate n Poll) = []" for n by (induction n) auto
  then have a: "arrivals (replicate 7 Poll) = drop 7 burst_messages" by (simp add: burst_messages_def)
  have "burst_main 7 (replicate 7 Poll) \<noteq> None"
    by (simp add: burst_main_def burst_messages_def mq_send_def mq_create_def enqueue_def mq_receive_def
        show_nat.simps replicate_numeral upt_rec)
  then obtain tr ex where r: "mq_clean_burst_main (Some 3) True 7 (replicate 7 Poll) = Some (tr, ex)"
    by (auto simp: mq_clean_burst_main_def)
  from mq_clean_burst_releases [OF r _ _ a] r show ?thesis by (intro exI [of _ tr] exI [of _ ex]) simp
qed

end
