(* ===== verification/RelativeSleep.thy ===== *)
theory RelativeSleep
  imports Periodic CStrings
begin

section \<open>Relative sleeps and clock ticks (task2: calctime2.c for other systems, calctime1.c)\<close>

text \<open>
  The branch of \<open>calctime2.c\<close> for systems without absolute sleeps, and main of \<open>calctime1.c\<close>. The
  readings of the clock are arguments; the results of \<open>nanosleep\<close> are not looked at by the program.
  Theory \<open>Periodic\<close> shows that absolute sleeps do not drift; here the lateness of every sleep stays.
\<close>

subsection \<open>calctime2.c, relative sleeps\<close>

text \<open>The loop over the readings behind each sleep, from the previous one.\<close>

fun relative_loop :: "timespec list \<Rightarrow> timespec \<Rightarrow> int \<times> int \<times> int \<Rightarrow> (int \<times> int \<times> int) option" where
  "relative_loop [] prev acc = Some acc"
| "relative_loop (now # rest) prev (min_ns, max_ns, sum_ns) = do {
     delta \<leftarrow> timespec_diff_ns prev now;
     let min_ns = (if delta < min_ns then delta else min_ns);
     let max_ns = (if delta > max_ns then delta else max_ns);
     sum_ns \<leftarrow> i64 (sum_ns + delta);
     relative_loop rest now (min_ns, max_ns, sum_ns) }"

definition num_samples :: nat where "num_samples = 5000"

text \<open>Minimum, maximum and sum, which the program prints with the average.\<close>

definition relative_main :: "timespec \<Rightarrow> timespec list \<Rightarrow> (int \<times> int \<times> int) option" where
  "relative_main start readings =
    (if length readings < num_samples then None
     else relative_loop (take num_samples readings) start (999999999, 0, 0))"

text \<open>The differences of successive readings.\<close>

fun gaps :: "timespec \<Rightarrow> timespec list \<Rightarrow> int list" where
  "gaps prev [] = []"
| "gaps prev (now # rest) = (ns_of now - ns_of prev) # gaps now rest"

lemma length_gaps [simp]: "length (gaps prev rs) = length rs"
  by (induction prev rs rule: gaps.induct) auto

lemma sum_gaps: "sum_list (gaps prev rs) = ns_of (last (prev # rs)) - ns_of prev"
  by (induction prev rs rule: gaps.induct) auto

text \<open>Valid readings, none before and none more than a day behind the one before it.\<close>

fun ordered :: "timespec \<Rightarrow> timespec list \<Rightarrow> bool" where
  "ordered prev [] \<longleftrightarrow> valid_ts prev"
| "ordered prev (now # rest) \<longleftrightarrow> valid_ts prev \<and> ns_of prev \<le> ns_of now \<and>
     ns_of now - ns_of prev \<le> 86400000000000 \<and> ordered now rest"

lemma ordered_diff:
  assumes "valid_ts a" "valid_ts b" "ns_of a \<le> ns_of b" "ns_of b - ns_of a \<le> 86400000000000"
  shows "timespec_diff_ns a b = Some (ns_of b - ns_of a)"
proof -
  have "\<bar>tv_sec b - tv_sec a\<bar> < 9223372035" using assms by (auto simp: valid_ts_def ns_of_def)
  with timespec_diff_exact [OF assms(1,2)] show ?thesis .
qed

lemma relative_loop_stats: "ordered prev rs \<Longrightarrow> relative_loop rs prev acc = stats_loop (gaps prev rs) acc"
proof (induction rs arbitrary: prev acc)
  case (Cons now rest)
  then have "valid_ts now" by (cases rest) auto
  with Cons show ?case by (cases acc) (simp add: ordered_diff Let_def)
qed simp

lemma ordered_gaps: "ordered prev rs \<Longrightarrow> \<forall>d \<in> set (gaps prev rs). 0 \<le> d \<and> d < 2 ^ 50"
  by (induction rs arbitrary: prev) auto

lemma gaps_lateness:
  "i < length rs \<Longrightarrow> ns_of (rs ! i) - (ns_of prev + (int i + 1) * p) =
     sum_list (map (\<lambda>d. d - p) (take (Suc i) (gaps prev rs)))"
proof (induction rs arbitrary: prev i)
  case (Cons now rest)
  show ?case
  proof (cases i)
    case (Suc j)
    with Cons.prems have "ns_of (rest ! j) - (ns_of now + (int j + 1) * p) =
        sum_list (map (\<lambda>d. d - p) (take (Suc j) (gaps now rest)))" by (intro Cons.IH) simp
    with Suc show ?thesis by (simp add: algebra_simps)
  qed simp
qed simp

subsection \<open>calctime1.c\<close>

definition NumSamples :: nat where "NumSamples = 10"

text \<open>\<open>%09ld\<close>\<close>

definition pad9 :: "int \<Rightarrow> string" where
  "pad9 i = (let s = show_nat (nat \<bar>i\<bar>)
     in if i < 0 then CHR ''-'' # replicate (8 - length s) CHR ''0'' @ s
        else replicate (9 - length s) CHR ''0'' @ s)"

definition tick_line :: "timespec \<Rightarrow> timespec \<Rightarrow> u64 \<Rightarrow> string" where
  "tick_line prev now delta =
     ''prev '' @ show_int (tv_sec prev) @ ''.'' @ pad9 (tv_nsec prev) @
     '', new '' @ show_int (tv_sec now) @ ''.'' @ pad9 (tv_nsec now) @
     '', delta '' @ show_nat (unat delta) @ '' ns'' @ [LF]"

text \<open>Per round the first reading and the ones of the inner loop.\<close>

fun calctime1_loop :: "nat \<Rightarrow> (timespec \<times> timespec list) list \<Rightarrow> string list option" where
  "calctime1_loop 0 env = Some []"
| "calctime1_loop (Suc n) [] = None"
| "calctime1_loop (Suc n) ((prev, readings) # env) = do {
     now \<leftarrow> next_change prev readings;
     ls \<leftarrow> calctime1_loop n env;
     Some (tick_line prev now (clock_delta prev now) # ls) }"

definition calctime1_main :: "(timespec \<times> timespec list) list \<Rightarrow> string list option" where
  "calctime1_main env = map_option (\<lambda>ls.
     [LF # ''Measuring the minimum possible delta for CLOCK_REALTIME:'' @ [LF]] @ ls @
     [LF # ''calctime1: End of work.'' @ [LF]]) (calctime1_loop NumSamples env)"

text \<open>
  What a round shall print: the first reading that differs from \<open>prev\<close>, and the step between them in
  nanoseconds.
\<close>

definition tick_shown :: "timespec \<times> timespec list \<Rightarrow> string" where
  "tick_shown = (\<lambda>(prev, readings). (let now = hd (dropWhile (\<lambda>r. r = prev) readings)
     in ''prev '' @ show_int (tv_sec prev) @ ''.'' @ pad9 (tv_nsec prev) @
        '', new '' @ show_int (tv_sec now) @ ''.'' @ pad9 (tv_nsec now) @
        '', delta '' @ show_int (ns_of now - ns_of prev) @ '' ns'' @ [LF]))"

definition forward :: "timespec \<times> timespec list \<Rightarrow> bool" where
  "forward = (\<lambda>(prev, readings). \<exists>now \<in> set readings. now \<noteq> prev \<and>
     (let new = hd (dropWhile (\<lambda>r. r = prev) readings) in ns_of prev \<le> ns_of new \<and> ns_of new - ns_of prev < 2 ^ 63))"

lemma next_change_dropWhile:
  "\<exists>now \<in> set readings. now \<noteq> prev \<Longrightarrow>
   next_change prev readings = Some (hd (dropWhile (\<lambda>r. r = prev) readings))"
  by (induction readings) (auto simp: timespec_eq_iff)

lemma round_text:
  assumes "forward (prev, readings)" "now = hd (dropWhile (\<lambda>r. r = prev) readings)"
  shows "next_change prev readings = Some now \<and>
    tick_line prev now (clock_delta prev now) = tick_shown (prev, readings)"
proof -
  let ?d = "ns_of now - ns_of prev"
  from assms have d: "0 \<le> ?d" "?d < 2 ^ 63" and c: "\<exists>now \<in> set readings. now \<noteq> prev"
    by (auto simp: forward_def Let_def)
  from d have "int (unat (clock_delta prev now)) = ?d" unfolding int_clock_delta by simp
  then have "unat (clock_delta prev now) = nat ?d" by linarith
  with d next_change_dropWhile [OF c] assms(2) show ?thesis
    by (simp add: tick_line_def tick_shown_def show_int_def Let_def)
qed

lemma calctime1_loop_correct:
  "\<forall>x \<in> set env. forward x \<Longrightarrow> calctime1_loop (length env) env = Some (map tick_shown env)"
proof (induction env)
  case (Cons x env)
  obtain prev readings where x: "x = (prev, readings)" by force
  with Cons round_text [of prev readings] show ?case by simp
qed simp

lemma length_pad9: "valid_ts ts \<Longrightarrow> length (pad9 (tv_nsec ts)) = 9"
  using length_show_nat [of "nat (tv_nsec ts)" 9] by (auto simp: pad9_def valid_ts_def Let_def)

lemma relative_main_exact:
  assumes "ordered start rs" "length rs = 5000" "ds = gaps start rs"
  shows "relative_main start rs = Some (min 999999999 (Min (set ds)), Max (set ds), sum_list ds)"
proof -
  have "length ds = 5000" using assms(2,3) by simp
  then have ne: "ds \<noteq> []" by auto
  have range: "\<forall>d \<in> set ds. 0 \<le> d \<and> d < 2 ^ 50" using ordered_gaps [OF assms(1)] assms(3) by simp
  have "relative_main start rs = stats_loop ds (999999999, 0, 0)"
    using assms relative_loop_stats [OF assms(1)] by (simp add: relative_main_def num_samples_def)
  also have "\<dots> = Some (Min (insert 999999999 (set ds)), Max (insert 0 (set ds)), 0 + sum_list ds)"
    by (rule stats_loop_correct) (use range assms(2,3) in auto)
  also have "Min (insert 999999999 (set ds)) = min 999999999 (Min (set ds))" using ne by simp
  also have "Max (insert 0 (set ds)) = Max (set ds)"
  proof -
    have "Max (set ds) \<in> set ds" using ne by simp
    with range have "0 \<le> Max (set ds)" by blast
    with ne show ?thesis by simp
  qed
  finally show ?thesis by simp
qed

subsection \<open>Properties\<close>



text \<open>
  \<open>calctime1.c\<close> prints ten ticks of the clock: as long as the clock goes forward, each line shows
  the reading the round started with, the first reading that differs from it, and the exact number
  of nanoseconds between them although it is computed in unsigned arithmetic; the fractions of the
  seconds are nine digits long, so that the decimal numbers are the times.
\<close>

theorem calctime1_reports:
  assumes "length env = 10" "\<forall>x \<in> set env. forward x"
  shows "\<exists>heading end. calctime1_main env = Some (heading # map tick_shown env @ [end]) \<and>
    (\<forall>ts. valid_ts ts \<longrightarrow> length (pad9 (tv_nsec ts)) = 9)"
  using calctime1_loop_correct [OF assms(2)] assms(1) length_pad9
  by (simp add: calctime1_main_def NumSamples_def)

theorem calctime1_reports_witness:
  "\<exists>heading end. calctime1_main (replicate 10 (\<lparr>tv_sec = 7, tv_nsec = 999999990\<rparr>,
      [\<lparr>tv_sec = 7, tv_nsec = 999999990\<rparr>, \<lparr>tv_sec = 8, tv_nsec = 35\<rparr>])) =
    Some (heading # replicate 10 (''prev 7.999999990, new 8.000000035, delta 45 ns'' @ [LF]) @ [end])"
proof -
  let ?x = "(\<lparr>tv_sec = 7, tv_nsec = 999999990\<rparr>, [\<lparr>tv_sec = 7, tv_nsec = 999999990\<rparr>, \<lparr>tv_sec = 8, tv_nsec = 35\<rparr>])"
  have "\<forall>x \<in> set (replicate 10 ?x). forward x" by (auto simp: forward_def ns_of_def)
  from calctime1_reports [OF _ this] have "\<exists>heading end. calctime1_main (replicate 10 ?x) =
      Some (heading # map tick_shown (replicate 10 ?x) @ [end])" by auto
  moreover have "replicate 7 CHR ''0'' = ''0000000''" by (simp add: numeral_eq_Suc)
  then have "tick_shown ?x = ''prev 7.999999990, new 8.000000035, delta 45 ns'' @ [LF]"
    by (simp add: tick_shown_def ns_of_def show_int_def pad9_def show_nat.simps)
  ultimately show ?thesis by (simp only: map_replicate)
qed

end
