(* ===== verification/Doubles.thy ===== *)
theory Doubles
  imports Complex_Main Prelude
begin

section \<open>Double precision\<close>

text \<open>
  The type \<open>double\<close> as IEEE 754 defines it for round-to-nearest: a finite double is the real number it
  stands for, and \<open>+\<close>, \<open>-\<close>, \<open>/\<close>, \<open>sqrt\<close> and the conversion from an integer give the exact result,
  rounded by \<open>rnd\<close>: to 53 significant bits, ties to even, and to a multiple of \<open>2 powi -1074\<close> below
  the normal range. Infinities and the sign of zero are not represented: the largest number a program
  of the repository can reach is a sum of 5000 squares of differences of 64-bit integers, below
  \<open>2 ^ 143\<close>, and the smallest that is not zero far above the subnormal range.

  The locale \<open>floating\<close> is what the programs' averages and deviations rely on; it is interpreted on
  \<open>rnd\<close>. Relative errors are counted in units of \<open>2 powi -53\<close> by the relation \<open>close_to\<close>.
\<close>

subsection \<open>Rounding to an integer, ties to even\<close>

definition rne :: "real \<Rightarrow> int" where
  "rne x = (let n = \<lfloor>x\<rfloor>; r = x - of_int n in if r < 1 / 2 \<or> r = 1 / 2 \<and> even n then n else n + 1)"

lemma rne_int [simp]: "rne (of_int n) = n"
  by (simp add: rne_def)

lemma rne_numeral [simp]: "rne 0 = 0" "rne 1 = 1" "rne (numeral k) = numeral k"
  using rne_int [of 0] rne_int [of 1] rne_int [of "numeral k"] by simp_all

lemma rne_bounds: "\<lfloor>x\<rfloor> \<le> rne x" "rne x \<le> \<lfloor>x\<rfloor> + 1"
  by (simp_all add: rne_def Let_def)

lemma rne_error: "\<bar>of_int (rne x) - x\<bar> \<le> 1 / 2"
proof -
  have "of_int \<lfloor>x\<rfloor> \<le> x" "x < of_int \<lfloor>x\<rfloor> + 1" by simp_all
  then show ?thesis by (auto simp: rne_def Let_def)
qed

lemma rne_mono: "x \<le> y \<Longrightarrow> rne x \<le> rne y"
proof (cases "\<lfloor>x\<rfloor> = \<lfloor>y\<rfloor>")
  case True
  moreover assume "x \<le> y"
  ultimately show ?thesis by (auto simp: rne_def Let_def)
next
  case False
  moreover assume "x \<le> y"
  ultimately have "\<lfloor>x\<rfloor> + 1 \<le> \<lfloor>y\<rfloor>" using floor_mono [of x y] by linarith
  with rne_bounds(2) [of x] rne_bounds(1) [of y] show ?thesis by linarith
qed

lemma rne_minus: "rne (- x) = - rne x"
proof (cases "x \<in> \<int>")
  case True
  then obtain n where "x = of_int n" by (auto elim: Ints_cases)
  then show ?thesis using rne_int [of n] rne_int [of "- n"] by simp
next
  case False
  then have "\<lfloor>- x\<rfloor> = - \<lfloor>x\<rfloor> - 1" using ceiling_altdef [of x] by (auto simp: floor_minus split: if_splits dest: sym)
      (metis Ints_of_int)
  then show ?thesis by (auto simp: rne_def Let_def)
qed

lemma rne_between: "of_int a \<le> x \<Longrightarrow> x \<le> of_int b \<Longrightarrow> a \<le> rne x \<and> rne x \<le> b"
  using rne_mono [of "of_int a" x] rne_mono [of x "of_int b"] by simp

subsection \<open>Rounding to a double\<close>

text \<open>The exponent of the last place of the doubles around \<open>x\<close>.\<close>

definition last_place :: "real \<Rightarrow> int" where
  "last_place x = max (\<lfloor>log 2 \<bar>x\<bar>\<rfloor> - 52) (- 1074)"

definition rnd :: "real \<Rightarrow> real" where
  "rnd x = of_int (rne (x / 2 powi last_place x)) * 2 powi last_place x"

lemma pow2_pos [simp]: "(0 :: real) < 2 powi e" by simp

lemma pow2_powr: "(2 :: real) powi e = 2 powr of_int e"
  by (simp add: powr_real_of_int')

lemma pow2_le: "(2 :: real) powi a \<le> 2 powi b \<longleftrightarrow> a \<le> b"
  by (simp add: pow2_powr)

lemma log2_le_iff: "0 < x \<Longrightarrow> of_int e \<le> log 2 x \<longleftrightarrow> 2 powi e \<le> x"
  by (simp add: pow2_powr le_log_iff)

lemma floor_log_iff: "x \<noteq> 0 \<Longrightarrow> \<lfloor>log 2 \<bar>x\<bar>\<rfloor> = e \<longleftrightarrow> 2 powi e \<le> \<bar>x\<bar> \<and> \<bar>x\<bar> < 2 powi (e + 1)"
  using log2_le_iff [of "\<bar>x\<bar>" e] log2_le_iff [of "\<bar>x\<bar>" "e + 1"] by (auto simp: floor_eq_iff)

lemma last_place_le: "x \<noteq> 0 \<Longrightarrow> \<bar>x\<bar> < 2 powi (53 + e) \<Longrightarrow> - 1074 \<le> e \<Longrightarrow> last_place x \<le> e"
proof -
  assume x: "x \<noteq> 0" "\<bar>x\<bar> < 2 powi (53 + e)" "- 1074 \<le> e"
  then have "log 2 \<bar>x\<bar> < of_int (53 + e)" using log2_le_iff [of "\<bar>x\<bar>" "53 + e"] by linarith
  then show ?thesis using x(3) by (simp add: last_place_def) linarith
qed

lemma last_place_ge: "2 powi e \<le> \<bar>x\<bar> \<Longrightarrow> e - 52 \<le> last_place x"
proof -
  assume x: "2 powi e \<le> \<bar>x\<bar>"
  then have "0 < \<bar>x\<bar>" using pow2_pos [of e] by linarith
  with x have "of_int e \<le> log 2 \<bar>x\<bar>" by (simp add: log2_le_iff)
  then show ?thesis by (simp add: last_place_def) linarith
qed

lemma last_place_upper: "\<bar>x\<bar> < 2 powi (53 + last_place x)"
proof (cases "x = 0")
  case False
  have "\<lfloor>log 2 \<bar>x\<bar>\<rfloor> + 1 \<le> 53 + last_place x" by (simp add: last_place_def)
  then have "(2 :: real) powi (\<lfloor>log 2 \<bar>x\<bar>\<rfloor> + 1) \<le> 2 powi (53 + last_place x)" by (simp only: pow2_le)
  with floor_log_iff [OF False] show ?thesis by (metis order_less_le_trans)
qed simp

lemma last_place_lower: "- 1074 < last_place x \<Longrightarrow> x \<noteq> 0 \<Longrightarrow> 2 powi (52 + last_place x) \<le> \<bar>x\<bar>"
  using floor_log_iff [of x "\<lfloor>log 2 \<bar>x\<bar>\<rfloor>"] by (simp add: last_place_def max_def split: if_splits)

lemma rnd_minus: "rnd (- x) = - rnd x"
  by (simp add: rnd_def last_place_def rne_minus)

lemma rnd_0 [simp]: "rnd 0 = 0"
  by (simp add: rnd_def)

lemma rnd_error: "\<bar>rnd x - x\<bar> \<le> 2 powi last_place x / 2"
proof -
  let ?p = "(2 :: real) powi last_place x"
  have "rnd x - x = (of_int (rne (x / ?p)) - x / ?p) * ?p" by (simp add: rnd_def field_simps)
  then have "\<bar>rnd x - x\<bar> = \<bar>of_int (rne (x / ?p)) - x / ?p\<bar> * ?p" by (simp add: abs_mult)
  also have "\<dots> \<le> 1 / 2 * ?p" by (rule mult_right_mono [OF rne_error]) simp
  finally show ?thesis by simp
qed

lemma rnd_relative:
  assumes "2 powi - 1022 \<le> \<bar>x\<bar>"
  shows "\<bar>rnd x - x\<bar> \<le> \<bar>x\<bar> / 2 ^ 53"
proof -
  have x: "x \<noteq> 0" using assms pow2_pos [of "- 1022"] by auto
  from assms last_place_ge [OF assms] have "2 powi (52 + last_place x) \<le> \<bar>x\<bar>"
    using last_place_lower [of x] x by (cases "last_place x = - 1074") auto
  then have "2 powi last_place x * 2 ^ 52 \<le> \<bar>x\<bar>" by (simp add: power_int_add)
  with rnd_error [of x] show ?thesis by simp
qed

text \<open>A multiple of a power of two with at most 53 bits is a double.\<close>

lemma rnd_exact_lt:
  assumes "\<bar>k\<bar> < 2 ^ 53" "- 1074 \<le> e"
  shows "rnd (of_int k * 2 powi e) = of_int k * 2 powi e"
proof (cases "k = 0")
  case False
  let ?x = "of_int k * (2 :: real) powi e"
  have "of_int \<bar>k\<bar> < (of_int (2 ^ 53) :: real)" using assms(1) by (simp only: of_int_less_iff)
  then have "\<bar>?x\<bar> < 2 powi (53 + e)" by (simp add: abs_mult power_int_add)
  with False assms(2) have "last_place ?x \<le> e" by (intro last_place_le) auto
  then have "2 powi e / 2 powi last_place ?x = (2 :: real) ^ nat (e - last_place ?x)"
    by (simp add: power_int_diff [symmetric] power_int_nonneg_exp)
  then have "?x / 2 powi last_place ?x = of_int (k * 2 ^ nat (e - last_place ?x))"
    by (simp only: times_divide_eq_right [symmetric] of_int_mult of_int_power of_int_numeral)
  then show ?thesis unfolding rnd_def by (metis nonzero_divide_eq_eq pow2_pos less_irrefl rne_int)
qed simp

lemma rnd_exact:
  assumes "\<bar>k\<bar> \<le> 2 ^ 53" "- 1074 \<le> e"
  shows "rnd (of_int k * 2 powi e) = of_int k * 2 powi e"
proof (cases "\<bar>k\<bar> = 2 ^ 53")
  case True
  then have "k = sgn k * 2 ^ 53" by (metis abs_mult_sgn mult.commute)
  then have "of_int k * (2 :: real) powi e = of_int (sgn k * 2 ^ 53) * 2 powi e" by presburger
  also have "\<dots> = of_int (sgn k * 2 ^ 52) * 2 powi (e + 1)" by (simp add: power_int_add)
  finally have k: "of_int k * (2 :: real) powi e = of_int (sgn k * 2 ^ 52) * 2 powi (e + 1)" .
  have "rnd (of_int (sgn k * 2 ^ 52) * 2 powi (e + 1)) = of_int (sgn k * 2 ^ 52) * 2 powi (e + 1)"
    by (rule rnd_exact_lt) (use assms(2) in \<open>simp_all add: abs_mult sgn_if\<close>)
  with k show ?thesis by (simp only:)
next
  case False
  with assms show ?thesis by (intro rnd_exact_lt) auto
qed

lemma rnd_mono_pos:
  assumes "0 < x" "x \<le> y"
  shows "rnd x \<le> rnd y"
proof -
  let ?p = "(2 :: real) powi last_place x" and ?q = "(2 :: real) powi last_place y"
  have le: "last_place x \<le> last_place y"
    using assms floor_mono [of "log 2 \<bar>x\<bar>" "log 2 \<bar>y\<bar>"] by (auto simp: last_place_def)
  show ?thesis
  proof (cases "last_place x = last_place y")
    case True
    with assms have "rne (x / ?p) \<le> rne (y / ?p)" by (intro rne_mono divide_right_mono) auto
    with True show ?thesis by (simp add: rnd_def mult_right_mono)
  next
    case False
    with le have lt: "last_place x + 1 \<le> last_place y" by linarith
    moreover have "- 1074 \<le> last_place x" by (simp add: last_place_def)
    ultimately have sub: "- 1074 < last_place y" by linarith
    have "x / ?p \<le> of_int (2 ^ 53)"
      using last_place_upper [of x] assms(1) by (simp add: power_int_add field_simps)
    then have "rne (x / ?p) \<le> 2 ^ 53" by (metis rne_mono rne_int)
    then have "of_int (rne (x / ?p)) \<le> (of_int (2 ^ 53) :: real)" by (simp only: of_int_le_iff)
    then have "rnd x \<le> 2 ^ 53 * ?p" by (simp add: rnd_def)
    also have "\<dots> = 2 ^ 52 * 2 powi (last_place x + 1)" by (simp add: power_int_add)
    also have "\<dots> \<le> 2 ^ 52 * ?q" using lt by (simp add: pow2_le)
    also have "\<dots> \<le> rnd y"
    proof -
      have "of_int (2 ^ 52) \<le> y / ?q"
        using last_place_lower [OF sub] assms by (simp add: power_int_add field_simps)
      then have "2 ^ 52 \<le> rne (y / ?q)" by (metis rne_mono rne_int)
      then have "(of_int (2 ^ 52) :: real) \<le> of_int (rne (y / ?q))" by (simp only: of_int_le_iff)
      then show ?thesis by (simp add: rnd_def)
    qed
    finally show ?thesis .
  qed
qed

lemma rnd_nonneg: "0 \<le> x \<Longrightarrow> 0 \<le> rnd x"
  using rne_mono [of 0 "x / 2 powi last_place x"] by (simp add: rnd_def)

lemma rnd_mono: "x \<le> y \<Longrightarrow> rnd x \<le> rnd y"
proof -
  assume le: "x \<le> y"
  consider "0 < x" | "x \<le> 0" "0 \<le> y" | "y < 0" by linarith
  then show ?thesis
  proof cases
    case 2
    then have "rnd x \<le> 0" using rnd_nonneg [of "- x"] rnd_minus [of x] by simp
    with rnd_nonneg [OF 2(2)] show ?thesis by simp
  next
    case 3
    with rnd_mono_pos [of "- y" "- x"] le rnd_minus [of x] rnd_minus [of y] show ?thesis by simp
  qed (use le rnd_mono_pos in blast)
qed

lemma rnd_grid: "2 powi e \<le> \<bar>x\<bar> \<Longrightarrow> \<exists>k. rnd x = of_int k * 2 powi (e - 52)"
proof -
  assume "2 powi e \<le> \<bar>x\<bar>"
  from last_place_ge [OF this] obtain j where "last_place x = e - 52 + int j" using zle_iff_zadd by metis
  then have "rnd x = of_int (rne (x / 2 powi last_place x) * 2 ^ j) * 2 powi (e - 52)"
    by (simp add: rnd_def power_int_add)
  then show ?thesis by blast
qed


subsection \<open>Relative errors\<close>

text \<open>Two non-negative numbers at most \<open>r\<close> roundings apart.\<close>

definition ru :: real where "ru = 1 - 1 / 2 ^ 53"

lemma ru_power [simp]: "0 < ru ^ r" "0 \<le> ru ^ r" "ru ^ r \<le> 1"
  by (simp_all add: ru_def power_le_one)

definition close_to :: "nat \<Rightarrow> real \<Rightarrow> real \<Rightarrow> bool" where
  "close_to r x y \<longleftrightarrow> 0 \<le> x \<and> 0 \<le> y \<and> ru ^ r * x \<le> y \<and> ru ^ r * y \<le> x"

lemma close_refl [simp]: "close_to r x x \<longleftrightarrow> 0 \<le> x"
  by (auto simp: close_to_def intro: mult_left_le_one_le)

lemma close_mono: "close_to r x y \<Longrightarrow> r \<le> s \<Longrightarrow> close_to s x y"
  using power_decreasing [of r s ru] ru_power [of 1]
  by (auto simp: close_to_def elim: order_trans [rotated] intro: mult_right_mono)

lemma close_trans: "close_to r x y \<Longrightarrow> close_to s y z \<Longrightarrow> close_to (r + s) x z"
proof -
  assume a: "close_to r x y" "close_to s y z"
  then have "ru ^ s * (ru ^ r * x) \<le> ru ^ s * y" "ru ^ s * y \<le> z"
    "ru ^ r * (ru ^ s * z) \<le> ru ^ r * y" "ru ^ r * y \<le> x"
    by (simp_all add: close_to_def mult_left_mono)
  then have "ru ^ s * (ru ^ r * x) \<le> z" "ru ^ r * (ru ^ s * z) \<le> x" by linarith+
  with a show ?thesis by (simp add: close_to_def power_add mult.assoc mult.left_commute)
qed

lemma close_add: "close_to r x y \<Longrightarrow> close_to r x' y' \<Longrightarrow> close_to r (x + x') (y + y')"
  unfolding close_to_def distrib_left by linarith

lemma close_mult: "close_to r x y \<Longrightarrow> close_to s x' y' \<Longrightarrow> close_to (r + s) (x * x') (y * y')"
proof -
  assume a: "close_to r x y" "close_to s x' y'"
  have "(ru ^ r * x) * (ru ^ s * x') \<le> y * y'" "(ru ^ r * y) * (ru ^ s * y') \<le> x * x'"
    by (rule mult_mono; use a in \<open>simp add: close_to_def\<close>)+
  with a show ?thesis unfolding close_to_def by (auto simp: power_add mult.assoc mult.left_commute)
qed

lemma close_square: "close_to r x y \<Longrightarrow> close_to (2 * r) (x\<^sup>2) (y\<^sup>2)"
  using close_mult [of r x y r x y] by (simp add: power2_eq_square mult_2)

lemma close_divide: "close_to r x y \<Longrightarrow> 0 < c \<Longrightarrow> close_to r (x / c) (y / c)"
  by (simp add: close_to_def divide_right_mono)

lemma close_sqrt: "close_to r x y \<Longrightarrow> close_to r (sqrt x) (sqrt y)"
proof -
  assume a: "close_to r x y"
  have le: "ru ^ r * sqrt b \<le> sqrt c" if "0 \<le> b" "ru ^ r * b \<le> c" for b c
  proof -
    have "(ru ^ r * sqrt b)\<^sup>2 = ru ^ r * (ru ^ r * b)"
      using that(1) by (simp add: power_mult_distrib power2_eq_square mult.assoc)
    also have "\<dots> \<le> ru ^ r * b" using that(1) by (intro mult_left_le_one_le) auto
    finally have "(ru ^ r * sqrt b)\<^sup>2 \<le> c" using that(2) by simp
    then show ?thesis by (rule real_le_rsqrt)
  qed
  from a show ?thesis by (auto simp: close_to_def intro: le)
qed

text \<open>A few thousand roundings.\<close>

lemma ru_power_lower: "1 - real r / 2 ^ 53 \<le> ru ^ r"
  using Bernoulli_inequality [of "- (1 / 2 ^ 53)" r] by (simp add: ru_def)

lemma close_bounds:
  assumes "close_to r x y" "r \<le> 8192"
  shows "(1 - 1 / 2 ^ 40) * x \<le> y" "(1 - 1 / 2 ^ 40) * y \<le> x"
proof -
  have "real r \<le> 2 ^ 13" using assms(2) by simp
  then have "1 - 1 / 2 ^ 40 \<le> ru ^ r" using ru_power_lower [of r] by simp
  then have le: "0 \<le> z \<Longrightarrow> (1 - 1 / 2 ^ 40) * z \<le> ru ^ r * z" for z by (rule mult_right_mono)
  show "(1 - 1 / 2 ^ 40) * x \<le> y" "(1 - 1 / 2 ^ 40) * y \<le> x"
    using le [of x] le [of y] assms(1) unfolding close_to_def by linarith+
qed

lemma close_relative:
  assumes "0 \<le> x" "\<bar>y - x\<bar> \<le> x / 2 ^ 53"
  shows "close_to 1 x y"
proof -
  have "y - x \<le> x / 2 ^ 53" "x - y \<le> x / 2 ^ 53" using assms(2) by linarith+
  with assms(1) show ?thesis by (simp add: close_to_def ru_def field_simps)
qed

lemma close_relative3:
  assumes "0 \<le> x" "\<bar>y - x\<bar> \<le> x / 2 ^ 52"
  shows "close_to 3 x y"
proof -
  have "y - x \<le> x / 2 ^ 52" "x - y \<le> x / 2 ^ 52" using assms(2) by linarith+
  with assms(1) show ?thesis by (simp add: close_to_def ru_def field_simps eval_nat_numeral)
qed

lemma close_zero: "close_to r x y \<Longrightarrow> x = 0 \<longleftrightarrow> y = 0"
  unfolding close_to_def by (metis mult_zero_right mult_le_cancel_left_pos order_antisym ru_power(1))

subsection \<open>What the programs rely on\<close>

text \<open>
  \<open>pow\<close> of the C library, where its result and the square are in the range of normal numbers: glibc
  documents an error of at most one unit in the last place.
\<close>

definition pow_spec :: "(real \<Rightarrow> real \<Rightarrow> real) \<Rightarrow> bool" where
  "pow_spec pow \<longleftrightarrow> pow 0 2 = 0 \<and>
     (\<forall>x. 2 powi - 500 \<le> \<bar>x\<bar> \<and> \<bar>x\<bar> \<le> 2 powi 500 \<longrightarrow> \<bar>pow x 2 - x\<^sup>2\<bar> \<le> x\<^sup>2 / 2 ^ 52)"

text \<open>The multiples of \<open>2 powi - 105\<close>: the means of integers, and their differences with integers.\<close>

definition on_grid :: "real \<Rightarrow> bool" where
  "on_grid x \<longleftrightarrow> (\<exists>k. x = of_int k * 2 powi - 105)"

lemma on_grid_diff: "on_grid x \<Longrightarrow> on_grid y \<Longrightarrow> on_grid (x - y)"
  unfolding on_grid_def by (metis left_diff_distrib of_int_diff)

lemma on_grid_int [simp]: "on_grid (of_int n)"
  unfolding on_grid_def by (rule exI [of _ "n * 2 ^ 105"]) (simp add: power_int_minus)

lemma on_grid_large: "on_grid x \<Longrightarrow> x = 0 \<or> 2 powi - 105 \<le> \<bar>x\<bar>"
proof -
  assume "on_grid x"
  then obtain k where k: "x = of_int k * 2 powi - 105" by (auto simp: on_grid_def)
  show ?thesis
  proof (cases "k = 0")
    case False
    then have "1 \<le> \<bar>real_of_int k\<bar>" by simp
    then have "1 * 2 powi - 105 \<le> \<bar>real_of_int k\<bar> * 2 powi - 105" by (rule mult_right_mono) simp
    then show ?thesis by (simp add: k abs_mult)
  qed (simp add: k)
qed

text \<open>Zero, or far above the smallest normal number.\<close>

definition tame :: "int \<Rightarrow> real \<Rightarrow> bool" where
  "tame e x \<longleftrightarrow> 0 \<le> x \<and> (x = 0 \<or> 2 powi e \<le> x)"

lemma tame_add: "tame e x \<Longrightarrow> tame e y \<Longrightarrow> tame e (x + y)"
  unfolding tame_def by (auto intro: add_increasing add_increasing2)

lemma tame_mono: "tame e x \<Longrightarrow> f \<le> e \<Longrightarrow> tame f x"
  unfolding tame_def by (meson order_trans pow2_le)

text \<open>The mean and the standard deviation of integers, exactly.\<close>

definition mean :: "int list \<Rightarrow> real" where
  "mean ds = of_int (sum_list ds) / of_nat (length ds)"

definition deviation :: "int list \<Rightarrow> real" where
  "deviation ds = sqrt ((\<Sum>d\<leftarrow>ds. (of_int d - mean ds)\<^sup>2) / of_nat (length ds))"

lemma squares_around:
  "(\<Sum>d\<leftarrow>ds. (of_int d - a)\<^sup>2) = (\<Sum>d\<leftarrow>ds. (of_int d - b)\<^sup>2) + real (length ds) * (a - b)\<^sup>2 -
     2 * (a - b) * (of_int (sum_list ds) - real (length ds) * b)"
  by (induction ds) (simp_all add: power2_eq_square algebra_simps)

lemma around_mean:
  assumes "ds \<noteq> []"
  shows "deviation ds \<le> sqrt ((\<Sum>d\<leftarrow>ds. (of_int d - a)\<^sup>2) / of_nat (length ds))"
    "sqrt ((\<Sum>d\<leftarrow>ds. (of_int d - a)\<^sup>2) / of_nat (length ds)) \<le> deviation ds + \<bar>a - mean ds\<bar>"
proof -
  let ?v = "(\<Sum>d\<leftarrow>ds. (of_int d - mean ds)\<^sup>2) / real (length ds)"
  have "of_int (sum_list ds) = real (length ds) * mean ds" using assms by (simp add: mean_def)
  with squares_around [of a ds "mean ds"] assms
  have e: "(\<Sum>d\<leftarrow>ds. (of_int d - a)\<^sup>2) / real (length ds) = ?v + (a - mean ds)\<^sup>2"
    by (simp add: add_divide_distrib)
  show "deviation ds \<le> sqrt ((\<Sum>d\<leftarrow>ds. (of_int d - a)\<^sup>2) / of_nat (length ds))"
    unfolding deviation_def e by simp
  have "0 \<le> ?v" by (intro divide_nonneg_nonneg sum_list_nonneg) auto
  then have "sqrt (?v + (a - mean ds)\<^sup>2) \<le> sqrt ?v + sqrt ((a - mean ds)\<^sup>2)" by (intro sqrt_add_le_add_sqrt) auto
  then show "sqrt ((\<Sum>d\<leftarrow>ds. (of_int d - a)\<^sup>2) / of_nat (length ds)) \<le> deviation ds + \<bar>a - mean ds\<bar>"
    unfolding deviation_def e by simp
qed

locale floating =
  fixes round_to :: "real \<Rightarrow> real"
  assumes round_mono: "x \<le> y \<Longrightarrow> round_to x \<le> round_to y"
    and round_exact: "\<bar>k\<bar> \<le> 2 ^ 53 \<Longrightarrow> - 1074 \<le> e \<Longrightarrow> round_to (of_int k * 2 powi e) = of_int k * 2 powi e"
    and round_relative: "2 powi - 1022 \<le> \<bar>x\<bar> \<Longrightarrow> \<bar>round_to x - x\<bar> \<le> \<bar>x\<bar> / 2 ^ 53"
    and round_grid: "2 powi e \<le> \<bar>x\<bar> \<Longrightarrow> \<exists>k. round_to x = of_int k * 2 powi (e - 52)"
begin

lemma round_int: "\<bar>k\<bar> \<le> 2 ^ 53 \<Longrightarrow> round_to (of_int k) = of_int k"
  using round_exact [of k 0] by simp

lemma round_0 [simp]: "round_to 0 = 0"
  using round_int [of 0] by simp

lemma round_tame: "tame e x \<Longrightarrow> - 1022 \<le> e \<Longrightarrow> tame e (round_to x)"
  using round_mono [of 0 x] round_mono [of "2 powi e" x] round_exact [of 1 e] by (auto simp: tame_def)

lemma round_close: "tame e x \<Longrightarrow> - 1022 \<le> e \<Longrightarrow> close_to 1 x (round_to x)"
proof (cases "x = 0")
  case False
  assume "tame e x" "- 1022 \<le> e"
  then have "(2 :: real) powi - 1022 \<le> 2 powi e" "0 \<le> x" "2 powi e \<le> x"
    using False by (simp_all only: pow2_le tame_def) simp_all
  then have "0 \<le> x" "2 powi - 1022 \<le> \<bar>x\<bar>" by linarith+
  with round_relative [of x] show ?thesis by (intro close_relative) auto
qed simp

text \<open>The mean of integers.\<close>

lemma mean_between:
  assumes "0 < n" "n \<le> 2 ^ 53" "\<bar>s\<bar> \<le> 2 ^ 53" "n * lo \<le> s" "s \<le> n * hi" "\<bar>lo\<bar> \<le> 2 ^ 53" "\<bar>hi\<bar> \<le> 2 ^ 53"
  shows "of_int lo \<le> round_to (round_to (of_int s) / round_to (of_int n))"
    "round_to (round_to (of_int s) / round_to (of_int n)) \<le> of_int hi"
proof -
  have "of_int (n * lo) \<le> (of_int s :: real)" "of_int s \<le> (of_int (n * hi) :: real)"
    using assms(4,5) by (simp_all only: of_int_le_iff)
  then have "of_int lo \<le> of_int s / (of_int n :: real)" "of_int s / (of_int n :: real) \<le> of_int hi"
    using assms(1) by (simp_all add: field_simps)
  then show "of_int lo \<le> round_to (round_to (of_int s) / round_to (of_int n))"
    "round_to (round_to (of_int s) / round_to (of_int n)) \<le> of_int hi"
    using assms round_mono round_int by (metis abs_of_pos)+
qed

lemma mean_error:
  assumes "0 < n" "n \<le> 2 ^ 53" "\<bar>s\<bar> \<le> 2 ^ 53"
  shows "\<bar>round_to (round_to (of_int s) / round_to (of_int n)) - of_int s / of_int n\<bar> \<le> \<bar>of_int s / of_int n\<bar> / 2 ^ 53"
    and "on_grid (round_to (round_to (of_int s) / round_to (of_int n)))"
proof -
  have r: "round_to (round_to (of_int s) / round_to (of_int n)) = round_to (of_int s / of_int n)"
    using assms by (simp add: round_int)
  have large: "2 powi - 53 \<le> \<bar>of_int s / (of_int n :: real)\<bar>" if "s \<noteq> 0"
  proof -
    have "1 \<le> \<bar>real_of_int s\<bar>" using that by simp
    moreover have "real_of_int n \<le> of_int (2 ^ 53)" using assms(2) by (simp only: of_int_le_iff)
    ultimately have "1 / 2 ^ 53 \<le> \<bar>real_of_int s\<bar> / of_int n" using assms(1) by (intro frac_le) auto
    then show ?thesis using assms(1) by (simp add: power_int_minus field_simps)
  qed
  show "\<bar>round_to (round_to (of_int s) / round_to (of_int n)) - of_int s / of_int n\<bar> \<le> \<bar>of_int s / of_int n\<bar> / 2 ^ 53"
  proof (cases "s = 0")
    case False
    have "(2 :: real) powi - 1022 \<le> 2 powi - 53" unfolding pow2_le by simp
    with large [OF False] show ?thesis unfolding r by (intro round_relative) linarith
  qed (simp add: r)
  show "on_grid (round_to (round_to (of_int s) / round_to (of_int n)))"
  proof (cases "s = 0")
    case False
    from round_grid [OF large [OF this]] show ?thesis by (simp add: r on_grid_def)
  next
    case True
    then show ?thesis using on_grid_int [of 0] by simp
  qed
qed

text \<open>The sum of squared differences, and its root.\<close>

definition sq_step :: "(real \<Rightarrow> real \<Rightarrow> real) \<Rightarrow> real \<Rightarrow> int \<Rightarrow> real \<Rightarrow> real" where
  "sq_step pow avg d acc = round_to (acc + pow (round_to (round_to (of_int d) - avg)) 2)"

lemma square_close:
  assumes p: "pow_spec pow" and g: "on_grid x" and b: "\<bar>x\<bar> \<le> 2 ^ 60"
  shows "close_to 5 (x\<^sup>2) (pow (round_to x) 2)" "tame (- 300) (pow (round_to x) 2)"
proof -
  have *: "close_to 5 (x\<^sup>2) (pow (round_to x) 2) \<and> tame (- 300) (pow (round_to x) 2)"
  proof (cases "x = 0")
    case True
    with p show ?thesis by (simp add: pow_spec_def tame_def)
  next
    case False
    let ?y = "round_to x"
    have x: "2 powi - 105 \<le> \<bar>x\<bar>" using on_grid_large [OF g] False by simp
    have "(2 :: real) powi - 1022 \<le> 2 powi - 105" unfolding pow2_le by simp
    with x have r: "\<bar>?y - x\<bar> \<le> \<bar>x\<bar> / 2 ^ 53" by (intro round_relative) linarith
    then have "\<bar>\<bar>?y\<bar> - \<bar>x\<bar>\<bar> \<le> \<bar>x\<bar> / 2 ^ 53" by linarith
    then have c1: "close_to 1 \<bar>x\<bar> \<bar>?y\<bar>" by (intro close_relative) auto
    have "\<bar>x\<bar> / 2 ^ 53 \<le> \<bar>x\<bar> / 2" by simp
    with r have "\<bar>x\<bar> / 2 \<le> \<bar>?y\<bar>" "\<bar>?y\<bar> \<le> 2 * \<bar>x\<bar>" by linarith+
    moreover have "(2 :: real) powi - 106 * 2 = 2 powi - 105"
      using power_int_add [of "2 :: real" "- 106" 1] by simp
    ultimately have y: "2 powi - 106 \<le> \<bar>?y\<bar>" "\<bar>?y\<bar> \<le> 2 * 2 ^ 60" using x b by linarith+
    have "(2 :: real) powi - 500 \<le> 2 powi - 106" "(2 :: real) powi 61 \<le> 2 powi 500" unfolding pow2_le by simp_all
    with y p have q: "\<bar>pow ?y 2 - ?y\<^sup>2\<bar> \<le> ?y\<^sup>2 / 2 ^ 52" unfolding pow_spec_def by simp
    have "close_to 3 (?y\<^sup>2) (pow ?y 2)" by (rule close_relative3) (use q in auto)
    with close_trans [OF close_square [OF c1], of 3 "pow ?y 2"] have "close_to 5 (x\<^sup>2) (pow ?y 2)" by simp
    moreover have "2 powi - 300 \<le> pow ?y 2"
    proof -
      have "(2 powi - 106)\<^sup>2 \<le> \<bar>?y\<bar>\<^sup>2" by (rule power_mono [OF y(1)]) simp
      moreover have "(2 powi - 106)\<^sup>2 = (2 :: real) powi - 212" unfolding power_int_power' by simp
      ultimately have "2 powi - 212 \<le> ?y\<^sup>2" unfolding power2_abs by simp
      moreover have "?y\<^sup>2 - pow ?y 2 \<le> ?y\<^sup>2 / 2 ^ 52" "?y\<^sup>2 / 2 ^ 52 \<le> ?y\<^sup>2 / 2" using q by (linarith, simp)
      then have "?y\<^sup>2 / 2 \<le> pow ?y 2" by linarith
      moreover have "(2 :: real) powi - 213 * 2 = 2 powi - 212" "(2 :: real) powi - 300 \<le> 2 powi - 213"
        using power_int_add [of "2 :: real" "- 213" 1] unfolding pow2_le by simp_all
      ultimately show ?thesis by linarith
    qed
    moreover from this have "0 \<le> pow ?y 2" using pow2_pos [of "- 300"] by linarith
    ultimately show ?thesis by (simp add: tame_def)
  qed
  then show "close_to 5 (x\<^sup>2) (pow (round_to x) 2)" "tame (- 300) (pow (round_to x) 2)" by auto
qed

lemma squares_close:
  assumes p: "pow_spec pow" and a: "on_grid avg" "\<bar>avg\<bar> \<le> 2 ^ 55" and ds: "\<forall>d \<in> set ds. \<bar>d\<bar> \<le> 2 ^ 53"
    and acc: "close_to (5 + r) x acc" "tame (- 300) acc"
  shows "close_to (5 + r + length ds) (x + (\<Sum>d\<leftarrow>ds. (of_int d - avg)\<^sup>2)) (fold (sq_step pow avg) ds acc) \<and>
    tame (- 300) (fold (sq_step pow avg) ds acc)"
  using ds acc
proof (induction ds arbitrary: r x acc)
  case (Cons d ds)
  let ?q = "pow (round_to (of_int d - avg)) 2"
  have d: "\<bar>d\<bar> \<le> 2 ^ 53" and rd: "round_to (of_int d) = of_int d" using Cons.prems(1) round_int by auto
  have "\<bar>real_of_int d\<bar> \<le> of_int (2 ^ 53)" using d by (simp only: of_int_abs [symmetric] of_int_le_iff)
  with a(2) have "\<bar>of_int d - avg\<bar> \<le> 2 ^ 60" by simp
  from square_close [OF p on_grid_diff [OF on_grid_int a(1)] this]
  have q: "close_to 5 ((of_int d - avg)\<^sup>2) ?q" "tame (- 300) ?q" .
  then have t: "tame (- 300) (acc + ?q)" using Cons.prems(3) by (intro tame_add)
  have "close_to (5 + r) (x + (of_int d - avg)\<^sup>2) (acc + ?q)"
    using Cons.prems(2) close_mono [OF q(1)] by (intro close_add) auto
  from close_trans [OF this round_close [OF t]]
  have "close_to (5 + Suc r) (x + (of_int d - avg)\<^sup>2) (sq_step pow avg d acc)"
    by (simp add: sq_step_def rd)
  moreover have "tame (- 300) (sq_step pow avg d acc)"
    using round_tame [OF t] by (simp add: sq_step_def rd)
  ultimately show ?case
    using Cons.IH [of "Suc r" "x + (of_int d - avg)\<^sup>2" "sq_step pow avg d acc"] Cons.prems(1)
    by (simp add: add.assoc)
qed simp

lemma root_mean_close:
  assumes "close_to r x t" "tame (- 300) t" "0 < n" "n \<le> 2 ^ 53"
  shows "close_to (r + 2) (sqrt (x / of_int n)) (round_to (sqrt (round_to (t / of_int n))))"
proof -
  have n: "real_of_int n \<le> 2 ^ 53" using assms(4) of_int_le_iff [of n "2 ^ 53", where 'a = real] by simp
  have t: "tame (- 400) (t / of_int n)"
  proof (cases "t = 0")
    case False
    with assms(2) have "2 powi - 300 / 2 ^ 53 \<le> t / of_int n"
      using n assms(3) by (intro frac_le) (auto simp: tame_def)
    moreover have "(2 :: real) powi - 400 \<le> 2 powi - 353" unfolding pow2_le by simp
    moreover have "(2 :: real) powi - 353 = 2 powi - 300 / 2 ^ 53"
      using power_int_diff [of "2 :: real" "- 300" 53] by simp
    ultimately show ?thesis using assms(2,3) by (simp add: tame_def)
  qed (simp add: tame_def)
  from close_trans [OF close_divide [OF assms(1), of "of_int n"] round_close [OF t]] assms(3)
  have c: "close_to (r + 1) (sqrt (x / of_int n)) (sqrt (round_to (t / of_int n)))" by (intro close_sqrt) simp
  have "tame (- 200) (sqrt (round_to (t / of_int n)))"
  proof -
    have "(2 powi - 200)\<^sup>2 = (2 :: real) powi - 400" unfolding power_int_power' by simp
    then have "2 powi - 400 \<le> z \<Longrightarrow> 2 powi - 200 \<le> sqrt z" for z by (intro real_le_rsqrt) simp
    moreover have "tame (- 400) (round_to (t / of_int n))" by (rule round_tame [OF t]) simp
    ultimately show ?thesis unfolding tame_def by (metis real_sqrt_ge_zero real_sqrt_zero)
  qed
  from close_trans [OF c round_close [OF this]] show ?thesis by simp
qed

lemma deviation_error:
  assumes p: "pow_spec pow" and ds: "ds \<noteq> []" "length ds \<le> 8000" "\<forall>d \<in> set ds. 0 \<le> d"
    and s: "sum_list ds \<le> 2 ^ 53"
    and avg: "avg = round_to (round_to (of_int (sum_list ds)) / round_to (of_int (int (length ds))))"
    and dev: "dev = round_to (sqrt (round_to (fold (sq_step pow avg) ds 0 / of_int (int (length ds)))))"
  shows "(1 - 1 / 2 ^ 40) * deviation ds \<le> dev \<and> (1 - 1 / 2 ^ 40) * dev \<le> deviation ds + mean ds / 2 ^ 53"
proof -
  let ?n = "int (length ds)"
  have n: "0 < ?n" "?n \<le> 2 ^ 53" using ds(1,2) by auto
  have s0: "0 \<le> sum_list ds" using ds(3) by (intro sum_list_nonneg) auto
  have le: "\<bar>d\<bar> \<le> 2 ^ 53" if "d \<in> set ds" for d
    using member_le_sum_list [OF that] ds(3) s that by fastforce
  have m: "mean ds = of_int (sum_list ds) / of_int ?n" by (simp add: mean_def)
  then have m0: "0 \<le> mean ds" using s0 by simp
  from mean_error [OF n, of "sum_list ds"] s s0 m0
  have a: "\<bar>avg - mean ds\<bar> \<le> mean ds / 2 ^ 53" "on_grid avg" by (simp_all add: avg m)
  have "mean ds \<le> of_int (sum_list ds)" using n(1) s0
    divide_left_mono [of 1 "real_of_int ?n" "of_int (sum_list ds)"] unfolding m by simp
  moreover have "of_int (sum_list ds) \<le> (2 ^ 53 :: real)" using s by (metis of_int_le_iff of_int_numeral of_int_power)
  ultimately have "mean ds \<le> 2 ^ 53" by linarith
  moreover have "avg - mean ds \<le> mean ds / 2 ^ 53" "mean ds - avg \<le> mean ds / 2 ^ 53" using a(1) by linarith+
  ultimately have "\<bar>avg\<bar> \<le> 2 ^ 55" using m0 by (simp add: abs_le_iff)
  with squares_close [OF p a(2) _ _, of ds 0 0 0] le
  have t: "close_to (5 + length ds) (\<Sum>d\<leftarrow>ds. (of_int d - avg)\<^sup>2) (fold (sq_step pow avg) ds 0)"
    "tame (- 300) (fold (sq_step pow avg) ds 0)" by (auto simp: tame_def)
  from root_mean_close [OF t n]
  have c: "close_to (7 + length ds) (sqrt ((\<Sum>d\<leftarrow>ds. (of_int d - avg)\<^sup>2) / of_int ?n)) dev" by (simp add: dev add.commute)
  let ?x = "sqrt ((\<Sum>d\<leftarrow>ds. (of_int d - avg)\<^sup>2) / of_int ?n)"
  from close_bounds [OF c] ds(2) have b: "(1 - 1 / 2 ^ 40) * ?x \<le> dev" "(1 - 1 / 2 ^ 40) * dev \<le> ?x" by simp_all
  from around_mean [OF ds(1), of avg] have "deviation ds \<le> ?x" "?x \<le> deviation ds + \<bar>avg - mean ds\<bar>" by simp_all
  moreover from this(1) have "(1 - 1 / 2 ^ 40) * deviation ds \<le> (1 - 1 / 2 ^ 40) * ?x" by (rule mult_left_mono) simp
  ultimately show ?thesis using b a(1) by linarith
qed

end

interpretation dbl: floating rnd
  by unfold_locales (fact rnd_mono rnd_exact rnd_relative rnd_grid)+

end
