(* ===== verification/Averages.thy ===== *)
theory Averages
  imports RelativeSleep Doubles
begin

section \<open>Averages and deviations, and what is printed of them (task2, task6)\<close>

text \<open>
  The floating-point end of \<open>calctime2.c\<close> (both branches), \<open>sched_fifo_jitter.c\<close> and
  \<open>jitter_benchmark.c\<close>, and the lines these programs print. Every operation on doubles is rounded
  (theory \<open>Doubles\<close>); \<open>pow\<close> is a parameter with the contract \<open>pow_spec\<close>. Two groups of lemmas: the
  printed average is between the printed minimum and maximum and within half a unit of its last
  digit and a few roundings of the exact mean; the printed deviation is as close to the exact one.
\<close>

subsection \<open>Computing\<close>

text \<open>\<open>(double)sum / (double)n\<close>; an integer operand is converted as well.\<close>

definition average :: "int \<Rightarrow> int \<Rightarrow> real" where
  "average s n = rnd (rnd (of_int s) / rnd (of_int n))"

text \<open>The loop over the squared differences, and what follows it.\<close>

fun sum_sq_diff :: "(real \<Rightarrow> real \<Rightarrow> real) \<Rightarrow> real \<Rightarrow> int list \<Rightarrow> real \<Rightarrow> real" where
  "sum_sq_diff pow avg_ns [] acc = acc"
| "sum_sq_diff pow avg_ns (d # ds) acc =
     sum_sq_diff pow avg_ns ds (rnd (acc + pow (rnd (rnd (of_int d) - avg_ns)) 2))"

definition std_dev_ns :: "(real \<Rightarrow> real \<Rightarrow> real) \<Rightarrow> real \<Rightarrow> int list \<Rightarrow> real" where
  "std_dev_ns pow avg_ns deltas_ns =
     rnd (sqrt (rnd (sum_sq_diff pow avg_ns deltas_ns 0 / rnd (of_int (int NUM_SAMPLES)))))"

subsection \<open>Printing\<close>

text \<open>\<open>m\<close> units of the \<open>k\<close>-th decimal place.\<close>

definition decimal :: "nat \<Rightarrow> nat \<Rightarrow> string" where
  "decimal k m = (let s = show_nat (m mod 10 ^ k)
     in show_nat (m div 10 ^ k) @ ''.'' @ replicate (k - length s) CHR ''0'' @ s)"

text \<open>\<open>%.kf\<close>: the exact value of the double, to the nearest \<open>k\<close>-digit fraction, ties to even.\<close>

definition show_fixed :: "nat \<Rightarrow> real \<Rightarrow> string" where
  "show_fixed k x = (if x < 0 then ''-'' else '''') @ decimal k (nat (rne (\<bar>x\<bar> * 10 ^ k)))"

definition calctime2_lines :: "(real \<Rightarrow> real \<Rightarrow> real) \<Rightarrow> report \<Rightarrow> string list" where
  "calctime2_lines pow rep = (let avg_ns = average (rep_sum rep) (int NUM_SAMPLES) in
     [''Period stats over '' @ show_nat NUM_SAMPLES @ '' samples (target: '' @ show_int period_ns @ '' ns):'' @ [LF],
      ''  min='' @ show_int (rep_min rep) @ '' ns, avg='' @ show_fixed 1 avg_ns @ '' ns, max='' @
        show_int (rep_max rep) @ '' ns, std_dev='' @ show_fixed 1 (std_dev_ns pow avg_ns (rep_deltas rep)) @
        '' ns'' @ [LF],
      [LF] @ ''First 10 samples (delta from previous actual wakeup, ns):'' @ [LF]] @
     map (\<lambda>(i, d). ''  sample '' @ show_nat i @ '': '' @ show_int d @ [LF]) (List.enumerate 0 (rep_shown rep)))"

text \<open>The whole program: what it prints, and the message it fails with.\<close>

definition calctime2_program ::
  "(real \<Rightarrow> real \<Rightarrow> real) \<Rightarrow> timespec option \<Rightarrow> timespec option \<Rightarrow> timespec option \<Rightarrow> wakeup list \<Rightarrow>
   (string list \<times> string option) option"
where
  "calctime2_program pow res_rt res_mono t0 env =
     (let resolution = (case (res_rt, res_mono) of
          (Some rt, Some mn) \<Rightarrow>
            [''Resolution: REALTIME='' @ show_int (tv_nsec rt) @ '' ns, MONOTONIC='' @
             show_int (tv_nsec mn) @ '' ns'' @ [LF]]
        | _ \<Rightarrow> [])
      in map_option (\<lambda>r. case r of
             Inl e \<Rightarrow> (resolution, Some e)
           | Inr rep \<Rightarrow> (resolution @ calctime2_lines pow rep, None))
           (calctime2_main res_rt res_mono t0 env))"

definition sched_fifo_lines :: "jitter \<Rightarrow> string list" where
  "sched_fifo_lines rep =
     [[LF] @ ''Jitter statistics over 5000 samples (2ms period):'' @ [LF],
      ''  min latency: '' @ show_int (jmin rep) @ '' ns'' @ [LF],
      ''  avg latency: '' @ show_fixed 1 (average (jsum rep) 5000) @ '' ns'' @ [LF],
      ''  99th percentile: '' @ show_int (jp99 rep) @ '' ns'' @ [LF],
      ''  max latency: '' @ show_int (jmax rep) @ '' ns'' @ [LF]]"

definition jitter_benchmark_lines :: "int \<times> int \<times> int \<times> int \<Rightarrow> string list" where
  "jitter_benchmark_lines = (\<lambda>(min_latency, max_latency, total_latency, jitter).
     [[LF] @ ''--- Benchmark Results ---'' @ [LF],
      ''Min latency:    '' @ show_int min_latency @ '' ns'' @ [LF],
      ''Max latency:    '' @ show_int max_latency @ '' ns'' @ [LF],
      ''Avg latency:    '' @ show_fixed 2 (average total_latency (int NUM_ITERATIONS)) @ '' ns'' @ [LF],
      ''Jitter (max-min): '' @ show_int jitter @ '' ns'' @ [LF]])"

definition relative_line :: "int \<times> int \<times> int \<Rightarrow> string" where
  "relative_line = (\<lambda>(min_ns, max_ns, sum_ns).
     ''2ms-period stats over '' @ show_nat num_samples @ '' samples (relative_sleep): min='' @ show_int min_ns @
     '' ns, avg='' @ show_fixed 1 (average sum_ns (int num_samples)) @ '' ns, max='' @ show_int max_ns @ '' ns'' @ [LF])"

subsection \<open>The error of a printed average\<close>

lemma abs_diff_trans: "\<bar>a - x\<bar> \<le> c \<Longrightarrow> \<bar>x - y\<bar> \<le> e \<Longrightarrow> \<bar>a - y\<bar> \<le> c + (e :: real)"
  by linarith

lemma rne_scaled:
  assumes "0 \<le> x" "\<bar>x - y\<bar> \<le> e"
  shows "\<bar>real (nat (rne (x * 10 ^ k))) / 10 ^ k - y\<bar> \<le> 1 / (2 * 10 ^ k) + e"
proof -
  have n: "real (nat (rne (x * 10 ^ k))) = of_int (rne (x * 10 ^ k))"
    using rne_mono [of 0 "x * 10 ^ k"] assms(1) by simp
  have "\<bar>of_int (rne (x * 10 ^ k)) - x * 10 ^ k\<bar> / 10 ^ k \<le> 1 / 2 / 10 ^ k"
    by (rule divide_right_mono [OF rne_error]) simp
  moreover have "of_int (rne (x * 10 ^ k)) / 10 ^ k - x = (of_int (rne (x * 10 ^ k)) - x * 10 ^ k) / 10 ^ k"
    by (simp add: diff_divide_distrib)
  then have "\<bar>of_int (rne (x * 10 ^ k)) / 10 ^ k - x\<bar> = \<bar>of_int (rne (x * 10 ^ k)) - x * 10 ^ k\<bar> / 10 ^ k"
    by (simp add: abs_divide)
  ultimately have "\<bar>of_int (rne (x * 10 ^ k)) / 10 ^ k - x\<bar> \<le> 1 / (2 * 10 ^ k)" by simp
  from abs_diff_trans [OF this assms(2)] show ?thesis unfolding n .
qed

lemma average_printed:
  assumes ds: "ds \<noteq> []" "length ds \<le> 8000" "\<forall>d \<in> set ds. 0 \<le> d" "sum_list ds \<le> 2 ^ 53"
  obtains m where "show_fixed k (average (sum_list ds) (int (length ds))) = decimal k m"
    "\<bar>real m / 10 ^ k - mean ds\<bar> \<le> 1 / (2 * 10 ^ k) + mean ds / 2 ^ 53"
    "10 ^ k * Min (set ds) \<le> int m" "int m \<le> 10 ^ k * Max (set ds)"
proof -
  let ?n = "int (length ds)" and ?a = "average (sum_list ds) (int (length ds))"
  have n: "0 < ?n" "?n \<le> 2 ^ 53" using ds(1,2) by auto
  have s0: "0 \<le> sum_list ds" using ds(3) by (intro sum_list_nonneg) auto
  have le: "0 \<le> d \<and> d \<le> 2 ^ 53" if "d \<in> set ds" for d
    using member_le_sum_list [OF that] ds(3,4) that by fastforce
  have mm: "Min (set ds) \<in> set ds" "Max (set ds) \<in> set ds" using ds(1) by simp_all
  have "?n * Min (set ds) \<le> sum_list ds" "sum_list ds \<le> ?n * Max (set ds)"
    using sum_list_mono [of ds "\<lambda>_. Min (set ds)" "\<lambda>d. d"] sum_list_mono [of ds "\<lambda>d. d" "\<lambda>_. Max (set ds)"]
    by (simp_all add: sum_list_triv)
  with dbl.mean_between [OF n, of "sum_list ds" "Min (set ds)" "Max (set ds)"] s0 ds(4) le [OF mm(1)] le [OF mm(2)]
  have b: "of_int (Min (set ds)) \<le> ?a" "?a \<le> of_int (Max (set ds))" by (simp_all add: average_def)
  then have a0: "0 \<le> ?a" using le [OF mm(1)] by linarith
  from dbl.mean_error(1) [OF n, of "sum_list ds"] s0 ds(4)
  have "\<bar>?a - mean ds\<bar> \<le> mean ds / 2 ^ 53" by (simp add: average_def mean_def)
  from rne_scaled [OF a0 this, of k]
  have e: "\<bar>real (nat (rne (?a * 10 ^ k))) / 10 ^ k - mean ds\<bar> \<le> 1 / (2 * 10 ^ k) + mean ds / 2 ^ 53" .
  have "10 ^ k * Min (set ds) \<le> rne (?a * 10 ^ k) \<and> rne (?a * 10 ^ k) \<le> 10 ^ k * Max (set ds)"
    by (rule rne_between) (use b in \<open>simp_all add: mult.commute [of "10 ^ k"] mult_right_mono\<close>)
  moreover have "0 \<le> 10 ^ k * Min (set ds)" using le [OF mm(1)] by simp
  ultimately show ?thesis by (intro that [of "nat (rne (?a * 10 ^ k))"]) (use a0 e in \<open>auto simp: show_fixed_def\<close>)
qed

subsection \<open>The error of a printed deviation\<close>

lemma sum_sq_diff_fold: "sum_sq_diff pow avg ds acc = fold (dbl.sq_step pow avg) ds acc"
  by (induction ds arbitrary: acc) (simp_all add: dbl.sq_step_def)

lemma rnd_5000: "rnd 5000 = 5000"
  using dbl.round_int [of 5000] by simp

lemma deviation_nonneg: "0 \<le> deviation ds"
  unfolding deviation_def by (intro real_sqrt_ge_zero divide_nonneg_nonneg sum_list_nonneg) auto

lemma deviation_le:
  assumes "ds \<noteq> []" "\<forall>d \<in> set ds. \<bar>of_int d - mean ds\<bar> \<le> b"
  shows "deviation ds \<le> b"
proof -
  have b: "0 \<le> b" using assms by (metis abs_ge_zero hd_in_set order_trans)
  have "(of_int d - mean ds)\<^sup>2 \<le> b\<^sup>2" if "d \<in> set ds" for d
    using assms(2) that b by (simp add: abs_le_square_iff [symmetric])
  then have "(\<Sum>d\<leftarrow>ds. (of_int d - mean ds)\<^sup>2) \<le> (\<Sum>d\<leftarrow>ds. b\<^sup>2)" by (intro sum_list_mono)
  then have "(\<Sum>d\<leftarrow>ds. (of_int d - mean ds)\<^sup>2) / real (length ds) \<le> b\<^sup>2"
    using assms(1) by (simp add: sum_list_triv divide_le_eq mult.commute)
  with b show ?thesis unfolding deviation_def by (simp add: real_le_lsqrt)
qed

lemma deviation_printed:
  assumes "pow_spec pow" "length ds = 5000" "\<forall>d \<in> set ds. 0 \<le> d \<and> d < 2 ^ 33"
  obtains m where "show_fixed 1 (std_dev_ns pow (average (sum_list ds) 5000) ds) = decimal 1 m"
    "\<bar>real m / 10 - deviation ds\<bar> \<le> 6 / 100"
proof -
  let ?dev = "std_dev_ns pow (average (sum_list ds) 5000) ds"
  have ne: "ds \<noteq> []" using assms(2) by auto
  have "sum_list ds \<le> (\<Sum>d\<leftarrow>ds. 2 ^ 33)" using sum_list_mono [of ds "\<lambda>d. d" "\<lambda>_. 2 ^ 33"] assms(3) by force
  then have s: "sum_list ds \<le> 5000 * 2 ^ 33" using assms(2) by (simp add: sum_list_triv)
  have s0: "0 \<le> sum_list ds" using assms(3) by (intro sum_list_nonneg) auto
  have "real_of_int (sum_list ds) \<le> of_int (5000 * 2 ^ 33)" using s by (simp only: of_int_le_iff)
  then have m: "0 \<le> mean ds" "mean ds \<le> 2 ^ 33" using s0 assms(2) by (simp_all add: mean_def)
  have "\<bar>of_int d - mean ds\<bar> \<le> 2 ^ 33" if "d \<in> set ds" for d
  proof -
    have "0 \<le> real_of_int d" "real_of_int d \<le> of_int (2 ^ 33)"
      using assms(3) that by (auto simp only: of_int_le_iff of_int_0_le_iff less_imp_le)
    with m show ?thesis by (simp add: abs_le_iff)
  qed
  then have d: "deviation ds \<le> 2 ^ 33" by (intro deviation_le [OF ne]) simp
  have "(1 - 1 / 2 ^ 40) * deviation ds \<le> ?dev \<and> (1 - 1 / 2 ^ 40) * ?dev \<le> deviation ds + mean ds / 2 ^ 53"
    by (rule dbl.deviation_error [OF assms(1) ne])
      (use assms(2,3) s in \<open>auto simp: std_dev_ns_def average_def sum_sq_diff_fold NUM_SAMPLES_def rnd_5000\<close>)
  then have lower: "(1 - 1 / 2 ^ 40) * deviation ds \<le> ?dev"
    and "?dev - deviation ds \<le> 1 / 100" "deviation ds - ?dev \<le> 1 / 100" using d m by auto
  then have "\<bar>?dev - deviation ds\<bar> \<le> 1 / 100" by linarith
  moreover have dev0: "0 \<le> ?dev" using lower deviation_nonneg [of ds] by simp
  ultimately have "\<bar>real (nat (rne (?dev * 10 ^ 1))) / 10 ^ 1 - deviation ds\<bar> \<le> 1 / (2 * 10 ^ 1) + 1 / 100"
    by (intro rne_scaled)
  with dev0 show ?thesis by (intro that [of "nat (rne (?dev * 10 ^ 1))"]) (auto simp: show_fixed_def)
qed

subsection \<open>Properties\<close>

lemma enumerate_take:
  "k \<le> length xs \<Longrightarrow> List.enumerate 0 (take k xs) = map (\<lambda>i. (i, xs ! i)) [0..<k]"
  by (rule nth_equalityI) (auto simp: nth_enumerate_eq)

text \<open>
  C9. What \<open>calctime2.c\<close> prints, for wakeups under every pattern of lateness below 8 seconds and of
  interrupted sleeps. The sampling does not drift: the deadline of sample \<open>i\<close> is \<open>i + 1\<close> periods of
  2 ms after the first reading, and its delta is the reading less the scheduled time one period
  before. The printed minimum and maximum are exact, the printed average is between them and within
  0.06 ns of the exact mean, the printed standard deviation is within 0.06 ns of the exact one in
  spite of 5000 roundings, and the first 100 deltas follow.
\<close>

theorem calctime2_prints:
  assumes "pow_spec pow" "valid_ts ts" "0 \<le> tv_sec ts" "ns_of ts < 2 ^ 60" "t0 = ns_of ts"
    and "punctual t0 env" "length env = 5000"
    and "ds = map (\<lambda>i. reading (env ! i) - (t0 + int i * 2000000)) [0..<5000]" "\<forall>d \<in> set ds. d < 2 ^ 33"
  shows "\<exists>avg dev. calctime2_program pow (Some rt) (Some mt) (Some ts) env =
      Some ([''Resolution: REALTIME='' @ show_int (tv_nsec rt) @ '' ns, MONOTONIC='' @ show_int (tv_nsec mt) @ '' ns'' @ [LF],
        ''Period stats over 5000 samples (target: 2000000 ns):'' @ [LF],
        ''  min='' @ show_int (Min (set ds)) @ '' ns, avg='' @ decimal 1 avg @ '' ns, max='' @
          show_int (Max (set ds)) @ '' ns, std_dev='' @ decimal 1 dev @ '' ns'' @ [LF],
        [LF] @ ''First 10 samples (delta from previous actual wakeup, ns):'' @ [LF]] @
        map (\<lambda>i. ''  sample '' @ show_nat i @ '': '' @ show_int (ds ! i) @ [LF]) [0..<100], None) \<and>
    10 * Min (set ds) \<le> int avg \<and> int avg \<le> 10 * Max (set ds) \<and> \<bar>real avg / 10 - mean ds\<bar> \<le> 6 / 100 \<and>
    \<bar>real dev / 10 - deviation ds\<bar> \<le> 6 / 100 \<and> (\<forall>d \<in> set ds. 2000000 \<le> d) \<and>
    (\<exists>samples. sample_loop 5000 (t0 + period_ns) env = Some (Inr samples) \<and>
       map fst samples = map (\<lambda>i. ns_to_timespec (t0 + (int i + 1) * 2000000)) [0..<5000])"
proof -
  note run = calctime2_no_drift [OF assms(2-7) option.distinct(2) [of rt] option.distinct(2) [of mt] assms(8)]
  have len: "length ds = 5000" "ds \<noteq> []" using assms(8) by (auto simp del: upt_rec_numeral)
  have d: "\<forall>d \<in> set ds. 0 \<le> d \<and> d < 2 ^ 33" using run assms(9) by force
  have s: "sum_list ds \<le> 5000 * 2 ^ 33" using sum_list_mono [of ds "\<lambda>d. d" "\<lambda>_. 2 ^ 33"] d len(1)
    by (force simp: sum_list_triv)
  have "real_of_int (sum_list ds) \<le> of_int (5000 * 2 ^ 33)" using s by (simp only: of_int_le_iff)
  then have m: "mean ds \<le> 2 ^ 33" using len by (simp add: mean_def)
  obtain avg where avg: "show_fixed 1 (average (sum_list ds) (int (length ds))) = decimal 1 avg"
    "\<bar>real avg / 10 ^ 1 - mean ds\<bar> \<le> 1 / (2 * 10 ^ 1) + mean ds / 2 ^ 53"
    "10 ^ 1 * Min (set ds) \<le> int avg" "int avg \<le> 10 ^ 1 * Max (set ds)"
    by (rule average_printed [where k = 1, OF len(2)]) (use d s len in auto)
  obtain dev where dev: "show_fixed 1 (std_dev_ns pow (average (sum_list ds) 5000) ds) = decimal 1 dev"
    "\<bar>real dev / 10 - deviation ds\<bar> \<le> 6 / 100" by (rule deviation_printed [OF assms(1) len(1) d])
  have "\<bar>real avg / 10 - mean ds\<bar> \<le> 6 / 100" using avg(2) m by simp
  moreover have "show_nat 5000 = ''5000''" "show_int 2000000 = ''2000000''"
    by (simp_all add: show_int_def show_nat.simps)
  ultimately show ?thesis using run avg(1,3,4) dev len
    by (intro exI [of _ avg] exI [of _ dev])
      (simp add: calctime2_program_def calctime2_lines_def NUM_SAMPLES_def period_ns_def MILLION_def
        enumerate_take comp_def del: upt_rec_numeral)
qed

theorem calctime2_prints_witness:
  "\<exists>samples. calctime2_program (\<lambda>x y. x\<^sup>2) (Some \<lparr>tv_sec = 0, tv_nsec = 1\<rparr>) (Some \<lparr>tv_sec = 0, tv_nsec = 1\<rparr>)
      (Some \<lparr>tv_sec = 7, tv_nsec = 5\<rparr>) (on_time 7000000005 5000) =
    Some ([''Resolution: REALTIME=1 ns, MONOTONIC=1 ns'' @ [LF],
      ''Period stats over 5000 samples (target: 2000000 ns):'' @ [LF],
      ''  min=2000000 ns, avg=2000000.0 ns, max=2000000 ns, std_dev=0.0 ns'' @ [LF]] @ samples, None)"
proof -
  let ?ts = "\<lparr>tv_sec = 7, tv_nsec = 5\<rparr>" and ?env = "on_time 7000000005 5000"
  define ds where "ds = map (\<lambda>i. reading (?env ! i) - (7000000005 + int i * 2000000)) [0..<5000]"
  have "ds ! i = 2000000" if "i < 5000" for i
    using that by (simp add: ds_def on_time_def reading_def ns_of_ns_to_timespec period_ns_def MILLION_def
        algebra_simps del: upt_rec_numeral)
  then have ds: "ds = replicate 5000 2000000"
    by (intro nth_equalityI) (simp_all add: ds_def del: upt_rec_numeral)
  have set: "set ds = {2000000}" unfolding ds by (rule set_replicate) simp
  have mean: "mean ds = 2000000" unfolding mean_def ds by (simp only: sum_list_replicate length_replicate)
  have "deviation ds = 0" unfolding deviation_def mean unfolding ds map_replicate
    by (simp only: sum_list_replicate length_replicate) simp
  moreover have "valid_ts ?ts" "0 \<le> tv_sec ?ts" "ns_of ?ts < 2 ^ 60" "7000000005 = ns_of ?ts"
    by (simp_all add: valid_ts_def ns_of_def)
  moreover have "punctual 7000000005 ?env" by (rule punctual_on_time) simp
  moreover have "pow_spec (\<lambda>x y. x\<^sup>2)" by (simp add: pow_spec_def)
  moreover have "\<forall>d \<in> set ds. d < 2 ^ 33" by (simp add: set)
  ultimately obtain avg dev samples where
    run: "calctime2_program (\<lambda>x y. x\<^sup>2) (Some \<lparr>tv_sec = 0, tv_nsec = 1\<rparr>) (Some \<lparr>tv_sec = 0, tv_nsec = 1\<rparr>) (Some ?ts) ?env =
      Some ([''Resolution: REALTIME='' @ show_int 1 @ '' ns, MONOTONIC='' @ show_int 1 @ '' ns'' @ [LF],
        ''Period stats over 5000 samples (target: 2000000 ns):'' @ [LF],
        ''  min='' @ show_int (Min (set ds)) @ '' ns, avg='' @ decimal 1 avg @ '' ns, max='' @
          show_int (Max (set ds)) @ '' ns, std_dev='' @ decimal 1 dev @ '' ns'' @ [LF]] @ samples, None)"
    and b: "10 * Min (set ds) \<le> int avg" "int avg \<le> 10 * Max (set ds)" "\<bar>real dev / 10\<bar> \<le> 6 / 100"
    using calctime2_prints [OF _ _ _ _ _ _ length_on_time ds_def, of "\<lambda>x y. x\<^sup>2" ?ts "\<lparr>tv_sec = 0, tv_nsec = 1\<rparr>" "\<lparr>tv_sec = 0, tv_nsec = 1\<rparr>"]
    by fastforce
  from b have "avg = 20000000" "dev = 0" by (simp_all add: set)
  with run show ?thesis by (simp add: set show_int_def decimal_def show_nat.simps)
qed



text \<open>
  What \<open>jitter_benchmark.c\<close> prints of its latencies: the exact minimum, maximum and jitter, and an
  average between the two and within half a unit of its last digit of the exact mean, but for the
  rounding of the quotient.
\<close>

theorem jitter_benchmark_prints:
  assumes "length rs = 1000"
    and "\<forall>(a, b) \<in> set rs. valid_ts a \<and> valid_ts b \<and> ns_of a \<le> ns_of b \<and> ns_of b - ns_of a < 2 ^ 43 \<and>
      \<bar>tv_sec b - tv_sec a\<bar> < 9223372035"
    and "ls = map (\<lambda>(a, b). ns_of b - ns_of a) rs"
  shows "\<exists>avg. map_option jitter_benchmark_lines (jitter_benchmark rs) =
    Some [[LF] @ ''--- Benchmark Results ---'' @ [LF],
      ''Min latency:    '' @ show_int (Min (set ls)) @ '' ns'' @ [LF],
      ''Max latency:    '' @ show_int (Max (set ls)) @ '' ns'' @ [LF],
      ''Avg latency:    '' @ decimal 2 avg @ '' ns'' @ [LF],
      ''Jitter (max-min): '' @ show_int (Max (set ls) - Min (set ls)) @ '' ns'' @ [LF]] \<and>
    100 * Min (set ls) \<le> int avg \<and> int avg \<le> 100 * Max (set ls) \<and>
    \<bar>real avg / 100 - mean ls\<bar> \<le> 1 / 200 + mean ls / 2 ^ 53"
proof -
  have run: "jitter_benchmark rs = Some (Min (set ls), Max (set ls), sum_list ls, Max (set ls) - Min (set ls))"
    using jitter_benchmark_correct [OF assms(1) _ assms(3)] assms(2) by fastforce
  have len: "length ls = 1000" "ls \<noteq> []" using assms(1,3) by auto
  have d: "\<forall>d \<in> set ls. 0 \<le> d \<and> d < 2 ^ 43" using assms(2) by (auto simp: assms(3))
  then have "sum_list ls \<le> 1000 * 2 ^ 43" using sum_list_mono [of ls "\<lambda>d. d" "\<lambda>_. 2 ^ 43"] len(1)
    by (force simp: sum_list_triv)
  then obtain avg where avg: "show_fixed 2 (average (sum_list ls) (int (length ls))) = decimal 2 avg"
    "\<bar>real avg / 10 ^ 2 - mean ls\<bar> \<le> 1 / (2 * 10 ^ 2) + mean ls / 2 ^ 53"
    "10 ^ 2 * Min (set ls) \<le> int avg" "int avg \<le> 10 ^ 2 * Max (set ls)"
    by - (rule average_printed [where k = 2, OF len(2)], use d len in auto)
  then show ?thesis using run len
    by (intro exI [of _ avg]) (simp add: jitter_benchmark_lines_def NUM_ITERATIONS_def)
qed

text \<open>
  What the branch of \<open>calctime2.c\<close> for other systems prints: its average is between the extreme
  differences and as close to the mean.
\<close>

theorem relative_sleep_prints:
  assumes "ordered start rs" "length rs = 5000" "ds = gaps start rs" "sum_list ds \<le> 2 ^ 53"
  shows "\<exists>avg. map_option relative_line (relative_main start rs) =
    Some (''2ms-period stats over 5000 samples (relative_sleep): min='' @ show_int (min 999999999 (Min (set ds))) @
      '' ns, avg='' @ decimal 1 avg @ '' ns, max='' @ show_int (Max (set ds)) @ '' ns'' @ [LF]) \<and>
    10 * Min (set ds) \<le> int avg \<and> int avg \<le> 10 * Max (set ds) \<and>
    \<bar>real avg / 10 - mean ds\<bar> \<le> 1 / 20 + mean ds / 2 ^ 53"
proof -
  have "length ds = 5000" using assms(2,3) by simp
  then have len: "length ds = 5000" "ds \<noteq> []" by auto
  have d: "\<forall>d \<in> set ds. 0 \<le> d" using ordered_gaps [OF assms(1)] assms(3) by auto
  obtain avg where avg: "show_fixed 1 (average (sum_list ds) (int (length ds))) = decimal 1 avg"
    "\<bar>real avg / 10 ^ 1 - mean ds\<bar> \<le> 1 / (2 * 10 ^ 1) + mean ds / 2 ^ 53"
    "10 ^ 1 * Min (set ds) \<le> int avg" "int avg \<le> 10 ^ 1 * Max (set ds)"
    by (rule average_printed [where k = 1, OF len(2)]) (use d assms(4) len in auto)
  moreover have "show_nat 5000 = ''5000''" by (simp add: show_nat.simps)
  ultimately show ?thesis using relative_main_exact [OF assms(1-3)] len
    by (intro exI [of _ avg]) (simp add: relative_line_def num_samples_def)
qed

end
