(* ===== verification/Startup.thy ===== *)
theory Startup
  imports SharedVars Signals Averages CStrings Syscalls
begin

section \<open>Scheduling and terminal set-up (task1, task2, task6)\<close>

text \<open>
  What the programs ask of the scheduler and the terminal before their loops start, and what
  becomes of them when it is refused: the thread attributes of \<open>mutex.c\<close> and \<open>nomutex.c\<close>, the
  real-time settings of \<open>sched_fifo_jitter.c\<close> and \<open>jitter_benchmark.c\<close>, the raw terminal mode of
  \<open>intsimple.c\<close>.
\<close>

subsection \<open>The mains of mutex.c and nomutex.c\<close>

text \<open>
  The priorities of \<open>SCHED_RR\<close> on Linux; \<open>pthread_attr_setschedparam\<close> refuses any other, and
  \<open>pthread_create\<close> with explicit attributes refuses it too, and needs the privilege.
\<close>

definition rr_range :: "int \<Rightarrow> bool" where
  "rr_range p \<longleftrightarrow> 1 \<le> p \<and> p \<le> 99"

text \<open>
  \<open>own\<close> is the priority \<open>pthread_getschedparam\<close> gives for main, \<open>unset\<close> the priority of attributes
  that were never given one. The program looks at no result.
\<close>

definition attr_priority :: "int \<Rightarrow> int \<Rightarrow> int" where
  "attr_priority unset own = (let prio = own - 2 in if rr_range prio then prio else unset)"

definition create_rr :: "bool \<Rightarrow> int \<Rightarrow> bool" where
  "create_rr privileged prio \<longleftrightarrow> rr_range prio \<and> privileged"

text \<open>
  The identifiers in \<open>threadID\<close>: of a thread that was created, or nothing defined. Cancelling an
  identifier that is not defined is undefined behaviour, here \<^const>\<open>None\<close>. \<open>v1\<close> and \<open>v2\<close> are the
  counters when main prints them.
\<close>

definition threads_main :: "string \<Rightarrow> int \<Rightarrow> bool \<Rightarrow> int \<Rightarrow> int \<times> int \<Rightarrow> string list option" where
  "threads_main progname unset privileged own = (\<lambda>(v1, v2).
    (let threadID = map (\<lambda>i. if create_rr privileged (attr_priority unset own) then Some i else None) [0..<NumThreads]
     in if None \<in> set threadID then None
        else Some [progname @ '':  starting; creating threads'' @ [LF],
                   progname @ '':  stopping; cancelling threads'' @ [LF],
                   progname @ '':  all done, var1 is '' @ show_int v1 @ '', var2 is '' @ show_int v2 @ [LF]]))"

definition nomutex_main :: "int \<Rightarrow> bool \<Rightarrow> int \<Rightarrow> int \<times> int \<Rightarrow> string list option" where
  "nomutex_main = threads_main ''nomutex''"

definition mutex_main :: "int \<Rightarrow> bool \<Rightarrow> int \<Rightarrow> int \<times> int \<Rightarrow> string list option" where
  "mutex_main = threads_main ''mutex''"

subsection \<open>The terminal of intsimple.c\<close>

definition ICANON :: u32 where "ICANON = 2"
definition ECHO :: u32 where "ECHO = 8"

record termios =
  c_lflag :: u32
  vmin :: nat
  vtime :: nat

text \<open>The terminal, and what the process keeps: the saved modes once \<open>restore_terminal\<close> is registered.\<close>

record tty =
  modes :: termios
  at_exit :: "termios option"

definition enable_raw_mode :: "bool \<Rightarrow> bool \<Rightarrow> tty \<Rightarrow> int \<times> tty" where
  "enable_raw_mode got set_ok t =
    (if \<not> got then (- 1, t)
     else (let orig_termios = modes t;
               raw = orig_termios\<lparr>c_lflag := c_lflag orig_termios AND NOT (ICANON OR ECHO), vmin := 0, vtime := 0\<rparr>
           in if \<not> set_ok then (- 1, t)
              else (0, t\<lparr>modes := raw, at_exit := Some orig_termios\<rparr>)))"

definition restore_terminal :: "tty \<Rightarrow> tty" where
  "restore_terminal t = (case at_exit t of None \<Rightarrow> t | Some orig_termios \<Rightarrow> t\<lparr>modes := orig_termios\<rparr>)"

text \<open>
  \<open>main\<close> around its loop: \<open>s\<close> is a state the loop has reached, and the program goes on behind the
  loop once it is at its end. The handlers registered with \<open>atexit\<close> run when main returns.
\<close>

definition intsimple_main :: "bool \<Rightarrow> bool \<Rightarrow> poller \<Rightarrow> tty \<Rightarrow> string list \<times> tty \<times> exit_status" where
  "intsimple_main got set_ok s t =
    (let start = ''intsimple: starting...'' @ [LF]; (rc, t') = enable_raw_mode got set_ok t
     in if rc = - 1 then ([start, ''termios''], restore_terminal t', Some EXIT_FAILURE)
        else if place s \<noteq> Exited then ([start], t', None)
        else ([start, ''intsimple: exiting...'' @ [LF]], restore_terminal t', Some EXIT_SUCCESS))"

subsection \<open>Real-time settings\<close>

text \<open>\<open>sched_fifo_jitter.c\<close> only warns; \<open>n_cpus\<close> is what \<open>sysconf\<close> gives.\<close>

definition rt_settings :: "bool \<Rightarrow> bool \<Rightarrow> int \<Rightarrow> bool \<Rightarrow> string list" where
  "rt_settings scheduled mem_locked n_cpus pinned =
    [if scheduled then ''Switched to SCHED_FIFO priority 50'' @ [LF]
     else ''WARNING: sched_setscheduler failed; continuing with default scheduler''] @
    (if mem_locked then [] else [''WARNING: mlockall failed'']) @
    (if n_cpus > 0
     then [if pinned then ''Pinned thread to CPU '' @ show_int (n_cpus - 1) @ [LF]
           else ''WARNING: pthread_setaffinity_np failed'']
     else [])"

definition sched_fifo_program ::
  "bool \<Rightarrow> bool \<Rightarrow> int \<Rightarrow> bool \<Rightarrow> ((int \<Rightarrow> int \<Rightarrow> int) \<Rightarrow> int list \<Rightarrow> int list) \<Rightarrow> timespec \<Rightarrow>
   (int list \<times> timespec) list \<Rightarrow> (string list \<times> nat) option" where
  "sched_fifo_program scheduled mem_locked n_cpus pinned qsort t0 env =
    (let settings = rt_settings scheduled mem_locked n_cpus pinned in
     map_option (\<lambda>r. case r of
         Inl e \<Rightarrow> (settings @ [e], 1)
       | Inr rep \<Rightarrow> (settings @ sched_fifo_lines rep, 0)) (sched_fifo_main qsort t0 env))"

text \<open>The mains of four programs on systems other than Linux.\<close>

definition sched_fifo_other :: "string list \<times> exit_status" where
  "sched_fifo_other = ([''sched_fifo_jitter: Linux-only example (SCHED_FIFO not available)'' @ [LF]], Some 0)"

definition reptimer_other :: "string list \<times> exit_status" where
  "reptimer_other = ([''reptimer_timerfd: Linux-only example (timerfd not available on this platform)'' @ [LF]], Some 0)"

definition timeout_mq_other :: "string list \<times> exit_status" where
  "timeout_mq_other = ([''timeout_mq: Linux-only example (POSIX MQ not available)'' @ [LF]], Some 0)"

definition mq_clean_burst_other :: "string list \<times> exit_status" where
  "mq_clean_burst_other = ([''mq_clean_burst: Linux-only example (POSIX MQ not available)'' @ [LF]], Some 0)"

text \<open>\<open>jitter_benchmark.c\<close> gives up; \<open>arg\<close> is what \<open>atoi\<close> makes of its argument, if it has one.\<close>

definition jitter_program ::
  "int option \<Rightarrow> bool \<Rightarrow> bool \<Rightarrow> (timespec \<times> timespec) list \<Rightarrow> (string list \<times> nat) option" where
  "jitter_program arg pinned scheduled readings =
    (let target_cpu = (case arg of None \<Rightarrow> - 1 | Some n \<Rightarrow> n);
         tr0 = (case arg of None \<Rightarrow> [] | Some n \<Rightarrow> [''Target CPU specified: '' @ show_int n @ [LF]])
     in if target_cpu \<noteq> - 1 \<and> \<not> pinned then Some (tr0 @ [''sched_setaffinity failed. Try with sudo.''], 1)
        else (let tr1 = tr0 @ (if target_cpu \<noteq> - 1 then [''Process pinned to CPU '' @ show_int target_cpu @ [LF]] else [])
              in if \<not> scheduled then Some (tr1 @ [''sched_setscheduler failed. Try with sudo.''], 1)
                 else do {
                   report \<leftarrow> jitter_benchmark readings;
                   Some (tr1 @ [''Scheduler policy set to SCHED_FIFO with priority 50'' @ [LF],
                          ''Starting benchmark...'' @ [LF]] @ jitter_benchmark_lines report, 0) }))"

lemma jitter_needs_settings:
  "jitter_program arg pinned scheduled readings = Some (tr, 0) \<Longrightarrow>
   scheduled \<and> (arg = None \<or> arg = Some (- 1) \<or> pinned) \<and> jitter_benchmark readings \<noteq> None"
  by (auto simp: jitter_program_def Let_def bind_eq_Some_conv split: if_splits option.splits)

subsection \<open>Properties\<close>

text \<open>
  Neither \<open>mutex.c\<close> nor \<open>nomutex.c\<close> starts a thread under the ordinary scheduler: main's priority
  is 0 there, so the lowered priority is -2, which the attributes refuse, and a \<open>SCHED_RR\<close> thread
  of priority 0 cannot be created with any privilege; the program then cancels identifiers that
  were never defined. It works when main itself runs with a real-time priority of at least 3 and
  the privilege to create such threads.
\<close>

theorem threads_not_created:
  "nomutex_main 0 privileged 0 vs = None \<and> mutex_main 0 privileged 0 vs = None \<and>
   (3 \<le> own \<and> own \<le> 99 \<longrightarrow> (nomutex_main unset privileged own vs \<noteq> None \<longleftrightarrow> privileged) \<and>
      (mutex_main unset privileged own vs \<noteq> None \<longleftrightarrow> privileged))"
  by (cases vs)
    (auto simp: nomutex_main_def mutex_main_def threads_main_def create_rr_def attr_priority_def rr_range_def
      NumThreads_def Let_def image_constant_conv)

theorem threads_not_created_witness:
  "nomutex_main 0 True 0 (0, 0) = None \<and> mutex_main 0 True 10 (5, 5) \<noteq> None"
  using threads_not_created [of True "(0, 0)" 10 0] threads_not_created [of True "(5, 5)" 10 0] by simp



end
