(* ===== verification/TrafficTimer.thy ===== *)
theory TrafficTimer
  imports Traffic
begin

section \<open>The controller against its timer (task7)\<close>

text \<open>
  Theory \<open>Traffic\<close> has the controller thread pass by pass. Here its statements are interleaved with
  the timer and the signal handler, which may interrupt between any two of them: the one-shot
  timer expires some time after it was armed and queues \<open>SIGRTMIN\<close>, and \<open>timer_handler\<close> sets the
  flag the controller waits for. The steps refine the passes, and no expiration is lost or
  counted twice. \<open>traffic_main\<close> is the set-up.
\<close>

datatype ctl_pc =
    Show    \<comment> \<open>at the critical section\<close>
  | Reset   \<comment> \<open>at \<open>timer_expired = 0\<close>\<close>
  | Arm     \<comment> \<open>at the switch and \<open>timer_settime\<close>\<close>
  | Wait    \<comment> \<open>at the test of \<open>timer_expired\<close>\<close>

record traffic =
  ctl :: ctl_pc
  next_state :: TrafficState
  current_state :: TrafficState
  timer_expired :: bool
  armed :: bool           \<comment> \<open>the timer runs\<close>
  queued :: bool          \<comment> \<open>a timer has at most one queued signal\<close>
  refused :: bool         \<comment> \<open>the last \<open>timer_settime\<close> failed\<close>
  junks :: "int list"     \<comment> \<open>what the uninitialised nanoseconds were\<close>
  ticks :: nat            \<comment> \<open>runs of the handler\<close>
  shown :: "string list"

definition traffic_start :: traffic where
  "traffic_start = \<lparr>ctl = Show, next_state = STATE_ALL_RED, current_state = STATE_INIT, timer_expired = False,
     armed = False, queued = False, refused = False, junks = [], ticks = 0, shown = []\<rparr>"

text \<open>
  One step of the controller; \<open>junk\<close> is the value of the uninitialised nanoseconds. A refused
  \<open>timer_settime\<close> leaves the timer as it is.
\<close>

definition ctl_step :: "int \<Rightarrow> traffic \<Rightarrow> traffic" where
  "ctl_step junk s = (case ctl s of
     Show \<Rightarrow> s\<lparr>current_state := next_state s, shown := shown s @ [print_lights (next_state s)], ctl := Reset\<rparr>
   | Reset \<Rightarrow> s\<lparr>timer_expired := False, ctl := Arm\<rparr>
   | Arm \<Rightarrow>
       (let (sec, nsec, next') = fsm_switch junk (current_state s); ok = timer_settime_ok sec nsec
        in s\<lparr>next_state := next', armed := armed s \<or> ok, refused := \<not> ok, junks := junks s @ [junk], ctl := Wait\<rparr>)
   | Wait \<Rightarrow> if timer_expired s then s\<lparr>ctl := Show\<rparr> else s)"

definition timer_handler :: "traffic \<Rightarrow> traffic" where
  "timer_handler s = s\<lparr>timer_expired := True, ticks := Suc (ticks s)\<rparr>"

inductive traffic_step :: "traffic \<Rightarrow> traffic \<Rightarrow> bool" where
  controller: "traffic_step s (ctl_step junk s)"
| expire: "armed s \<Longrightarrow> traffic_step s (s\<lparr>armed := False, queued := True\<rparr>)"
| deliver: "queued s \<Longrightarrow> traffic_step s (timer_handler (s\<lparr>queued := False\<rparr>))"

inductive_cases traffic_stepE: "traffic_step s t"

text \<open>
  \<open>main\<close>: the results of \<open>timer_create\<close> and of \<open>pthread_create\<close>, which is not looked at. The
  controller thread never returns, so behind \<open>pthread_join\<close> main does nothing any more; without the
  thread the identifier it joins is undefined (\<^const>\<open>None\<close>). The input thread is never created.
\<close>

definition traffic_main :: "bool \<Rightarrow> bool \<Rightarrow> int list \<Rightarrow> (string list \<times> nat option) option" where
  "traffic_main timer_created thread_created js =
    (if \<not> timer_created then Some ([''timer_create failed''], Some 1)
     else if \<not> thread_created then None
     else Some (fst (controller_thread_func js), None))"

subsection \<open>The invariant\<close>

abbreviation all_red :: string where "all_red \<equiv> print_lights STATE_ALL_RED"

lemma controller_thread_func_snoc:
  "\<not> snd (controller_thread_func js) \<Longrightarrow>
   controller_thread_func (js @ [j]) = (fst (controller_thread_func js) @ [all_red], \<not> timer_settime_ok 1 j)"
  unfolding controller_thread_func_def
  by (induction js) (auto simp: fsm_switch_def Let_def split: prod.splits if_splits)

text \<open>
  Between two waits nothing of the timer is under way; in a wait exactly one of: the timer runs,
  its signal is queued, the flag is set, or none of them where the timer was refused.
\<close>

fun timer_at :: "traffic \<Rightarrow> bool" where
  "timer_at s \<longleftrightarrow> (case ctl s of
     Wait \<Rightarrow> of_bool (armed s) + of_bool (queued s) + of_bool (timer_expired s) = (of_bool (\<not> refused s) :: nat)
   | Arm \<Rightarrow> \<not> armed s \<and> \<not> queued s \<and> \<not> timer_expired s
   | _ \<Rightarrow> \<not> armed s \<and> \<not> queued s)"

fun shown_at :: "traffic \<Rightarrow> bool" where
  "shown_at s \<longleftrightarrow> (case ctl s of
     Show \<Rightarrow> controller_thread_func (junks s) = (shown s, False) \<and> length (shown s) = ticks s
   | Wait \<Rightarrow> controller_thread_func (junks s) = (shown s, refused s) \<and>
       length (shown s) = ticks s + of_bool (\<not> timer_expired s)
   | _ \<Rightarrow> shown s = fst (controller_thread_func (junks s)) @ [all_red] \<and>
       \<not> snd (controller_thread_func (junks s)) \<and> length (shown s) = Suc (ticks s))"

definition traffic_inv :: "traffic \<Rightarrow> bool" where
  "traffic_inv s \<longleftrightarrow> next_state s = STATE_ALL_RED \<and> (ctl s \<noteq> Show \<longrightarrow> current_state s = STATE_ALL_RED) \<and>
     timer_at s \<and> shown_at s"

interpretation traffic_run: inductive_invariant "\<lambda>s. s = traffic_start" traffic_step traffic_inv
proof
  show "traffic_inv s" if "s = traffic_start" for s
    using that by (simp add: traffic_inv_def traffic_start_def controller_thread_func_def)
  show "traffic_inv t" if inv: "traffic_inv s" and st: "traffic_step s t" for s t
    using st
  proof cases
    case (controller junk)
    show ?thesis
    proof (cases "ctl s")
      case Arm
      with inv controller show ?thesis
        by (auto simp: traffic_inv_def ctl_step_def fsm_switch_def Let_def controller_thread_func_snoc)
    qed (use inv controller in \<open>auto simp: traffic_inv_def ctl_step_def of_bool_def split: if_splits\<close>)
  next
    case expire
    with inv show ?thesis by (cases "ctl s") (auto simp: traffic_inv_def)
  next
    case deliver
    with inv show ?thesis by (cases "ctl s") (auto simp: traffic_inv_def timer_handler_def)
  qed
qed

lemma refused_stuck:
  assumes "traffic_inv s" "ctl s = Wait" "refused s" "traffic_step s t"
  shows "t = s"
  using assms(4)
proof cases
  case (controller junk)
  with assms(1-3) show ?thesis by (auto simp: traffic_inv_def ctl_step_def)
qed (use assms(1-3) in \<open>auto simp: traffic_inv_def\<close>)

subsection \<open>Properties\<close>

text \<open>
  C17. No expiration of the timer is lost, and none is counted twice: wherever the signal strikes, the
  lines the controller has shown are as many as the runs of the handler or one more, and when it
  waits, what it has shown and whether it hangs is what the pass-by-pass model says for the values
  it found; unless the timer was refused, an expiration is on its way or already there, and if it
  was refused the program makes no step any more.
\<close>

theorem traffic_no_tick_lost:
  assumes "traffic_step\<^sup>*\<^sup>* traffic_start s"
  shows "ticks s \<le> length (shown s) \<and> length (shown s) \<le> Suc (ticks s) \<and>
    (ctl s = Wait \<longrightarrow> controller_thread_func (junks s) = (shown s, refused s) \<and>
       traffic_main True True (junks s) = Some (shown s, None) \<and>
       (if refused s then \<forall>t. traffic_step s t \<longrightarrow> t = s else armed s \<or> queued s \<or> timer_expired s))"
proof -
  have inv: "traffic_inv s" using traffic_run.inv_run [OF refl assms] .
  then have "ticks s \<le> length (shown s) \<and> length (shown s) \<le> Suc (ticks s)"
    by (cases "ctl s") (auto simp: traffic_inv_def)
  moreover have "if refused s then \<forall>t. traffic_step s t \<longrightarrow> t = s else armed s \<or> queued s \<or> timer_expired s"
    if "ctl s = Wait"
    using inv that refused_stuck [OF inv that]
    by (cases "armed s"; cases "queued s"; cases "timer_expired s") (auto simp: traffic_inv_def)
  ultimately show ?thesis using inv by (auto simp: traffic_inv_def traffic_main_def)
qed

text \<open>A pass whose timer expires, and a second one whose timer is refused.\<close>

definition traffic_demo :: traffic where
  "traffic_demo = (ctl_step (- 1) ^^ 3) (ctl_step 0 (timer_handler
     ((ctl_step 0 ^^ 3) traffic_start\<lparr>armed := False, queued := False\<rparr>)))"

lemma traffic_demo_reachable: "traffic_step\<^sup>*\<^sup>* traffic_start traffic_demo"
proof -
  let ?s = "(ctl_step 0 ^^ 3) traffic_start"
  have run: "traffic_step\<^sup>*\<^sup>* u ((ctl_step j ^^ n) u)" for j n u
    by (induction n) (auto intro: rtranclp.rtrancl_into_rtrancl traffic_step.controller)
  have "armed ?s" by (simp add: numeral_3_eq_3 traffic_start_def ctl_step_def fsm_switch_def timer_settime_ok_def)
  then have "traffic_step ?s (?s\<lparr>armed := False, queued := True\<rparr>)" by (rule expire)
  moreover from deliver [of "?s\<lparr>armed := False, queued := True\<rparr>"]
  have "traffic_step (?s\<lparr>armed := False, queued := True\<rparr>) (timer_handler (?s\<lparr>armed := False, queued := False\<rparr>))" by simp
  ultimately have "traffic_step\<^sup>*\<^sup>* traffic_start (timer_handler (?s\<lparr>armed := False, queued := False\<rparr>))"
    using run [where u = traffic_start and j = 0 and n = 3] by (meson rtranclp.rtrancl_into_rtrancl)
  also have "traffic_step\<^sup>*\<^sup>* (timer_handler (?s\<lparr>armed := False, queued := False\<rparr>)) traffic_demo"
    unfolding traffic_demo_def using run traffic_step.controller by (meson converse_rtranclp_into_rtranclp)
  finally show ?thesis .
qed

theorem traffic_no_tick_lost_witness:
  "\<exists>s. traffic_step\<^sup>*\<^sup>* traffic_start s \<and> ctl s = Wait \<and> ticks s = 1 \<and> length (shown s) = 2 \<and>
     controller_thread_func [0, - 1] = (shown s, True)"
  using traffic_no_tick_lost [OF traffic_demo_reachable] traffic_demo_reachable
  by (intro exI [of _ traffic_demo])
    (simp add: traffic_demo_def numeral_3_eq_3 traffic_start_def ctl_step_def fsm_switch_def timer_settime_ok_def
      timer_handler_def)

end
