(* ===== verification/CondTimeout.thy ===== *)
theory CondTimeout
  imports Timeouts
begin

section \<open>The timed condition wait with its producer (task2/src/timeout_condvar.c)\<close>

text \<open>
  Theory \<open>Timeouts\<close> has main of \<open>timeout_condvar.c\<close> with the results of its waits as arguments. Here
  main (the consumer) and the producer thread run against each other over the mutex, and the
  results of the waits come from that run: the steps refine \<open>timeout_condvar_main\<close>. A timed wait
  may return at any time the mutex is free, with 0 (a signal or a spurious wakeup) or with
  \<open>ETIMEDOUT\<close>; how long 200 ms are is left to the scheduler.
\<close>

datatype who = Consumer | Producer

datatype consumer_pc =
    Lock1 | Wait1 | In1 | Report1        \<comment> \<open>first scenario; \<open>In1\<close> is inside the wait\<close>
  | Create | Lock2 | Test | In2 | Report2 \<comment> \<open>second scenario\<close>
  | Join | Ended

datatype producer_pc = Absent | Sleeping | Locking | Setting | Unlocking | Gone

record tcv =
  cpc :: consumer_pc
  ppc :: producer_pc
  owner :: "who option"
  event_ready :: bool
  rc :: int
  said :: "string list"             \<comment> \<open>the consumer's results\<close>
  rc1 :: int                        \<comment> \<open>the result of the first wait\<close>
  ready0 :: bool                    \<comment> \<open>\<open>event_ready\<close> when the second lock was taken\<close>
  returns :: "(bool \<times> int) list"    \<comment> \<open>how the waits of the second scenario returned\<close>

definition tcv_start :: tcv where
  "tcv_start = \<lparr>cpc = Lock1, ppc = Absent, owner = None, event_ready = False, rc = 0, said = [],
     rc1 = 0, ready0 = False, returns = []\<rparr>"

text \<open>A step of main; \<^const>\<open>None\<close>: it is blocked, waiting or has ended.\<close>

definition consumer_step :: "bool \<Rightarrow> tcv \<Rightarrow> tcv option" where
  "consumer_step created s = (case cpc s of
     Lock1 \<Rightarrow> if owner s = None then Some (s\<lparr>owner := Some Consumer, cpc := Wait1\<rparr>) else None
   | Wait1 \<Rightarrow> Some (s\<lparr>owner := None, cpc := In1\<rparr>)
   | In1 \<Rightarrow> None
   | Report1 \<Rightarrow> Some (s\<lparr>said := said s @ [if rc s = ETIMEDOUT then ''Timed out as expected.''
                                       else ''Unexpected success or error''], owner := None, cpc := Create\<rparr>)
   | Create \<Rightarrow> Some (if created then s\<lparr>ppc := Sleeping, cpc := Lock2\<rparr>
                    else s\<lparr>said := said s @ [''pthread_create failed''], cpc := Ended\<rparr>)
   | Lock2 \<Rightarrow> if owner s = None
             then Some (s\<lparr>owner := Some Consumer, ready0 := event_ready s, cpc := Test\<rparr>) else None
   | Test \<Rightarrow> Some (if \<not> event_ready s \<and> rc s \<noteq> ETIMEDOUT then s\<lparr>owner := None, cpc := In2\<rparr>
                  else s\<lparr>cpc := Report2\<rparr>)
   | In2 \<Rightarrow> None
   | Report2 \<Rightarrow> Some (s\<lparr>said := said s @ [if event_ready s then ''Condition was signaled successfully.''
                  else if rc s = ETIMEDOUT then ''Unexpected timeout.'' else ''Error during wait''],
                  owner := None, cpc := Join\<rparr>)
   | Join \<Rightarrow> if ppc s = Gone then Some (s\<lparr>cpc := Ended\<rparr>) else None
   | Ended \<Rightarrow> None)"

text \<open>The return of a timed wait: it has the mutex again.\<close>

definition wait_returns :: "int \<Rightarrow> tcv \<Rightarrow> tcv option" where
  "wait_returns r s = (if owner s \<noteq> None then None else (case cpc s of
     In1 \<Rightarrow> Some (s\<lparr>owner := Some Consumer, rc := r, rc1 := r, cpc := Report1\<rparr>)
   | In2 \<Rightarrow> Some (s\<lparr>owner := Some Consumer, rc := r, returns := returns s @ [(event_ready s, r)], cpc := Test\<rparr>)
   | _ \<Rightarrow> None))"

text \<open>The producer. The signal wakes the wait if there is one; a wait may wake without it as well.\<close>

definition producer_step :: "tcv \<Rightarrow> tcv option" where
  "producer_step s = (case ppc s of
     Absent \<Rightarrow> None
   | Sleeping \<Rightarrow> Some (s\<lparr>ppc := Locking\<rparr>)
   | Locking \<Rightarrow> if owner s = None then Some (s\<lparr>owner := Some Producer, ppc := Setting\<rparr>) else None
   | Setting \<Rightarrow> Some (s\<lparr>event_ready := True, ppc := Unlocking\<rparr>)
   | Unlocking \<Rightarrow> Some (s\<lparr>owner := None, ppc := Gone\<rparr>)
   | Gone \<Rightarrow> None)"

inductive tcv_step :: "bool \<Rightarrow> tcv \<Rightarrow> tcv \<Rightarrow> bool" for created where
  consumer: "consumer_step created s = Some t \<Longrightarrow> tcv_step created s t"
| returned: "wait_returns r s = Some t \<Longrightarrow> r = 0 \<or> r = ETIMEDOUT \<Longrightarrow> tcv_step created s t"
| producer: "producer_step s = Some t \<Longrightarrow> tcv_step created s t"

subsection \<open>The invariant\<close>

definition lock_inv :: "tcv \<Rightarrow> bool" where
  "lock_inv s \<longleftrightarrow> (owner s = Some Consumer \<longleftrightarrow> cpc s \<in> {Wait1, Report1, Test, Report2}) \<and>
     (owner s = Some Producer \<longleftrightarrow> ppc s \<in> {Setting, Unlocking}) \<and>
     (event_ready s \<longleftrightarrow> ppc s \<in> {Unlocking, Gone})"

definition created_inv :: "bool \<Rightarrow> tcv \<Rightarrow> bool" where
  "created_inv created s \<longleftrightarrow>
     (ppc s = Absent \<longleftrightarrow> cpc s \<in> {Lock1, Wait1, In1, Report1, Create} \<or> \<not> created \<and> cpc s = Ended) \<and>
     (created \<and> cpc s = Ended \<longrightarrow> ppc s = Gone) \<and>
     (\<not> created \<longrightarrow> cpc s \<in> {Lock1, Wait1, In1, Report1, Create, Ended}) \<and>
     (returns s = [] \<or> rc1 s = 0)"

text \<open>How far the wait loop of main has come, for every list of results still to come.\<close>

definition progress :: "nat \<Rightarrow> (bool \<times> int) list \<Rightarrow> tcv \<Rightarrow> bool \<Rightarrow> int \<Rightarrow> bool" where
  "progress n nx s ready r \<longleftrightarrow> (\<forall>rest. condvar_wait (returns s @ nx @ rest) (ready0 s) (rc1 s) =
     map_option (apfst (\<lambda>k. k + n)) (condvar_wait rest ready r))"

definition said_first :: "tcv \<Rightarrow> bool" where
  "said_first s \<longleftrightarrow> said s = [if rc1 s = ETIMEDOUT then ''Timed out as expected.'' else ''Unexpected success or error'']"

definition wait_inv :: "bool \<Rightarrow> tcv \<Rightarrow> bool" where
  "wait_inv created s \<longleftrightarrow> (case cpc s of
     Report1 \<Rightarrow> said s = [] \<and> rc s = rc1 s \<and> rc1 s \<in> {0, ETIMEDOUT} \<and> returns s = []
   | Create \<Rightarrow> said_first s \<and>
        rc s = rc1 s \<and> rc1 s \<in> {0, ETIMEDOUT} \<and> returns s = []
   | Lock2 \<Rightarrow> said_first s \<and>
        rc s = rc1 s \<and> rc1 s \<in> {0, ETIMEDOUT} \<and> returns s = []
   | Test \<Rightarrow> said_first s \<and>
        rc s \<in> {0, ETIMEDOUT} \<and> (returns s = [] \<longrightarrow> rc s = rc1 s) \<and>
        progress (length (returns s)) [] s (event_ready s) (rc s)
   | In2 \<Rightarrow> said_first s \<and>
        rc1 s = 0 \<and> (\<forall>e r. progress (Suc (length (returns s))) [(e, r)] s e r)
   | Report2 \<Rightarrow> said_first s \<and>
        condvar_wait (returns s) (ready0 s) (rc1 s) = Some (length (returns s), event_ready s, rc s)
   | Join \<Rightarrow> timeout_condvar_main (rc1 s) True (ready0 s) (returns s) = (said s, Some 0)
   | Ended \<Rightarrow> timeout_condvar_main (rc1 s) created (ready0 s) (returns s) =
        (said s, Some (if created then 0 else EXIT_FAILURE))
   | _ \<Rightarrow> said s = [] \<and> returns s = [] \<and> rc1 s = 0)"

definition tcv_inv :: "bool \<Rightarrow> tcv \<Rightarrow> bool" where
  "tcv_inv created s \<longleftrightarrow> lock_inv s \<and> created_inv created s \<and> wait_inv created s"

lemmas tcv_defs = tcv_inv_def lock_inv_def created_inv_def wait_inv_def

lemma ETIMEDOUT_not_0 [simp]: "ETIMEDOUT \<noteq> 0" "0 \<noteq> ETIMEDOUT"
  by (simp_all add: ETIMEDOUT_def)

lemma condvar_wait_step:
  "condvar_wait ((e, r) # rest) False 0 = map_option (apfst Suc) (condvar_wait rest e r)"
  by (subst condvar_wait.simps) simp

lemma condvar_wait_end: "e \<or> r = ETIMEDOUT \<Longrightarrow> condvar_wait rest e r = Some (0, e, r)"
  by (subst condvar_wait.simps) auto

lemma progress_frame [simp]:
  "progress n nx (s\<lparr>owner := w\<rparr>) e r = progress n nx s e r"
  "progress n nx (s\<lparr>cpc := c\<rparr>) e r = progress n nx s e r"
  "progress n nx (s\<lparr>ppc := p\<rparr>) e r = progress n nx s e r"
  "progress n nx (s\<lparr>event_ready := b\<rparr>) e r = progress n nx s e r"
  "progress n nx (s\<lparr>rc := i\<rparr>) e r = progress n nx s e r"
  by (simp_all add: progress_def)

lemma said_first_frame [simp]:
  "said_first (s\<lparr>owner := w\<rparr>) = said_first s" "said_first (s\<lparr>cpc := c\<rparr>) = said_first s"
  "said_first (s\<lparr>ppc := p\<rparr>) = said_first s" "said_first (s\<lparr>event_ready := b\<rparr>) = said_first s"
  "said_first (s\<lparr>rc := i\<rparr>) = said_first s" "said_first (s\<lparr>returns := rs\<rparr>) = said_first s"
  "said_first (s\<lparr>ready0 := b\<rparr>) = said_first s"
  by (simp_all add: said_first_def)

lemma progress_start: "returns s = [] \<Longrightarrow> progress 0 [] s (ready0 s) (rc1 s)"
proof -
  have "apfst (\<lambda>k. k + 0) = (id :: nat \<times> bool \<times> int \<Rightarrow> _)" by (simp add: fun_eq_iff)
  then show "returns s = [] \<Longrightarrow> progress 0 [] s (ready0 s) (rc1 s)" by (simp only: progress_def) (simp add: option.map_id)
qed

lemma progress_append [simp]:
  "progress n [] (s\<lparr>owner := w, rc := i, returns := returns s @ [x]\<rparr>) e r = progress n [x] s e r"
  by (simp add: progress_def)

lemma progress_enters:
  "progress n [] s False 0 \<Longrightarrow> progress (Suc n) [(e, r)] s e r"
  by (simp add: progress_def condvar_wait_step option.map_comp comp_def apfst_compose)

lemma progress_leaves:
  assumes "progress n [] s e r" "e \<or> r = ETIMEDOUT"
  shows "condvar_wait (returns s) (ready0 s) (rc1 s) = Some (n, e, r)"
proof -
  from assms(1) have "condvar_wait (returns s @ [] @ []) (ready0 s) (rc1 s) =
      map_option (apfst (\<lambda>k. k + n)) (condvar_wait [] e r)"
    unfolding progress_def by blast
  with assms(2) show ?thesis by (simp add: condvar_wait_end)
qed

lemma consumer_inv:
  assumes inv: "tcv_inv created s" and st: "consumer_step created s = Some t"
  shows "tcv_inv created t"
proof (cases "cpc s")
  case Lock2
  with inv st have "owner s = None" "returns s = []" "rc s = rc1 s"
    by (auto simp: tcv_defs consumer_step_def split: if_splits)
  with inv st Lock2 progress_start [of t] show ?thesis by (auto simp: tcv_defs consumer_step_def)
next
  case Test
  then have p: "progress (length (returns s)) [] s (event_ready s) (rc s)"
    using inv by (simp add: tcv_inv_def wait_inv_def)
  show ?thesis
  proof (cases "\<not> event_ready s \<and> rc s \<noteq> ETIMEDOUT")
    case True
    with inv Test have "rc s = 0" "rc1 s = 0" "said_first s" by (auto simp: tcv_defs)
    moreover from this True p have "progress (Suc (length (returns s))) [(e, r)] s e r" for e r
      using progress_enters [of "length (returns s)" s] by simp
    moreover from True st Test have t: "t = s\<lparr>owner := None, cpc := In2\<rparr>" by (simp add: consumer_step_def)
    ultimately have "wait_inv created t" by (simp add: wait_inv_def)
    moreover have "lock_inv t \<and> created_inv created t" using inv Test t
      by (auto simp: tcv_inv_def lock_inv_def created_inv_def)
    ultimately show ?thesis by (simp add: tcv_inv_def)
  next
    case False
    then have t: "t = s\<lparr>cpc := Report2\<rparr>" using st Test by (simp add: consumer_step_def split: if_splits)
    from False have "event_ready s \<or> rc s = ETIMEDOUT" by blast
    note progress_leaves [OF p this]
    moreover have "said_first s" using inv Test by (simp add: tcv_inv_def wait_inv_def)
    ultimately have "wait_inv created t" using t by (simp add: wait_inv_def)
    moreover have "lock_inv t \<and> created_inv created t" using inv Test t
      by (auto simp: tcv_inv_def lock_inv_def created_inv_def)
    ultimately show ?thesis by (simp add: tcv_inv_def)
  qed
next
  case Create
  then have "said_first s \<and> rc s = rc1 s \<and> rc1 s \<in> {0, ETIMEDOUT} \<and> returns s = []" "ppc s = Absent"
    using inv by (simp_all add: tcv_inv_def wait_inv_def created_inv_def)
  then have w: "said_first s" "rc s = rc1 s" "rc1 s \<in> {0, ETIMEDOUT}" "returns s = []" "ppc s = Absent" by blast+
  show ?thesis
  proof (cases created)
    case True
    then have "t = s\<lparr>ppc := Sleeping, cpc := Lock2\<rparr>" using st Create by (simp add: consumer_step_def)
    with w inv Create True show ?thesis
      by (simp add: tcv_inv_def wait_inv_def created_inv_def lock_inv_def)
  next
    case False
    then have "t = s\<lparr>said := said s @ [''pthread_create failed''], cpc := Ended\<rparr>"
      using st Create by (simp add: consumer_step_def)
    with w inv Create False show ?thesis
      by (simp add: tcv_inv_def wait_inv_def created_inv_def lock_inv_def timeout_condvar_main_def said_first_def Let_def)
  qed
next
  case Report1
  then have "said s = [] \<and> rc s = rc1 s \<and> rc1 s \<in> {0, ETIMEDOUT} \<and> returns s = []"
    using inv by (simp add: tcv_inv_def wait_inv_def)
  moreover have "t = s\<lparr>said := said s @ [if rc s = ETIMEDOUT then ''Timed out as expected.''
      else ''Unexpected success or error''], owner := None, cpc := Create\<rparr>"
    using st Report1 by (simp add: consumer_step_def)
  moreover from inv have "lock_inv s" by (simp add: tcv_inv_def)
  then have "ppc s \<noteq> Setting" "ppc s \<noteq> Unlocking" using Report1 by (auto simp: lock_inv_def)
  ultimately show ?thesis using inv Report1
    by (simp add: tcv_inv_def wait_inv_def created_inv_def lock_inv_def said_first_def)
next
  case Report2
  then have "said_first s" "condvar_wait (returns s) (ready0 s) (rc1 s) = Some (length (returns s), event_ready s, rc s)"
    using inv by (simp_all add: tcv_inv_def wait_inv_def)
  moreover have "t = s\<lparr>said := said s @ [if event_ready s then ''Condition was signaled successfully.''
      else if rc s = ETIMEDOUT then ''Unexpected timeout.'' else ''Error during wait''], owner := None, cpc := Join\<rparr>"
    using st Report2 by (simp add: consumer_step_def)
  moreover from inv have "lock_inv s" by (simp add: tcv_inv_def)
  then have "ppc s \<noteq> Setting" "ppc s \<noteq> Unlocking" using Report2 by (auto simp: lock_inv_def)
  ultimately show ?thesis using inv Report2
    by (simp add: tcv_inv_def wait_inv_def created_inv_def lock_inv_def said_first_def timeout_condvar_main_def Let_def)
qed (use inv st in \<open>auto simp: tcv_defs consumer_step_def split: if_splits\<close>)

lemma returned_inv:
  assumes "tcv_inv created s" "wait_returns r s = Some t" "r = 0 \<or> r = ETIMEDOUT"
  shows "tcv_inv created t"
  using assms
  by (cases "cpc s") (auto simp: tcv_defs wait_returns_def split: if_splits)

lemma wait_inv_frame [simp]:
  "wait_inv created (s\<lparr>owner := w\<rparr>) = wait_inv created s"
  "wait_inv created (s\<lparr>ppc := p\<rparr>) = wait_inv created s"
  "cpc s \<noteq> Test \<Longrightarrow> cpc s \<noteq> Report2 \<Longrightarrow> wait_inv created (s\<lparr>event_ready := b\<rparr>) = wait_inv created s"
  by (cases "cpc s"; simp add: wait_inv_def)+

lemma producer_inv:
  assumes "tcv_inv created s" "producer_step s = Some t"
  shows "tcv_inv created t"
proof -
  from assms have l: "lock_inv s" "created_inv created s" "wait_inv created s" by (simp_all add: tcv_inv_def)
  from l(1) have "cpc s \<noteq> Test \<and> cpc s \<noteq> Report2" if "ppc s = Setting"
    using that by (auto simp: lock_inv_def)
  with l(3) assms(2) have "wait_inv created t"
    by (cases "ppc s") (auto simp: producer_step_def split: if_splits)
  moreover have "lock_inv t" using l(1) assms(2)
    by (cases "ppc s") (auto simp: producer_step_def lock_inv_def split: if_splits)
  moreover have "created_inv created t" using l(2) assms(2)
    by (cases "ppc s") (auto simp: producer_step_def created_inv_def split: if_splits)
  ultimately show ?thesis by (simp add: tcv_inv_def)
qed

interpretation tcv_run: inductive_invariant "\<lambda>s. s = tcv_start" "tcv_step created" "tcv_inv created" for created
proof
  show "tcv_inv created s" if "s = tcv_start" for s
    using that by (simp add: tcv_defs tcv_start_def)
  show "tcv_inv created t" if "tcv_inv created s" "tcv_step created s t" for s t
    using that(2,1) by cases (blast intro: consumer_inv returned_inv producer_inv)+
qed

lemma tcv_progress:
  assumes "tcv_inv created s" "cpc s \<noteq> Ended"
  shows "\<exists>t. tcv_step created s t"
proof -
  have prod: "\<exists>t. tcv_step created s t" if "producer_step s \<noteq> None"
    using that by (auto intro: producer)
  have cons: "\<exists>t. tcv_step created s t" if "consumer_step created s \<noteq> None"
    using that by (auto intro: consumer)
  show ?thesis
  proof (cases "owner s")
    case None
    have "wait_returns 0 s \<noteq> None \<Longrightarrow> \<exists>t. tcv_step created s t" by (auto intro: returned)
    moreover have "wait_returns 0 s \<noteq> None \<or> consumer_step created s \<noteq> None \<or> producer_step s \<noteq> None"
      using None assms
      by (cases "cpc s"; cases "ppc s") (simp_all add: tcv_defs consumer_step_def wait_returns_def producer_step_def)
    ultimately show ?thesis using prod cons by blast
  next
    case (Some w)
    then have "consumer_step created s \<noteq> None \<or> producer_step s \<noteq> None"
      using assms
      by (cases w; cases "cpc s"; cases "ppc s") (simp_all add: tcv_defs consumer_step_def producer_step_def)
    then show ?thesis using prod cons by blast
  qed
qed

subsection \<open>Schedules\<close>

datatype turn = C | P | Return int

fun turn_step :: "turn \<Rightarrow> tcv \<Rightarrow> tcv option" where
  "turn_step C s = consumer_step True s"
| "turn_step P s = producer_step s"
| "turn_step (Return r) s = (if r = 0 \<or> r = ETIMEDOUT then wait_returns r s else None)"

lemma turn_step_sound: "turn_step u s = Some t \<Longrightarrow> tcv_step True s t"
  by (cases u) (auto intro: tcv_step.intros split: if_splits)

subsection \<open>Properties\<close>



end
