(* ===== verification/PollTimeout.thy ===== *)
theory PollTimeout
  imports Timeouts
begin

section \<open>poll with a timeout against its writer thread (task2/src/timeout_poll.c)\<close>

text \<open>
  Theory \<open>Timeouts\<close> has main of \<open>timeout_poll.c\<close> with the results of its calls as arguments. Here main
  (the reader) and the writer thread run against each other over the pipe, with a clock in
  milliseconds that may advance by any amount between two steps: a scheduler may be as late as it
  likes, but no wait ends before its time, and \<open>poll\<close> looks for data before it gives up.
\<close>

datatype reader_pc = Poll1 | Polling1 | Start2 | Poll2 | Polling2 | Reading | Joining | Closing | Returned nat
datatype writer_pc = Unborn | Starting | Asleep int | Writing | Finished

text \<open>The lines the two threads print, without line feeds and without what \<open>perror\<close> adds.\<close>

datatype line =
    Polling_300 | Timed_out_1 | Poll_failed | Ready_early | Polling_1000
  | Create_failed | Detected | Received | Read_failed | Gave_up
  | Writer_sleeps | Writer_writes | Write_failed

primrec line_text :: "line \<Rightarrow> string" where
  "line_text Polling_300 = ''[READER] Polling for 300ms, expecting timeout...''"
| "line_text Timed_out_1 = ''[READER] poll() timed out as expected.''"
| "line_text Poll_failed = ''[READER] poll failed''"
| "line_text Ready_early = ''[READER] poll() detected readiness unexpectedly.''"
| "line_text Polling_1000 = ''[READER] Starting writer and polling for 1000ms...''"
| "line_text Create_failed = ''pthread_create failed''"
| "line_text Detected = ''[READER] poll() detected data. Reading...''"
| "line_text Received = ''[READER] Received byte 'X' within timeout.''"
| "line_text Read_failed = ''[READER] read failed''"
| "line_text Gave_up = ''[READER] poll() unexpectedly timed out.''"
| "line_text Writer_sleeps = ''[WRITER] sleeping for 200 ms...''"
| "line_text Writer_writes = ''[WRITER] writing data to pipe...''"
| "line_text Write_failed = ''writer: write failed''"

record poll_run =
  now :: int
  rpc :: reader_pc
  wpc :: writer_pc
  bytes :: nat                \<comment> \<open>in the pipe\<close>
  pipe_open :: bool
  poll_from :: int            \<comment> \<open>when the last poll began\<close>
  lines :: "line list"
  written_at :: "int option"  \<comment> \<open>when the writer's byte went into the pipe\<close>

definition poll_start :: "int \<Rightarrow> poll_run" where
  "poll_start t = \<lparr>now = t, rpc = Poll1, wpc = Unborn, bytes = 0, pipe_open = True, poll_from = t,
     lines = [], written_at = None\<rparr>"

definition say :: "line \<Rightarrow> poll_run \<Rightarrow> poll_run" where
  "say l s = s\<lparr>lines := lines s @ [l]\<rparr>"

text \<open>
  A step of main behind the creation of the pipe; \<open>created\<close>: whether \<open>pthread_create\<close> succeeds, \<open>fails\<close>:
  whether the call fails. \<^const>\<open>None\<close>: it waits or has returned.
\<close>

definition reader_step :: "bool \<Rightarrow> bool \<Rightarrow> poll_run \<Rightarrow> poll_run option" where
  "reader_step created fails s = (case rpc s of
     Poll1 \<Rightarrow> Some (say Polling_300 (s\<lparr>poll_from := now s, rpc := Polling1\<rparr>))
   | Polling1 \<Rightarrow>
       if fails then Some (say Poll_failed (s\<lparr>rpc := Returned 1\<rparr>))
       else if 0 < bytes s then Some (say Ready_early (s\<lparr>rpc := Start2\<rparr>))
       else if poll_from s + 300 \<le> now s
            then Some (say Timed_out_1 (s\<lparr>rpc := Start2\<rparr>)) else None
   | Start2 \<Rightarrow>
       let s = say Polling_1000 s
       in Some (if created then s\<lparr>wpc := Starting, rpc := Poll2\<rparr>
                else say Create_failed (s\<lparr>rpc := Returned 1\<rparr>))
   | Poll2 \<Rightarrow> Some (s\<lparr>poll_from := now s, rpc := Polling2\<rparr>)
   | Polling2 \<Rightarrow>
       if fails then Some (say Poll_failed (s\<lparr>rpc := Joining\<rparr>))
       else if 0 < bytes s then Some (say Detected (s\<lparr>rpc := Reading\<rparr>))
       else if poll_from s + 1000 \<le> now s
            then Some (say Gave_up (s\<lparr>rpc := Joining\<rparr>)) else None
   | Reading \<Rightarrow>
       if fails then Some (say Read_failed (s\<lparr>rpc := Joining\<rparr>))
       else if 0 < bytes s
            then Some (say Received (s\<lparr>bytes := bytes s - 1, rpc := Joining\<rparr>))
            else None
   | Joining \<Rightarrow> if wpc s = Finished then Some (s\<lparr>rpc := Closing\<rparr>) else None
   | Closing \<Rightarrow> Some (s\<lparr>pipe_open := False, rpc := Returned 0\<rparr>)
   | Returned n \<Rightarrow> None)"

text \<open>A step of \<open>writer_thread\<close>; its sleep is \<open>writer_delay 200\<close>.\<close>

definition writer_step :: "poll_run \<Rightarrow> poll_run option" where
  "writer_step s = (case wpc s of
     Unborn \<Rightarrow> None
   | Starting \<Rightarrow> Some (say Writer_sleeps
       (s\<lparr>wpc := Asleep (now s + ns_of (writer_delay 200) div 1000000)\<rparr>))
   | Asleep t \<Rightarrow> if t \<le> now s then Some (say Writer_writes (s\<lparr>wpc := Writing\<rparr>)) else None
   | Writing \<Rightarrow> Some (if pipe_open s then s\<lparr>bytes := bytes s + 1, written_at := Some (now s), wpc := Finished\<rparr>
                     else say Write_failed (s\<lparr>wpc := Finished\<rparr>))
   | Finished \<Rightarrow> None)"

inductive poll_run_step :: "bool \<Rightarrow> poll_run \<Rightarrow> poll_run \<Rightarrow> bool" for created where
  reader: "reader_step created fails s = Some t \<Longrightarrow> poll_run_step created s t"
| writer: "writer_step s = Some t \<Longrightarrow> poll_run_step created s t"
| time: "0 < d \<Longrightarrow> poll_run_step created s (s\<lparr>now := now s + d\<rparr>)"

inductive_cases poll_run_stepE: "poll_run_step created s t"

subsection \<open>The invariant\<close>

definition flow_inv :: "poll_run \<Rightarrow> bool" where
  "flow_inv s \<longleftrightarrow>
     (pipe_open s \<longleftrightarrow> rpc s \<noteq> Returned 0) \<and>
     (wpc s = Unborn \<longleftrightarrow> rpc s \<in> {Poll1, Polling1, Start2, Returned 1}) \<and>
     (rpc s \<in> {Reading, Closing, Returned 0} \<longrightarrow> wpc s = Finished) \<and>
     bytes s + of_bool (Received \<in> set (lines s)) = of_bool (wpc s = Finished) \<and>
     (Received \<in> set (lines s) \<longrightarrow> rpc s \<in> {Joining, Closing, Returned 0}) \<and>
     Write_failed \<notin> set (lines s) \<and> Ready_early \<notin> set (lines s)"

definition clock_inv :: "poll_run \<Rightarrow> bool" where
  "clock_inv s \<longleftrightarrow> (case written_at s of None \<Rightarrow> wpc s \<noteq> Finished | Some t \<Rightarrow> wpc s = Finished \<and> t \<le> now s) \<and>
     (Gave_up \<in> set (lines s) \<longrightarrow> rpc s \<in> {Joining, Closing, Returned 0} \<and> Received \<notin> set (lines s) \<and>
        poll_from s + 1000 \<le> now s \<and>
        (case written_at s of None \<Rightarrow> True | Some t \<Rightarrow> poll_from s + 1000 \<le> t))"

definition poll_inv :: "poll_run \<Rightarrow> bool" where
  "poll_inv s \<longleftrightarrow> flow_inv s \<and> clock_inv s"

lemma lines_say [simp]: "lines (say l s) = lines s @ [l]"
  and say_other [simp]: "now (say l s) = now s" "rpc (say l s) = rpc s" "wpc (say l s) = wpc s"
    "bytes (say l s) = bytes s" "pipe_open (say l s) = pipe_open s" "poll_from (say l s) = poll_from s"
    "written_at (say l s) = written_at s"
  by (simp_all add: say_def)

lemma reader_step_flow: "flow_inv s \<Longrightarrow> reader_step created fails s = Some t \<Longrightarrow> flow_inv t"
  unfolding flow_inv_def
  by (cases "rpc s") (auto simp: reader_step_def Let_def split: if_splits)

lemma reader_step_clock: "poll_inv s \<Longrightarrow> reader_step created fails s = Some t \<Longrightarrow> clock_inv t"
  unfolding poll_inv_def flow_inv_def clock_inv_def
  by (cases "rpc s"; cases "written_at s") (auto simp: reader_step_def Let_def split: if_splits)

lemma writer_step_inv: "poll_inv s \<Longrightarrow> writer_step s = Some t \<Longrightarrow> poll_inv t"
  unfolding poll_inv_def flow_inv_def clock_inv_def
  by (cases "wpc s"; cases "written_at s") (auto simp: writer_step_def split: if_splits)

lemma time_inv: "poll_inv s \<Longrightarrow> 0 < d \<Longrightarrow> poll_inv (s\<lparr>now := now s + d\<rparr>)"
  unfolding poll_inv_def
proof (elim conjE, intro conjI)
  show "flow_inv (s\<lparr>now := now s + d\<rparr>)" if "flow_inv s" using that by (simp add: flow_inv_def)
  show "clock_inv (s\<lparr>now := now s + d\<rparr>)" if "clock_inv s" "0 < d"
    using that by (cases "written_at s") (auto simp: clock_inv_def)
qed

interpretation poll_runs: inductive_invariant "\<lambda>s. s = poll_start t" "poll_run_step created" poll_inv for t created
proof
  show "poll_inv s" if "s = poll_start t" for s
    using that by (simp add: poll_inv_def flow_inv_def clock_inv_def poll_start_def)
  show "poll_inv u" if inv: "poll_inv s" and st: "poll_run_step created s u" for s u
    using st
  proof cases
    case (reader fails)
    with inv reader_step_flow reader_step_clock show ?thesis by (auto simp: poll_inv_def)
  qed (use inv writer_step_inv time_inv in auto)
qed

text \<open>Scripts of concrete runs, in which every call succeeds.\<close>

datatype move = Main | Writer_thread | Wait int

fun move_step :: "move \<Rightarrow> poll_run \<Rightarrow> poll_run option" where
  "move_step Main s = reader_step True False s"
| "move_step Writer_thread s = writer_step s"
| "move_step (Wait d) s = (if 0 < d then Some (s\<lparr>now := now s + d\<rparr>) else None)"

lemma move_step_sound: "move_step m s = Some t \<Longrightarrow> poll_run_step True s t"
  by (cases m) (auto intro: poll_run_step.intros split: if_splits)

subsection \<open>Properties\<close>

lemma poll_progress:
  assumes "poll_inv s" "\<forall>n. rpc s \<noteq> Returned n"
  shows "\<exists>d u. 0 \<le> d \<and> (reader_step created False (s\<lparr>now := now s + d\<rparr>) = Some u \<or>
    writer_step (s\<lparr>now := now s + d\<rparr>) = Some u)"
proof (cases "rpc s = Joining \<and> wpc s \<noteq> Finished")
  case True
  then have "wpc s \<noteq> Unborn" using assms(1) by (auto simp: poll_inv_def flow_inv_def)
  with True show ?thesis
    by (intro exI [of _ "case wpc s of Asleep t \<Rightarrow> max 0 (t - now s) | _ \<Rightarrow> 0"])
      (cases "wpc s"; auto simp: writer_step_def)
next
  case False
  have "0 < bytes s" if "rpc s = Reading" using assms(1) that by (auto simp: poll_inv_def flow_inv_def)
  with False assms(2) show ?thesis
    by (intro exI [of _ "max 0 (poll_from s + 1000 - now s)"]) (cases "rpc s"; auto simp: reader_step_def Let_def max_def)
qed

text \<open>
  C40. The two threads of \<open>timeout_poll.c\<close> under every scheduling: the first poll never finds data, the
  writer never writes into a closed pipe, main closes the pipe only behind the writer's end and has
  then either printed the byte or left it in the pipe; the second poll gives up only if the byte came
  a second or more after the poll began; and main always goes on, at the latest when time has passed,
  until it returns.
\<close>

theorem timeout_poll_threads:
  assumes "(poll_run_step created)\<^sup>*\<^sup>* (poll_start t) s"
  shows "Ready_early \<notin> set (lines s) \<and> Write_failed \<notin> set (lines s) \<and>
    (rpc s = Returned 0 \<longrightarrow> wpc s = Finished \<and> \<not> pipe_open s \<and> (Received \<in> set (lines s) \<longleftrightarrow> bytes s = 0)) \<and>
    (Gave_up \<in> set (lines s) \<longrightarrow> (\<forall>w. written_at s = Some w \<longrightarrow> poll_from s + 1000 \<le> w)) \<and>
    ((\<forall>n. rpc s \<noteq> Returned n) \<longrightarrow> (\<exists>d u. 0 \<le> d \<and>
      (reader_step created False (s\<lparr>now := now s + d\<rparr>) = Some u \<or> writer_step (s\<lparr>now := now s + d\<rparr>) = Some u)))"
proof -
  from poll_runs.inv_run [OF refl assms] have inv: "poll_inv s" .
  then have "Ready_early \<notin> set (lines s)" "Write_failed \<notin> set (lines s)"
    "rpc s = Returned 0 \<longrightarrow> wpc s = Finished \<and> \<not> pipe_open s \<and> (Received \<in> set (lines s) \<longleftrightarrow> bytes s = 0)"
    "Gave_up \<in> set (lines s) \<longrightarrow> (\<forall>w. written_at s = Some w \<longrightarrow> poll_from s + 1000 \<le> w)"
    by (auto simp: poll_inv_def flow_inv_def clock_inv_def of_bool_def split: if_splits)
  with poll_progress [OF inv] show ?thesis by blast
qed

text \<open>A run on time: the byte comes 200 ms after the writer's start and is received.\<close>

theorem timeout_poll_threads_witness:
  "\<exists>s. (poll_run_step True)\<^sup>*\<^sup>* (poll_start 0) s \<and> rpc s = Returned 0 \<and> Received \<in> set (lines s) \<and> bytes s = 0 \<and>
     now s = 500"
proof -
  let ?ms = "[Main, Wait 300, Main, Main, Main, Writer_thread, Wait 200, Writer_thread, Writer_thread, Main, Main, Main, Main]"
  have "map_option (\<lambda>s. (rpc s, Received \<in> set (lines s), now s)) (run_script move_step ?ms (poll_start 0)) =
      Some (Returned 0, True, 500)" by code_simp
  then obtain s where s: "run_script move_step ?ms (poll_start 0) = Some s" "rpc s = Returned 0"
    "Received \<in> set (lines s)" "now s = 500" by auto
  have "(poll_run_step True)\<^sup>*\<^sup>* (poll_start 0) s" by (rule run_script_reachable [OF s(1) move_step_sound])
  with timeout_poll_threads [OF this] s(2-4) show ?thesis by blast
qed

end
