(* ===== verification/MqClients.thy ===== *)
theory MqClients
  imports MsgQueue "HOL-Library.Extended_Nat"
begin

section \<open>Several clients of the message queue server (task3)\<close>

text \<open>
  \<open>posix_mq_server.c\<close> with any number of \<open>posix_mq_client.c\<close> processes, system call by system call.
  All clients share one name for their answer queue, which the first of them creates, the server
  opens for every answer, and each of them unlinks when it is done: an unlinked queue lives on
  behind the descriptors that are open on it. Queues are numbered in the order of their creation.
\<close>

datatype client_pc =
    Opening            \<comment> \<open>at \<open>mq_open\<close> of the answer queue\<close>
  | Sending nat        \<comment> \<open>at \<open>mq_send\<close> of the message with this index, or behind the loop\<close>
  | Receiving nat      \<comment> \<open>at \<open>mq_receive\<close> of its answer\<close>
  | Closed

datatype server_pc =
    Waiting                \<comment> \<open>at \<open>mq_receive\<close>\<close>
  | Serving string         \<comment> \<open>at \<open>mq_open\<close>, with this message\<close>
  | Replying string nat    \<comment> \<open>at \<open>mq_send\<close> of this answer to this queue\<close>

record mqsys =
  srv_q :: mq
  srv :: server_pc
  queues :: "nat \<Rightarrow> mq"
  next_q :: nat
  name :: "nat option"              \<comment> \<open>the queue \<open>CLIENT_QUEUE_NAME\<close> stands for\<close>
  cpc :: "nat \<Rightarrow> client_pc"
  desc :: "nat \<Rightarrow> nat"               \<comment> \<open>the queue behind a client's descriptor\<close>
  answers :: "nat \<Rightarrow> string list"

text \<open>The server has removed both names and created its own queue.\<close>

definition mqsys_start :: mqsys where
  "mqsys_start = \<lparr>srv_q = start_queue, srv = Waiting, queues = (\<lambda>_. start_queue), next_q = 0, name = None,
     cpc = (\<lambda>_. Opening), desc = (\<lambda>_. 0), answers = (\<lambda>_. [])\<rparr>"

text \<open>
  A system call of client \<open>i\<close>; \<^const>\<open>None\<close>: it blocks, on a full or an empty queue, or has ended. A call
  that fails is reported and the client goes on to its next message.
\<close>

definition client_step :: "nat \<Rightarrow> mqsys \<Rightarrow> mqsys option" where
  "client_step i s = (case cpc s i of
     Opening \<Rightarrow>
       (case name s of
          Some q \<Rightarrow> Some (s\<lparr>desc := (desc s)(i := q), cpc := (cpc s)(i := Sending 0)\<rparr>)
        | None \<Rightarrow> Some (s\<lparr>queues := (queues s)(next_q s := start_queue), name := Some (next_q s),
                         next_q := Suc (next_q s), desc := (desc s)(i := next_q s),
                         cpc := (cpc s)(i := Sending 0)\<rparr>))
   | Sending k \<Rightarrow>
       if k < length client_messages
       then (let (m, prio) = client_messages ! k in
             case mq_send (srv_q s) (m @ [NUL]) prio of
               Inl EAGAIN \<Rightarrow> None
             | Inl EMSGSIZE \<Rightarrow> Some (s\<lparr>cpc := (cpc s)(i := Sending (Suc k))\<rparr>)
             | Inr q' \<Rightarrow> Some (s\<lparr>srv_q := q', cpc := (cpc s)(i := Receiving k)\<rparr>))
       else Some (s\<lparr>name := None, cpc := (cpc s)(i := Closed)\<rparr>)
   | Receiving k \<Rightarrow>
       (case mq_receive (queues s (desc s i)) MAX_MSG_SIZE of
          Inl EAGAIN \<Rightarrow> None
        | Inl EMSGSIZE \<Rightarrow> Some (s\<lparr>cpc := (cpc s)(i := Sending (Suc k))\<rparr>)
        | Inr ((p, buffer), q') \<Rightarrow>
            Some (s\<lparr>queues := (queues s)(desc s i := q'), answers := (answers s)(i := answers s i @ [c_str buffer]),
                    cpc := (cpc s)(i := Sending (Suc k))\<rparr>))
   | Closed \<Rightarrow> None)"

text \<open>What the server makes of a message in its buffer; \<open>rest\<close> is what the buffer held behind it.\<close>

definition upper_answer :: "string \<Rightarrow> string \<Rightarrow> string option" where
  "upper_answer msg rest =
    (let buffer = msg @ rest; bytes_read = length msg
     in if MAX_MSG_SIZE \<le> bytes_read then None
        else map_option (\<lambda>upper. c_str upper @ [NUL]) (to_upper (buffer[bytes_read := NUL])))"

text \<open>
  A system call of the server. Without a queue to open it drops the answer, as it does when \<open>mq_send\<close>
  fails; the queue it has opened stays the one it sends to. \<^const>\<open>None\<close>: it waits, for a message or in
  front of a full queue, or an access is out of bounds.
\<close>

definition server_step :: "string \<Rightarrow> mqsys \<Rightarrow> mqsys option" where
  "server_step junk s = (case srv s of
     Waiting \<Rightarrow>
       (case mq_receive (srv_q s) MAX_MSG_SIZE of
          Inl EAGAIN \<Rightarrow> None
        | Inl EMSGSIZE \<Rightarrow> Some s
        | Inr ((p, m), q') \<Rightarrow> Some (s\<lparr>srv_q := q', srv := Serving m\<rparr>))
   | Serving m \<Rightarrow>
       (case upper_answer m (drop (length m) junk) of
          None \<Rightarrow> None
        | Some r \<Rightarrow> Some (s\<lparr>srv := (case name s of None \<Rightarrow> Waiting | Some q \<Rightarrow> Replying r q)\<rparr>))
   | Replying r q \<Rightarrow>
       (case mq_send (queues s q) r 0 of
          Inl EAGAIN \<Rightarrow> None
        | Inl EMSGSIZE \<Rightarrow> Some (s\<lparr>srv := Waiting\<rparr>)
        | Inr q' \<Rightarrow> Some (s\<lparr>queues := (queues s)(q := q'), srv := Waiting\<rparr>)))"

text \<open>The loop body of theory \<open>MsgQueue\<close> is these calls in one.\<close>

lemma server_pass_calls:
  "server_pass msg rest client = Option.bind (upper_answer msg rest) (\<lambda>r. case client of
       None \<Rightarrow> Some (None, None)
     | Some q \<Rightarrow> (case mq_send q r 0 of Inl e \<Rightarrow> Some (None, Some q) | Inr q' \<Rightarrow> Some (Some r, Some q')))"
  by (cases "to_upper ((msg @ rest)[length msg := NUL])"; cases client)
    (simp_all add: server_pass_def upper_answer_def Let_def)

inductive mqsys_step :: "nat \<Rightarrow> mqsys \<Rightarrow> mqsys \<Rightarrow> bool" for N where
  client: "i < N \<Longrightarrow> client_step i s = Some t \<Longrightarrow> mqsys_step N s t"
| server: "length junk = MAX_MSG_SIZE \<Longrightarrow> server_step junk s = Some t \<Longrightarrow> mqsys_step N s t"

inductive_cases mqsys_stepE: "mqsys_step N s t"

subsection \<open>What the queues hold\<close>

definition requests :: "message set" where
  "requests = (\<lambda>(m, p). (p, m @ [NUL])) ` set client_messages"

definition upper_messages :: "string list" where
  "upper_messages = map (map toupper \<circ> fst) client_messages"

definition replies :: "message set" where
  "replies = (\<lambda>m. (0, m @ [NUL])) ` set upper_messages"

lemma client_messages_facts:
  "(m, p) \<in> set client_messages \<Longrightarrow> NUL \<notin> set m \<and> length m < 20" "length client_messages = 3"
  by (auto simp: client_messages_def)

lemma upper_answer_request:
  assumes "(p, m) \<in> requests" "length junk = MAX_MSG_SIZE"
  shows "upper_answer m (drop (length m) junk) = Some (map toupper (c_str m) @ [NUL])"
    "(0, map toupper (c_str m) @ [NUL]) \<in> replies"
proof -
  from assms(1) obtain t where t: "(t, p) \<in> set client_messages" "m = t @ [NUL]" by (auto simp: requests_def)
  with client_messages_facts(1) have n: "NUL \<notin> set t" "length m < 256" by fastforce+
  have "length m + length (drop (length m) junk) = 256" using n(2) assms(2) by (simp add: MAX_MSG_SIZE_def)
  from server_pass_answers [OF n(2) this, of start_queue]
  have "\<exists>q'. server_pass m (drop (length m) junk) (Some start_queue) = Some (Some (map toupper (c_str m) @ [NUL]), Some q')"
    by (auto simp: start_queue_def mq_create_def MAX_MSG_SIZE_def)
  then show "upper_answer m (drop (length m) junk) = Some (map toupper (c_str m) @ [NUL])"
    by (cases "upper_answer m (drop (length m) junk)") (auto simp: server_pass_calls split: sum.splits)
  show "(0, map toupper (c_str m) @ [NUL]) \<in> replies"
    using t n(1) by (force simp: c_str_append_NUL replies_def upper_messages_def)
qed

lemma reply_length: "(p, r) \<in> replies \<Longrightarrow> length r \<le> MAX_MSG_SIZE"
  using client_messages_facts(1) by (fastforce simp: replies_def upper_messages_def MAX_MSG_SIZE_def)

lemma reply_text:
  assumes "(p, r) \<in> replies"
  shows "c_str r \<in> set upper_messages"
proof -
  from assms obtain m k where m: "(m, k) \<in> set client_messages" "r = map toupper m @ [NUL]"
    by (auto simp: replies_def upper_messages_def)
  then have "NUL \<notin> set (map toupper m)" using client_messages_facts(1) NUL_map_toupper by blast
  then have "c_str r = map toupper m" using m(2) c_str_append_NUL [of "map toupper m" "[]"] by simp
  with m(1) show ?thesis by (force simp: upper_messages_def)
qed

subsection \<open>The invariant for at most ten clients\<close>

definition queue_of :: "message set \<Rightarrow> mq \<Rightarrow> bool" where
  "queue_of M q \<longleftrightarrow> mq_maxmsg q = 10 \<and> mq_msgsize q = MAX_MSG_SIZE \<and> set (mq_msgs q) \<subseteq> M"

definition receiving :: "client_pc \<Rightarrow> bool" where
  "receiving p \<longleftrightarrow> (\<exists>k. p = Receiving k)"

lemma receiving_simps [simp]:
  "receiving (Receiving k)" "\<not> receiving (Sending k)" "\<not> receiving Opening" "\<not> receiving Closed"
  by (simp_all add: receiving_def)

text \<open>The messages under way, and the clients that wait for an answer.\<close>

definition under_way :: "mqsys \<Rightarrow> nat" where
  "under_way s = length (mq_msgs (srv_q s)) + of_bool (srv s \<noteq> Waiting) +
     (\<Sum>q < next_q s. length (mq_msgs (queues s q)))"

definition waiting :: "nat \<Rightarrow> mqsys \<Rightarrow> nat" where
  "waiting N s = (\<Sum>i < N. of_bool (receiving (cpc s i)))"

definition mqsys_inv :: "nat \<Rightarrow> mqsys \<Rightarrow> bool" where
  "mqsys_inv N s \<longleftrightarrow> queue_of requests (srv_q s) \<and> (\<forall>q. queue_of replies (queues s q)) \<and>
     (\<forall>m. srv s = Serving m \<longrightarrow> (\<exists>p. (p, m) \<in> requests)) \<and>
     (\<forall>r q. srv s = Replying r q \<longrightarrow> (0, r) \<in> replies \<and> q < next_q s) \<and>
     (\<forall>i. \<forall>a \<in> set (answers s i). a \<in> set upper_messages) \<and>
     (\<forall>q. name s = Some q \<longrightarrow> q < next_q s) \<and> (\<forall>i. receiving (cpc s i) \<longrightarrow> desc s i < next_q s) \<and>
     (\<forall>i k. cpc s i = Sending k \<longrightarrow> desc s i < next_q s) \<and>
     under_way s \<le> waiting N s"

lemmas mqsys_defs = mqsys_inv_def under_way_def waiting_def

lemma sum_upd:
  "i < (n :: nat) \<Longrightarrow> (\<Sum>j < n. g ((f(i := v)) j)) + g (f i) = (\<Sum>j < n. g (f j)) + (g v :: nat)"
proof -
  assume i: "i < n"
  have "(\<Sum>j \<in> {..<n} - {i}. g ((f(i := v)) j)) = (\<Sum>j \<in> {..<n} - {i}. g (f j))"
    by (rule sum.cong) auto
  then have "(\<Sum>j < n. g ((f(i := v)) j)) = g v + (\<Sum>j \<in> {..<n} - {i}. g (f j))"
    using i sum.remove [of "{..<n}" i "\<lambda>j. g ((f(i := v)) j)"]
    by (simp del: fun_upd_apply add: fun_upd_same)
  moreover have "(\<Sum>j < n. g (f j)) = g (f i) + (\<Sum>j \<in> {..<n} - {i}. g (f j))"
    using i by (simp add: sum.remove [of "{..<n}" i])
  ultimately show ?thesis by simp
qed

lemma waiting_upd:
  "i < N \<Longrightarrow> waiting N (s\<lparr>cpc := (cpc s)(i := p)\<rparr>) + of_bool (receiving (cpc s i)) =
     waiting N s + of_bool (receiving p)"
  using sum_upd [of i N "\<lambda>p. of_bool (receiving p)" "cpc s" p] by (simp add: waiting_def)

lemma waiting_le: "waiting N s \<le> N"
proof -
  have "waiting N s \<le> (\<Sum>i < N. 1)" unfolding waiting_def by (rule sum_mono) simp
  then show ?thesis by simp
qed

lemma queues_upd:
  "q < (n :: nat) \<Longrightarrow> (\<Sum>j < n. length (mq_msgs ((qs(q := v)) j))) + length (mq_msgs (qs q)) =
     (\<Sum>j < n. length (mq_msgs (qs j))) + length (mq_msgs v)"
  using sum_upd [of q n "\<lambda>m. length (mq_msgs m)" qs v] by simp

lemma queue_of_send:
  assumes "queue_of M q" "mq_send q m p = Inr q'" "(p, m) \<in> M"
  shows "queue_of M q' \<and> length (mq_msgs q') = Suc (length (mq_msgs q))"
  using assms by (auto simp: queue_of_def mq_send_def split: if_splits)

lemma queue_of_receive:
  assumes "queue_of M q" "mq_receive q len = Inr ((p, m), q')"
  shows "queue_of M q' \<and> Suc (length (mq_msgs q')) = length (mq_msgs q) \<and> (p, m) \<in> M"
  using assms by (auto simp: queue_of_def mq_receive_def split: if_splits list.splits)

lemma start_queue_of [simp]: "queue_of M start_queue" "mq_msgs start_queue = []"
  by (simp_all add: queue_of_def start_queue_def mq_create_def)

lemma mqsys_inv_start: "mqsys_inv N mqsys_start"
  by (simp add: mqsys_defs mqsys_start_def)

definition request :: "nat \<Rightarrow> message" where
  "request k = (snd (client_messages ! k), fst (client_messages ! k) @ [NUL])"

lemma mq_receive_empty: "mq_msgs q = [] \<Longrightarrow> mq_receive q n \<noteq> Inr x"
  by (simp add: mq_receive_def)

lemma request_in: "k < length client_messages \<Longrightarrow> request k \<in> requests \<and> length (snd (request k)) \<le> MAX_MSG_SIZE"
proof -
  assume "k < length client_messages"
  then have "client_messages ! k \<in> set client_messages" by simp
  moreover obtain m p where "client_messages ! k = (m, p)" by force
  ultimately show ?thesis using client_messages_facts(1) [of m p]
    by (force simp: request_def requests_def MAX_MSG_SIZE_def)
qed

text \<open>Under the invariant no call fails: a step in front of a queue sends or receives.\<close>

lemma sending_step:
  assumes "mqsys_inv N s" "cpc s i = Sending k" "k < length client_messages" "client_step i s = Some t"
  obtains q' where "mq_send (srv_q s) (snd (request k)) (fst (request k)) = Inr q'"
    "t = s\<lparr>srv_q := q', cpc := (cpc s)(i := Receiving k)\<rparr>"
proof -
  have "mq_send (srv_q s) (snd (request k)) (fst (request k)) \<noteq> Inl EMSGSIZE"
    using assms(1) request_in [OF assms(3)] by (simp add: mqsys_inv_def queue_of_def mq_send_def)
  with assms(2-4) that show ?thesis
    by (auto simp: client_step_def request_def split: sum.splits mq_error.splits prod.splits)
qed

lemma receiving_step:
  assumes "mqsys_inv N s" "cpc s i = Receiving k" "client_step i s = Some t"
  obtains p r q' where "mq_receive (queues s (desc s i)) MAX_MSG_SIZE = Inr ((p, r), q')"
    "t = s\<lparr>queues := (queues s)(desc s i := q'), answers := (answers s)(i := answers s i @ [c_str r]),
            cpc := (cpc s)(i := Sending (Suc k))\<rparr>"
proof -
  have "mq_receive (queues s (desc s i)) MAX_MSG_SIZE \<noteq> Inl EMSGSIZE"
    using assms(1) by (simp add: mqsys_inv_def queue_of_def mq_receive_def split: list.split)
  with assms(2,3) that show ?thesis by (auto simp: client_step_def split: sum.splits mq_error.splits)
qed

lemma server_receives:
  assumes "mqsys_inv N s" "srv s = Waiting" "server_step junk s = Some t"
  obtains p m q' where "mq_receive (srv_q s) MAX_MSG_SIZE = Inr ((p, m), q')"
    "t = s\<lparr>srv_q := q', srv := Serving m\<rparr>"
proof -
  have "mq_receive (srv_q s) MAX_MSG_SIZE \<noteq> Inl EMSGSIZE"
    using assms(1) by (simp add: mqsys_inv_def queue_of_def mq_receive_def split: list.split)
  with assms(2,3) that show ?thesis by (auto simp: server_step_def split: sum.splits mq_error.splits)
qed

lemma server_sends:
  assumes "mqsys_inv N s" "srv s = Replying r q" "server_step junk s = Some t"
  obtains q' where "mq_send (queues s q) r 0 = Inr q'" "t = s\<lparr>queues := (queues s)(q := q'), srv := Waiting\<rparr>"
proof -
  have "mq_send (queues s q) r 0 \<noteq> Inl EMSGSIZE"
    using assms(1,2) reply_length [of 0 r] by (simp add: mqsys_inv_def queue_of_def mq_send_def)
  with assms(2,3) that show ?thesis by (auto simp: server_step_def split: sum.splits mq_error.splits)
qed

lemma client_step_inv:
  assumes inv: "mqsys_inv N s" and i: "i < N" and st: "client_step i s = Some t"
  shows "mqsys_inv N t"
proof (cases "cpc s i")
  case Opening
  with st show ?thesis using inv waiting_upd [OF i, of s "Sending 0"]
    by (auto simp: client_step_def mqsys_defs less_Suc_eq split: option.splits)
next
  case (Sending k)
  show ?thesis
  proof (cases "k < length client_messages")
    case True
    obtain q' where q': "mq_send (srv_q s) (snd (request k)) (fst (request k)) = Inr q'"
      and t: "t = s\<lparr>srv_q := q', cpc := (cpc s)(i := Receiving k)\<rparr>"
      by (rule sending_step [OF inv Sending True st])
    have "(fst (request k), snd (request k)) \<in> requests" using request_in [OF True] by simp
    from queue_of_send [OF _ q' this] inv have "queue_of requests q'" "length (mq_msgs q') = Suc (length (mq_msgs (srv_q s)))"
      by (auto simp: mqsys_inv_def)
    then show ?thesis using inv Sending waiting_upd [OF i, of s "Receiving k"]
      by (auto simp: t mqsys_defs)
  next
    case False
    with st Sending have "t = s\<lparr>name := None, cpc := (cpc s)(i := Closed)\<rparr>" by (simp add: client_step_def)
    then show ?thesis using inv Sending waiting_upd [OF i, of s Closed] by (auto simp: mqsys_defs)
  qed
next
  case (Receiving k)
  obtain p r q' where r: "mq_receive (queues s (desc s i)) MAX_MSG_SIZE = Inr ((p, r), q')"
    and t: "t = s\<lparr>queues := (queues s)(desc s i := q'), answers := (answers s)(i := answers s i @ [c_str r]),
                    cpc := (cpc s)(i := Sending (Suc k))\<rparr>"
    by (rule receiving_step [OF inv Receiving st])
  have d: "desc s i < next_q s" using inv Receiving by (auto simp: mqsys_inv_def receiving_def)
  from queue_of_receive [OF _ r] inv have q: "queue_of replies q'" "(p, r) \<in> replies"
    "Suc (length (mq_msgs q')) = length (mq_msgs (queues s (desc s i)))" by (auto simp: mqsys_inv_def)
  show ?thesis
    using inv Receiving q reply_text [OF q(2)] d waiting_upd [OF i, of s "Sending (Suc k)"]
      queues_upd [OF d, of "queues s" q']
    by (auto simp: t mqsys_defs)
qed (use st in \<open>simp add: client_step_def\<close>)

text \<open>A message the server holds leaves room in every queue, and so does a client about to send.\<close>

lemma queue_room:
  assumes "mqsys_inv N s" "N \<le> 10" "q < next_q s" "srv s \<noteq> Waiting"
  shows "length (mq_msgs (queues s q)) < 10"
proof -
  have "length (mq_msgs (queues s q)) \<le> (\<Sum>q < next_q s. length (mq_msgs (queues s q)))"
    using assms(3) by (intro member_le_sum) auto
  with assms waiting_le [of N s] show ?thesis by (auto simp: mqsys_inv_def under_way_def)
qed

lemma server_queue_room:
  assumes "mqsys_inv N s" "N \<le> 10" "i < N" "\<not> receiving (cpc s i)"
  shows "length (mq_msgs (srv_q s)) < 10"
proof -
  have "waiting N s < N"
  proof -
    have "waiting N s + of_bool (receiving (Receiving 0)) = waiting N (s\<lparr>cpc := (cpc s)(i := Receiving 0)\<rparr>)"
      using waiting_upd [OF assms(3), of s "Receiving 0"] assms(4) by simp
    with waiting_le [of N "s\<lparr>cpc := (cpc s)(i := Receiving 0)\<rparr>"] show ?thesis by simp
  qed
  with assms(1,2) show ?thesis by (auto simp: mqsys_inv_def under_way_def)
qed

lemma server_step_inv:
  assumes inv: "mqsys_inv N s" and N: "N \<le> 10" and junk: "length junk = MAX_MSG_SIZE"
    and st: "server_step junk s = Some t"
  shows "mqsys_inv N t"
proof (cases "srv s")
  case Waiting
  obtain p m q' where r: "mq_receive (srv_q s) MAX_MSG_SIZE = Inr ((p, m), q')"
    and t: "t = s\<lparr>srv_q := q', srv := Serving m\<rparr>"
    by (rule server_receives [OF inv Waiting st])
  from queue_of_receive [OF _ r] inv have "queue_of requests q'" "(p, m) \<in> requests"
    "Suc (length (mq_msgs q')) = length (mq_msgs (srv_q s))" by (auto simp: mqsys_inv_def)
  then show ?thesis using inv Waiting by (auto simp: t mqsys_defs)
next
  case (Serving m)
  with inv obtain p where req: "(p, m) \<in> requests" by (auto simp: mqsys_inv_def)
  from st Serving upper_answer_request [OF req junk] have "(case name s of
      None \<Rightarrow> t = s\<lparr>srv := Waiting\<rparr>
    | Some q \<Rightarrow> \<exists>r. (0, r) \<in> replies \<and> t = s\<lparr>srv := Replying r q\<rparr>)"
    by (auto simp: server_step_def split: option.splits)
  then show ?thesis using inv Serving by (auto simp: mqsys_defs split: option.splits)
next
  case (Replying r q)
  have qn: "q < next_q s" and r: "(0, r) \<in> replies" and qo: "queue_of replies (queues s q)"
    using inv Replying by (auto simp: mqsys_inv_def)
  obtain q' where q': "mq_send (queues s q) r 0 = Inr q'" and t: "t = s\<lparr>queues := (queues s)(q := q'), srv := Waiting\<rparr>"
    by (rule server_sends [OF inv Replying st])
  from queue_of_send [OF qo q' r] have "queue_of replies q'" "length (mq_msgs q') = Suc (length (mq_msgs (queues s q)))" by auto
  then show ?thesis using inv Replying queues_upd [OF qn, of "queues s" q'] by (auto simp: t mqsys_defs)
qed

interpretation mqsys_run: inductive_invariant "\<lambda>s. s = mqsys_start" "mqsys_step N" "\<lambda>s. N \<le> 10 \<longrightarrow> mqsys_inv N s" for N
proof
  show "N \<le> 10 \<longrightarrow> mqsys_inv N s" if "s = mqsys_start" for s using that mqsys_inv_start by simp
  show "N \<le> 10 \<longrightarrow> mqsys_inv N t" if "N \<le> 10 \<longrightarrow> mqsys_inv N s" "mqsys_step N s t" for s t
    using that(2,1) by cases (auto intro: client_step_inv server_step_inv)
qed

lemma never_full:
  assumes inv: "mqsys_inv N s" and N: "N \<le> 10"
  shows "i < N \<Longrightarrow> cpc s i = Sending k \<Longrightarrow> client_step i s \<noteq> None"
    and "srv s \<noteq> Waiting \<Longrightarrow> length junk = MAX_MSG_SIZE \<Longrightarrow> server_step junk s \<noteq> None"
proof -
  show "client_step i s \<noteq> None" if i: "i < N" and c: "cpc s i = Sending k"
  proof (cases "k < length client_messages")
    case True
    obtain m p where mp: "client_messages ! k = (m, p)" by force
    with True have "length m < 20" using client_messages_facts(1) by (metis nth_mem)
    moreover have "length (mq_msgs (srv_q s)) < 10" using server_queue_room [OF inv N i] c by simp
    ultimately show ?thesis using inv c True mp
      by (auto simp: client_step_def mq_send_def mqsys_inv_def queue_of_def MAX_MSG_SIZE_def)
  qed (simp add: client_step_def c)
  show "server_step junk s \<noteq> None" if w: "srv s \<noteq> Waiting" and junk: "length junk = MAX_MSG_SIZE"
  proof (cases "srv s")
    case (Serving m)
    with inv obtain p where "(p, m) \<in> requests" by (auto simp: mqsys_inv_def)
    with upper_answer_request(1) [OF this junk] Serving show ?thesis by (simp add: server_step_def)
  next
    case (Replying r q)
    with inv have q: "q < next_q s" "queue_of replies (queues s q)" "(0, r) \<in> replies" by (auto simp: mqsys_inv_def)
    with queue_room [OF inv N q(1) w] reply_length [OF q(3)] Replying show ?thesis
      by (simp add: server_step_def mq_send_def queue_of_def)
  qed (use w in simp)
qed

subsection \<open>A single client\<close>

definition idle :: "mqsys \<Rightarrow> bool" where
  "idle s \<longleftrightarrow> mq_msgs (srv_q s) = [] \<and> srv s = Waiting"

abbreviation own_queue :: "mqsys \<Rightarrow> message list" where
  "own_queue s \<equiv> mq_msgs (queues s (desc s 0))"

text \<open>The client's message is in exactly one place: with the server, in it, or in the answer queue.\<close>

definition solo :: "mqsys \<Rightarrow> bool" where
  "solo s \<longleftrightarrow> (case cpc s 0 of
     Opening \<Rightarrow> name s = None \<and> idle s \<and> answers s 0 = []
   | Sending k \<Rightarrow> k \<le> 3 \<and> name s = Some (desc s 0) \<and> idle s \<and> own_queue s = [] \<and>
       answers s 0 = take k upper_messages
   | Receiving k \<Rightarrow> k < 3 \<and> name s = Some (desc s 0) \<and> answers s 0 = take k upper_messages \<and>
       (mq_msgs (srv_q s) = [request k] \<and> srv s = Waiting \<and> own_queue s = [] \<or>
        mq_msgs (srv_q s) = [] \<and> srv s = Serving (snd (request k)) \<and> own_queue s = [] \<or>
        mq_msgs (srv_q s) = [] \<and> srv s = Replying (upper_messages ! k @ [NUL]) (desc s 0) \<and> own_queue s = [] \<or>
        idle s \<and> own_queue s = [(0, upper_messages ! k @ [NUL])])
   | Closed \<Rightarrow> name s = None \<and> idle s \<and> answers s 0 = upper_messages)"

lemma solo_message:
  assumes "k < 3"
  shows "request k \<in> requests" "map toupper (c_str (snd (request k))) = upper_messages ! k"
    "c_str (upper_messages ! k @ [NUL]) = upper_messages ! k"
    "take (Suc k) upper_messages = take k upper_messages @ [upper_messages ! k]"
proof -
  obtain m p where mp: "client_messages ! k = (m, p)" by force
  have "(m, p) \<in> set client_messages" using mp assms client_messages_facts(2) by (metis nth_mem)
  then have n: "NUL \<notin> set m" and "request k \<in> requests"
    using client_messages_facts(1) by (auto simp: request_def mp requests_def)
  then show "request k \<in> requests" by blast
  have u: "upper_messages ! k = map toupper m"
    using mp assms client_messages_facts(2) by (simp add: upper_messages_def)
  with n show "map toupper (c_str (snd (request k))) = upper_messages ! k"
    by (simp add: request_def mp c_str_append_NUL)
  show "c_str (upper_messages ! k @ [NUL]) = upper_messages ! k"
    using NUL_map_toupper [OF n] c_str_append_NUL unfolding u by blast
  show "take (Suc k) upper_messages = take k upper_messages @ [upper_messages ! k]"
    using assms client_messages_facts(2) by (intro take_Suc_conv_app_nth) (simp add: upper_messages_def)
qed

lemma solo_client:
  assumes inv: "mqsys_inv 1 s" and solo: "solo s" and st: "client_step 0 s = Some t"
  shows "solo t"
proof (cases "cpc s 0")
  case (Sending k)
  show ?thesis
  proof (cases "k < 3")
    case True
    then obtain q' where q': "mq_send (srv_q s) (snd (request k)) (fst (request k)) = Inr q'"
      and t: "t = s\<lparr>srv_q := q', cpc := (cpc s)(0 := Receiving k)\<rparr>"
      using sending_step [OF inv Sending _ st] client_messages_facts(2) by auto
    from q' have "mq_msgs q' = enqueue (request k) (mq_msgs (srv_q s))"
      by (auto simp: mq_send_def split: if_splits)
    with solo Sending True show ?thesis by (simp add: t solo_def idle_def enqueue_def)
  next
    case False
    with st Sending client_messages_facts(2) have "t = s\<lparr>name := None, cpc := (cpc s)(0 := Closed)\<rparr>"
      by (simp add: client_step_def)
    moreover have "length upper_messages = 3" by (simp add: upper_messages_def client_messages_facts(2))
    ultimately show ?thesis using solo Sending False by (simp add: solo_def idle_def)
  qed
next
  case (Receiving k)
  then have k: "k < 3" using solo by (simp add: solo_def)
  obtain p r q' where r: "mq_receive (queues s (desc s 0)) MAX_MSG_SIZE = Inr ((p, r), q')" and
    t: "t = s\<lparr>queues := (queues s)(desc s 0 := q'), answers := (answers s)(0 := answers s 0 @ [c_str r]),
            cpc := (cpc s)(0 := Sending (Suc k))\<rparr>"
    by (rule receiving_step [OF inv Receiving st])
  from r have "own_queue s = (p, r) # mq_msgs q'" by (auto simp: mq_receive_def split: if_splits list.splits)
  with solo Receiving solo_message(3,4) [OF k] show ?thesis by (auto simp: t solo_def idle_def)
qed (use st solo in \<open>auto simp: client_step_def solo_def idle_def split: option.splits\<close>)

lemma solo_server:
  assumes inv: "mqsys_inv 1 s" and solo: "solo s" and junk: "length junk = MAX_MSG_SIZE"
    and st: "server_step junk s = Some t"
  shows "solo t"
proof -
  have "\<not> idle s"
  proof
    assume idle: "idle s"
    then have "srv s = Waiting" by (simp add: idle_def)
    from server_receives [OF inv this st] obtain x where "mq_receive (srv_q s) MAX_MSG_SIZE = Inr x" .
    with idle mq_receive_empty show False by (simp add: idle_def)
  qed
  then obtain k where c: "cpc s 0 = Receiving k" and k: "k < 3" and n: "name s = Some (desc s 0)"
    and own: "own_queue s = []" and a: "answers s 0 = take k upper_messages"
    and r: "mq_msgs (srv_q s) = [request k] \<and> srv s = Waiting \<or>
        mq_msgs (srv_q s) = [] \<and> srv s = Serving (snd (request k)) \<or>
        mq_msgs (srv_q s) = [] \<and> srv s = Replying (upper_messages ! k @ [NUL]) (desc s 0)"
    using solo by (auto simp: solo_def split: client_pc.splits)
  show ?thesis
  proof (cases "srv s")
    case Waiting
    with r have "mq_msgs (srv_q s) = [request k]" by simp
    moreover obtain p m q' where "mq_receive (srv_q s) MAX_MSG_SIZE = Inr ((p, m), q')"
      "t = s\<lparr>srv_q := q', srv := Serving m\<rparr>" by (rule server_receives [OF inv Waiting st])
    ultimately have "t = s\<lparr>srv_q := q', srv := Serving (snd (request k))\<rparr>" "mq_msgs q' = []"
      by (auto simp: mq_receive_def split: if_splits)
    with c k n own a show ?thesis by (simp add: solo_def)
  next
    case (Serving m)
    with r have m: "m = snd (request k)" "mq_msgs (srv_q s) = []" by auto
    have "(fst (request k), m) \<in> requests" using solo_message(1) [OF k] m(1) by simp
    from upper_answer_request(1) [OF this junk] st Serving n solo_message(2) [OF k] m(1)
    have "t = s\<lparr>srv := Replying (upper_messages ! k @ [NUL]) (desc s 0)\<rparr>" by (simp add: server_step_def)
    with c k n own a m(2) show ?thesis by (simp add: solo_def)
  next
    case (Replying x q)
    with r have x: "x = upper_messages ! k @ [NUL]" "q = desc s 0" "mq_msgs (srv_q s) = []" by auto
    obtain q' where "mq_send (queues s q) x 0 = Inr q'" "t = s\<lparr>queues := (queues s)(q := q'), srv := Waiting\<rparr>"
      by (rule server_sends [OF inv Replying st])
    moreover from this(1) own x have "mq_msgs q' = [(0, upper_messages ! k @ [NUL])]"
      by (auto simp: mq_send_def enqueue_def split: if_splits)
    ultimately show ?thesis using c k n a x by (simp add: solo_def idle_def)
  qed
qed

interpretation solo_run: inductive_invariant "\<lambda>s. s = mqsys_start" "mqsys_step 1" "\<lambda>s. mqsys_inv 1 s \<and> solo s"
proof
  show "mqsys_inv 1 s \<and> solo s" if "s = mqsys_start" for s
    using that mqsys_inv_start by (simp add: solo_def idle_def mqsys_start_def)
  show "mqsys_inv 1 t \<and> solo t" if "mqsys_inv 1 s \<and> solo s" "mqsys_step 1 s t" for s t
    using that(2,1) by cases (auto intro: client_step_inv server_step_inv solo_client solo_server)
qed

lemma solo_progress:
  assumes inv: "mqsys_inv 1 s" and solo: "solo s" and running: "cpc s 0 \<noteq> Closed"
  shows "\<exists>t. mqsys_step 1 s t"
proof -
  have c: "client_step 0 s \<noteq> None \<Longrightarrow> ?thesis" by (auto intro: mqsys_step.client)
  have sv: "server_step (replicate MAX_MSG_SIZE NUL) s \<noteq> None \<Longrightarrow> ?thesis"
    using mqsys_step.server [of "replicate MAX_MSG_SIZE NUL" s _ 1] by auto
  show ?thesis
  proof (cases "cpc s 0")
    case Opening
    then show ?thesis by (intro c) (simp add: client_step_def split: option.splits)
  next
    case (Sending k)
    with never_full(1) [OF inv _ _ Sending] show ?thesis by (intro c) simp
  next
    case (Receiving k)
    show ?thesis
    proof (cases "idle s")
      case True
      with solo Receiving have "own_queue s \<noteq> []" by (auto simp: solo_def idle_def)
      then show ?thesis using inv Receiving
        by (intro c) (auto simp: client_step_def mq_receive_def mqsys_inv_def queue_of_def split: list.splits)
    next
      case False
      show ?thesis
      proof (cases "srv s = Waiting")
        case True
        with False inv show ?thesis
          by (intro sv) (auto simp: idle_def server_step_def mq_receive_def mqsys_inv_def queue_of_def split: list.splits)
      next
        case False
        with never_full(2) [OF inv] show ?thesis by (intro sv) simp
      qed
    qed
  qed (use running in simp)
qed

subsection \<open>Clients only go forward\<close>

text \<open>The points of a client's program in their order.\<close>

fun rank :: "client_pc \<Rightarrow> enat" where
  "rank Opening = 0"
| "rank (Sending k) = enat (2 * k + 1)"
| "rank (Receiving k) = enat (2 * k + 2)"
| "rank Closed = \<infinity>"

lemma rank_inject: "rank p = rank q \<Longrightarrow> p = q"
  by (cases p; cases q) (simp_all add: zero_enat_def, presburger+)

instantiation client_pc :: linorder
begin

definition less_eq_client_pc :: "client_pc \<Rightarrow> client_pc \<Rightarrow> bool" where
  "p \<le> q \<longleftrightarrow> rank p \<le> rank q"

definition less_client_pc :: "client_pc \<Rightarrow> client_pc \<Rightarrow> bool" where
  "p < q \<longleftrightarrow> rank p < rank q"

instance
  by standard (auto simp: less_eq_client_pc_def less_client_pc_def rank_inject)

end

lemma client_step_forward: "client_step i s = Some t \<Longrightarrow> cpc s i < cpc t i \<and> (\<forall>j. j \<noteq> i \<longrightarrow> cpc t j = cpc s j)"
  by (cases "cpc s i")
    (auto simp: client_step_def less_client_pc_def zero_enat_def split: option.splits sum.splits mq_error.splits
      prod.splits if_splits)

lemma server_step_pcs: "server_step junk s = Some t \<Longrightarrow> cpc t = cpc s"
  by (cases "srv s") (auto simp: server_step_def split: option.splits sum.splits mq_error.splits prod.splits)

lemma clients_go_forward: "(mqsys_step N)\<^sup>*\<^sup>* s t \<Longrightarrow> cpc s i \<le> cpc t i"
proof (induction rule: rtranclp_induct)
  case (step t u)
  from step.hyps(2) have "cpc t i \<le> cpc u i"
  proof cases
    case (client j)
    with client_step_forward [OF client(2)] show ?thesis by (cases "i = j") auto
  qed (simp add: server_step_pcs)
  with step.IH show ?case by (rule order_trans)
qed simp

subsection \<open>Every run ends\<close>

text \<open>The system calls a client still causes: its own, and three of the server for every message.\<close>

fun calls_left :: "client_pc \<Rightarrow> nat" where
  "calls_left Opening = 17"
| "calls_left (Sending k) = 16 - 5 * k"
| "calls_left (Receiving k) = 12 - 5 * k"
| "calls_left Closed = 0"

fun serving_left :: "server_pc \<Rightarrow> nat" where
  "serving_left Waiting = 0"
| "serving_left (Serving m) = 2"
| "serving_left (Replying r q) = 1"

definition work_left :: "nat \<Rightarrow> mqsys \<Rightarrow> nat" where
  "work_left N s = (\<Sum>i < N. calls_left (cpc s i)) + 3 * length (mq_msgs (srv_q s)) + serving_left (srv s)"

fun pc_ok :: "client_pc \<Rightarrow> bool" where
  "pc_ok (Sending k) \<longleftrightarrow> k \<le> 3"
| "pc_ok (Receiving k) \<longleftrightarrow> k < 3"
| "pc_ok _ \<longleftrightarrow> True"

definition pcs_ok :: "mqsys \<Rightarrow> bool" where
  "pcs_ok s \<longleftrightarrow> (\<forall>i. pc_ok (cpc s i))"

lemma client_step_work:
  assumes inv: "mqsys_inv N s" and ok: "pcs_ok s" and i: "i < N" and st: "client_step i s = Some t"
  shows "pcs_ok t \<and> work_left N t < work_left N s"
proof (cases "cpc s i")
  case Opening
  with st Opening ok sum_upd [OF i, of calls_left "cpc s" "Sending 0"] show ?thesis
    by (auto simp: client_step_def pcs_ok_def work_left_def split: option.splits)
next
  case (Sending k)
  with ok have k: "k \<le> 3" unfolding pcs_ok_def by (metis pc_ok.simps(1))
  show ?thesis
  proof (cases "k < 3")
    case True
    then have "k < length client_messages" by (simp add: client_messages_facts(2))
    from sending_step [OF inv Sending this st] obtain q' where
      q': "mq_send (srv_q s) (snd (request k)) (fst (request k)) = Inr q'"
      and t: "t = s\<lparr>srv_q := q', cpc := (cpc s)(i := Receiving k)\<rparr>" .
    have "length (mq_msgs q') = Suc (length (mq_msgs (srv_q s)))"
      using q' by (auto simp: mq_send_def split: if_splits)
    with Sending True ok sum_upd [OF i, of calls_left "cpc s" "Receiving k"] show ?thesis
      by (auto simp: t pcs_ok_def work_left_def)
  next
    case False
    with st Sending client_messages_facts(2) have "t = s\<lparr>name := None, cpc := (cpc s)(i := Closed)\<rparr>"
      by (simp add: client_step_def)
    with Sending False k ok sum_upd [OF i, of calls_left "cpc s" Closed] show ?thesis
      by (auto simp: pcs_ok_def work_left_def)
  qed
next
  case (Receiving k)
  with ok have k: "k < 3" unfolding pcs_ok_def by (metis pc_ok.simps(2))
  from receiving_step [OF inv Receiving st] obtain p r q' where
    t: "t = s\<lparr>queues := (queues s)(desc s i := q'), answers := (answers s)(i := answers s i @ [c_str r]),
            cpc := (cpc s)(i := Sending (Suc k))\<rparr>" .
  from Receiving k ok sum_upd [OF i, of calls_left "cpc s" "Sending (Suc k)"] show ?thesis
    by (auto simp: t pcs_ok_def work_left_def)
qed (use st in \<open>simp add: client_step_def\<close>)

lemma server_step_work:
  assumes inv: "mqsys_inv N s" and ok: "pcs_ok s" and st: "server_step junk s = Some t"
  shows "pcs_ok t \<and> work_left N t < work_left N s"
proof (cases "srv s")
  case Waiting
  from server_receives [OF inv Waiting st] obtain p m q' where
    r: "mq_receive (srv_q s) MAX_MSG_SIZE = Inr ((p, m), q')" and t: "t = s\<lparr>srv_q := q', srv := Serving m\<rparr>" .
  from r have "length (mq_msgs (srv_q s)) = Suc (length (mq_msgs q'))"
    by (auto simp: mq_receive_def split: if_splits list.splits)
  with Waiting ok show ?thesis by (simp add: t pcs_ok_def work_left_def)
next
  case (Serving m)
  with st have "cpc t = cpc s" "srv_q t = srv_q s" "serving_left (srv t) < 2"
    by (auto simp: server_step_def split: option.splits)
  with Serving ok show ?thesis by (simp add: pcs_ok_def work_left_def)
next
  case (Replying r q)
  with st have "cpc t = cpc s" "srv_q t = srv_q s" "srv t = Waiting"
    by (auto simp: server_step_def split: sum.splits mq_error.splits)
  with Replying ok show ?thesis by (simp add: pcs_ok_def work_left_def)
qed

lemma run_work:
  assumes "N \<le> 10" "(mqsys_step N ^^ n) mqsys_start s"
  shows "mqsys_inv N s \<and> pcs_ok s \<and> n + work_left N s \<le> 17 * N"
  using assms(2)
proof (induction n arbitrary: s)
  case 0
  then have "s = mqsys_start" by simp
  with mqsys_inv_start show ?case by (simp add: mqsys_start_def pcs_ok_def work_left_def)
next
  case (Suc n)
  then obtain r where r: "(mqsys_step N ^^ n) mqsys_start r" "mqsys_step N r s" by auto
  from Suc.IH [OF r(1)] have ih: "mqsys_inv N r" "pcs_ok r" "n + work_left N r \<le> 17 * N" by auto
  from r(2) show ?case
  proof cases
    case (client i)
    with client_step_inv [OF ih(1) client(1,2)] client_step_work [OF ih(1,2) client(1,2)] ih(3)
    show ?thesis by simp
  next
    case (server junk)
    with server_step_inv [OF ih(1) assms(1) server(1,2)] server_step_work [OF ih(1,2) server(2)] ih(3)
    show ?thesis by simp
  qed
qed

subsection \<open>Schedules\<close>

datatype turn = Client nat | Server

fun turn_step :: "turn \<Rightarrow> mqsys \<Rightarrow> mqsys option" where
  "turn_step (Client i) s = client_step i s"
| "turn_step Server s = server_step (replicate MAX_MSG_SIZE NUL) s"

abbreviation run_turns :: "turn list \<Rightarrow> mqsys \<Rightarrow> mqsys option" where
  "run_turns \<equiv> run_script turn_step"

lemma run_turns_reachable:
  assumes "run_turns us s = Some t" "\<forall>i. Client i \<in> set us \<longrightarrow> i < N"
  shows "(mqsys_step N)\<^sup>*\<^sup>* s t"
proof (rule run_script_reachable [OF assms(1)])
  show "mqsys_step N s t" if "u \<in> set us" "turn_step u s = Some t" for u s t
    by (cases u) (use that assms(2) in
      \<open>auto intro: mqsys_step.client mqsys_step.server [of "replicate MAX_MSG_SIZE NUL"]\<close>)
qed

definition session :: "nat \<Rightarrow> turn list" where
  "session i = [Client i, Server, Server, Server, Client i]"

text \<open>Client 1 is at its urgent message when client 0 sends its first one.\<close>

definition mixed_up :: "turn list" where
  "mixed_up = Client 1 # session 1 @ [Client 1, Client 0, Client 0, Server, Server, Server, Client 0]"

text \<open>Client 0 finishes and unlinks the answer queue while client 1 has it open.\<close>

definition unlinked :: "turn list" where
  "unlinked = [Client 0, Client 1] @ session 0 @ session 0 @ session 0 @ [Client 0, Client 1, Server, Server]"

lemma mixed_up_result:
  "map_option (\<lambda>s. (answers s 0, cpc s 1)) (run_turns mixed_up mqsys_start) =
     Some ([''URGENT MESSAGE!''], Receiving 1)"
  by code_simp

lemma unlinked_result:
  "map_option (\<lambda>s. (cpc s 0, cpc s 1, mq_msgs (queues s (desc s 1)), mq_msgs (srv_q s), srv s))
     (run_turns unlinked mqsys_start) = Some (Closed, Receiving 0, [], [], Waiting)"
  by code_simp

subsection \<open>Properties\<close>

text \<open>
  C20. One client at a time is served as it should be: in every state of every run of the server with a
  single client the answers it has are the upper-case texts of its messages so far, in order; it is
  never stuck before it has closed its queue; and then it has all three answers, the server holds
  nothing back, and the name of the answer queue is gone.
\<close>

theorem one_client_served:
  assumes "(mqsys_step 1)\<^sup>*\<^sup>* mqsys_start s"
  shows "(\<exists>k. answers s 0 = take k [''ORDINARY MESSAGE 1'', ''URGENT MESSAGE!'', ''ORDINARY MESSAGE 2'']) \<and>
    (cpc s 0 \<noteq> Closed \<longrightarrow> (\<exists>t. mqsys_step 1 s t)) \<and>
    (cpc s 0 = Closed \<longrightarrow> answers s 0 = [''ORDINARY MESSAGE 1'', ''URGENT MESSAGE!'', ''ORDINARY MESSAGE 2''] \<and>
       mq_msgs (srv_q s) = [] \<and> srv s = Waiting \<and> name s = None)"
proof -
  from solo_run.inv_run [OF refl assms] have inv: "mqsys_inv 1 s" and solo: "solo s" by auto
  have u: "upper_messages = [''ORDINARY MESSAGE 1'', ''URGENT MESSAGE!'', ''ORDINARY MESSAGE 2'']"
    by code_simp
  have "\<exists>k. answers s 0 = take k upper_messages"
    using solo by (cases "cpc s 0") (auto simp: solo_def intro: exI [of _ 0] exI [of _ "length upper_messages"])
  with solo_progress [OF inv solo] solo show ?thesis unfolding u by (auto simp: solo_def idle_def u)
qed

theorem one_client_served_witness:
  "\<exists>s. (mqsys_step 1)\<^sup>*\<^sup>* mqsys_start s \<and> cpc s 0 = Closed \<and>
     answers s 0 = [''ORDINARY MESSAGE 1'', ''URGENT MESSAGE!'', ''ORDINARY MESSAGE 2'']"
proof -
  let ?us = "[Client 0] @ session 0 @ session 0 @ session 0 @ [Client 0]"
  have "map_option (\<lambda>s. cpc s 0) (run_turns ?us mqsys_start) = Some Closed" by code_simp
  then obtain s where s: "run_turns ?us mqsys_start = Some s" "cpc s 0 = Closed" by auto
  have "(mqsys_step 1)\<^sup>*\<^sup>* mqsys_start s"
    by (rule run_turns_reachable [OF s(1)]) (auto simp: session_def)
  with one_client_served [OF this] s(2) show ?thesis by blast
qed

text \<open>
  C22. Up to ten clients never fill a queue: no client blocks in \<open>mq_send\<close>, the server never blocks
  between receiving and answering and leaves none of its buffers, and every answer a client gets
  is the upper-case text of one of the messages.
\<close>

theorem ten_clients_never_block:
  assumes "(mqsys_step N)\<^sup>*\<^sup>* mqsys_start s" "N \<le> 10"
  shows "(\<forall>i < N. \<forall>k. cpc s i = Sending k \<longrightarrow> client_step i s \<noteq> None) \<and>
    (\<forall>junk. srv s \<noteq> Waiting \<and> length junk = MAX_MSG_SIZE \<longrightarrow> server_step junk s \<noteq> None) \<and>
    (\<forall>i. \<forall>a \<in> set (answers s i). a \<in> set (map (map toupper \<circ> fst) client_messages))"
proof -
  have inv: "mqsys_inv N s" using mqsys_run.inv_run [OF refl assms(1)] assms(2) by blast
  with never_full [OF inv assms(2)] show ?thesis
    by (auto simp: mqsys_inv_def upper_messages_def [symmetric] simp del: set_map)
qed

theorem ten_clients_never_block_witness:
  "\<exists>s. (mqsys_step 10)\<^sup>*\<^sup>* mqsys_start s \<and> (\<exists>k. cpc s 9 = Sending k) \<and> client_step 9 s \<noteq> None"
proof -
  have "map_option (\<lambda>s. cpc s 9) (run_turns [Client 9] mqsys_start) = Some (Sending 0)" by code_simp
  then obtain s where s: "run_turns [Client 9] mqsys_start = Some s" "cpc s 9 = Sending 0" by auto
  have r: "(mqsys_step 10)\<^sup>*\<^sup>* mqsys_start s" by (rule run_turns_reachable [OF s(1)]) auto
  from ten_clients_never_block [OF r] s(2) r show ?thesis by auto
qed



text \<open>
  C27. Two clients already disturb each other, since they share one answer queue: a client can get the
  answer to the other one's message, and a client whose answer queue the other one has unlinked
  waits for ever, in a state without any further step, because the server finds no queue under the
  name and drops the answer.
\<close>

theorem two_clients_interfere:
  "(\<exists>s. (mqsys_step 2)\<^sup>*\<^sup>* mqsys_start s \<and> cpc s 0 = Sending 1 \<and> answers s 0 = [''URGENT MESSAGE!'']) \<and>
   (\<exists>s. (mqsys_step 2)\<^sup>*\<^sup>* mqsys_start s \<and> cpc s 1 = Receiving 0 \<and> (\<forall>t. \<not> mqsys_step 2 s t))"
proof
  have "map_option (\<lambda>s. (cpc s 0, answers s 0)) (run_turns mixed_up mqsys_start) =
      Some (Sending 1, [''URGENT MESSAGE!''])" by code_simp
  then obtain s where s: "run_turns mixed_up mqsys_start = Some s" "cpc s 0 = Sending 1"
    "answers s 0 = [''URGENT MESSAGE!'']" by auto
  moreover have "(mqsys_step 2)\<^sup>*\<^sup>* mqsys_start s"
    by (rule run_turns_reachable [OF s(1)]) (auto simp: mixed_up_def session_def)
  ultimately show "\<exists>s. (mqsys_step 2)\<^sup>*\<^sup>* mqsys_start s \<and> cpc s 0 = Sending 1 \<and> answers s 0 = [''URGENT MESSAGE!'']"
    by blast
  from unlinked_result obtain s where s: "run_turns unlinked mqsys_start = Some s" "cpc s 0 = Closed"
    "cpc s 1 = Receiving 0" "mq_msgs (queues s (desc s 1)) = []" "mq_msgs (srv_q s) = []" "srv s = Waiting"
    by auto
  have run: "(mqsys_step 2)\<^sup>*\<^sup>* mqsys_start s"
    by (rule run_turns_reachable [OF s(1)]) (auto simp: unlinked_def session_def)
  then have inv: "mqsys_inv 2 s" using mqsys_run.inv_run [OF refl, of 2 s] by simp
  have "client_step 0 s = None" using s(2) by (simp add: client_step_def)
  moreover have "client_step 1 s \<noteq> Some t" for t
  proof
    assume "client_step 1 s = Some t"
    from receiving_step [OF inv s(3) this] obtain x where "mq_receive (queues s (desc s 1)) MAX_MSG_SIZE = Inr x" .
    with s(4) mq_receive_empty show False by simp
  qed
  then have "client_step 1 s = None" by (cases "client_step 1 s") auto
  moreover have "server_step junk s \<noteq> Some t" for junk t
  proof
    assume "server_step junk s = Some t"
    from server_receives [OF inv s(6) this] obtain x where "mq_receive (srv_q s) MAX_MSG_SIZE = Inr x" .
    with s(5) mq_receive_empty show False by simp
  qed
  ultimately have "\<not> mqsys_step 2 s t" for t by (auto simp: less_2_cases_iff elim!: mqsys_stepE)
  with run show "\<exists>s. (mqsys_step 2)\<^sup>*\<^sup>* mqsys_start s \<and> cpc s 1 = Receiving 0 \<and> (\<forall>t. \<not> mqsys_step 2 s t)"
    using s(3) by blast
qed

end
