(* ===== verification/MqTimeout.thy ===== *)
theory MqTimeout
  imports Timeouts
begin

section \<open>The timed receive with its sender thread (task2/src/timeout_mq.c)\<close>

text \<open>
  Theory \<open>Timeouts\<close> has main of \<open>timeout_mq.c\<close> with the time of the sender's message as an argument. Here
  main (the receiver) and the sender thread run against each other over the queue, with a clock in
  nanoseconds that may advance by any amount between two steps. The queue behind the name may hold
  messages of an earlier run. \<open>mq_timedreceive\<close> takes a message that is there whatever the time, and
  gives up only behind its absolute deadline.
\<close>

datatype receiver_pc = Wait1 | In1 | Start2 | Wait2 | In2 | Joining | Closing | Returned nat
datatype sender_pc = Unborn | Starting | Asleep int | Sending | Finished

datatype line =
    Waiting_100 | Timed_out | Unexpected string | Receive_error | Starting_sender | Create_failed
  | Received string | Gave_up | Sender_sleeps | Sender_sends | Send_failed

primrec line_text :: "line \<Rightarrow> string" where
  "line_text Waiting_100 = ''[RECEIVER] Waiting for 100ms on an empty queue, expecting timeout...''"
| "line_text Timed_out = ''[RECEIVER] Timed out as expected.''"
| "line_text (Unexpected m) = ''[RECEIVER] Unexpectedly received message: '' @ m"
| "line_text Receive_error = ''[RECEIVER] mq_timedreceive error''"
| "line_text Starting_sender = [LF] @ ''[RECEIVER] Starting sender and waiting for up to 1000ms...''"
| "line_text Create_failed = ''pthread_create failed''"
| "line_text (Received m) = ''[RECEIVER] Successfully received '' @ [CHR 0x27] @ m @ [CHR 0x27] @ '' within timeout.''"
| "line_text Gave_up = ''[RECEIVER] Unexpected timeout.''"
| "line_text Sender_sleeps = ''[SENDER] sleeping for 300ms...''"
| "line_text Sender_sends = ''[SENDER] sending message...''"
| "line_text Send_failed = ''mq_send failed''"

record mq_run =
  now :: int                  \<comment> \<open>nanoseconds\<close>
  rpc :: receiver_pc
  spc :: sender_pc
  queue :: mq
  is_open :: bool             \<comment> \<open>the descriptor both threads use\<close>
  named :: bool               \<comment> \<open>the name exists\<close>
  due :: timespec
  got :: "string list"        \<comment> \<open>messages received\<close>
  sent_at :: "int option"
  lines :: "line list"

definition mq_run_start :: "int \<Rightarrow> mq \<Rightarrow> mq_run" where
  "mq_run_start t q = \<lparr>now = t, rpc = Wait1, spc = Unborn, queue = q, is_open = True, named = True,
     due = \<lparr>tv_sec = 0, tv_nsec = 0\<rparr>, got = [], sent_at = None, lines = []\<rparr>"

definition say :: "line \<Rightarrow> mq_run \<Rightarrow> mq_run" where
  "say l s = s\<lparr>lines := lines s @ [l]\<rparr>"

definition hello :: string where "hello = ''hello'' @ [NUL]"

text \<open>The clock is read and the deadline computed.\<close>

definition set_deadline :: "int \<Rightarrow> receiver_pc \<Rightarrow> mq_run \<Rightarrow> mq_run option" where
  "set_deadline ms p s = map_option (\<lambda>ts. s\<lparr>due := ts, rpc := p\<rparr>) (abs_time_after_ms (ns_to_timespec (now s)) ms)"

text \<open>
  \<open>mq_timedreceive\<close> with the 128 bytes of \<open>buf\<close>: a message (\<open>printed\<close> says what is printed of it), the timeout
  (\<open>late\<close>), or another error.
\<close>

definition timed_wait :: "bool \<Rightarrow> (string \<Rightarrow> line) \<Rightarrow> line \<Rightarrow> receiver_pc \<Rightarrow> mq_run \<Rightarrow> mq_run option" where
  "timed_wait fails printed late p s =
     (if fails then Some (say Receive_error (s\<lparr>rpc := p\<rparr>))
      else (case mq_receive (queue s) 128 of
          Inr ((prio, m), q) \<Rightarrow> Some (say (printed (c_str m)) (s\<lparr>queue := q, got := got s @ [m], rpc := p\<rparr>))
        | Inl EMSGSIZE \<Rightarrow> Some (say Receive_error (s\<lparr>rpc := p\<rparr>))
        | Inl EAGAIN \<Rightarrow> if ns_of (due s) \<le> now s then Some (say late (s\<lparr>rpc := p\<rparr>)) else None))"

text \<open>A step of main behind \<open>mq_open\<close>. \<^const>\<open>None\<close>: it waits or has returned, or the deadline overflows.\<close>

definition receiver_step :: "bool \<Rightarrow> bool \<Rightarrow> mq_run \<Rightarrow> mq_run option" where
  "receiver_step created fails s = (case rpc s of
     Wait1 \<Rightarrow> set_deadline 100 In1 (say Waiting_100 s)
   | In1 \<Rightarrow> timed_wait fails Unexpected Timed_out Start2 s
   | Start2 \<Rightarrow>
       let s = say Starting_sender s
       in Some (if created then s\<lparr>spc := Starting, rpc := Wait2\<rparr>
                else say Create_failed (s\<lparr>is_open := False, named := False, rpc := Returned 1\<rparr>))
   | Wait2 \<Rightarrow> set_deadline 1000 In2 s
   | In2 \<Rightarrow> timed_wait fails Received Gave_up Joining s
   | Joining \<Rightarrow> if spc s = Finished then Some (s\<lparr>rpc := Closing\<rparr>) else None
   | Closing \<Rightarrow> Some (s\<lparr>is_open := False, named := False, rpc := Returned 0\<rparr>)
   | Returned n \<Rightarrow> None)"

text \<open>A step of \<open>sender\<close>. \<^const>\<open>None\<close>: not created, asleep, in front of a full queue, or finished.\<close>

definition sender_step :: "mq_run \<Rightarrow> mq_run option" where
  "sender_step s = (case spc s of
     Unborn \<Rightarrow> None
   | Starting \<Rightarrow> Some (say Sender_sleeps (s\<lparr>spc := Asleep (now s + 300 * 1000 * 1000)\<rparr>))
   | Asleep t \<Rightarrow> if t \<le> now s then Some (say Sender_sends (s\<lparr>spc := Sending\<rparr>)) else None
   | Sending \<Rightarrow>
       if \<not> is_open s then Some (say Send_failed (s\<lparr>spc := Finished\<rparr>))
       else (case mq_send (queue s) hello 0 of
          Inl EAGAIN \<Rightarrow> None
        | Inl EMSGSIZE \<Rightarrow> Some (say Send_failed (s\<lparr>spc := Finished\<rparr>))
        | Inr q \<Rightarrow> Some (s\<lparr>queue := q, sent_at := Some (now s), spc := Finished\<rparr>))
   | Finished \<Rightarrow> None)"

inductive mq_run_step :: "bool \<Rightarrow> mq_run \<Rightarrow> mq_run \<Rightarrow> bool" for created where
  receiver: "receiver_step created fails s = Some t \<Longrightarrow> mq_run_step created s t"
| sender: "sender_step s = Some t \<Longrightarrow> mq_run_step created s t"
| time: "0 < d \<Longrightarrow> mq_run_step created s (s\<lparr>now := now s + d\<rparr>)"

subsection \<open>The invariant\<close>

text \<open>The queue an earlier run may have left: as \<open>mq_open\<close> creates it, with messages of priority 0 and room.\<close>

definition old_queue :: "mq \<Rightarrow> bool" where
  "old_queue q \<longleftrightarrow> mq_ok q \<and> all_prio 0 q \<and> mq_msgsize q = 128 \<and> mq_maxmsg q = 10 \<and> length (mq_msgs q) < 10 \<and>
     (\<forall>m \<in> set (texts q). NUL \<in> set m)"

definition queue_inv :: "string list \<Rightarrow> mq_run \<Rightarrow> bool" where
  "queue_inv ms s \<longleftrightarrow> (mq_ok (queue s) \<and> all_prio 0 (queue s)) \<and> mq_msgsize (queue s) = 128 \<and>
     mq_maxmsg (queue s) = 10 \<and> length ms < 10 \<and>
     got s @ texts (queue s) = ms @ (if sent_at s = None then [] else [hello]) \<and>
     (rpc s \<in> {Wait1, In1} \<longrightarrow> got s = []) \<and> (rpc s \<in> {Start2, Wait2, In2} \<longrightarrow> length (got s) \<le> length ms)"

definition flow_inv :: "mq_run \<Rightarrow> bool" where
  "flow_inv s \<longleftrightarrow> (is_open s \<longleftrightarrow> (\<forall>n. rpc s \<noteq> Returned n)) \<and> named s = is_open s \<and>
     (spc s = Unborn \<longleftrightarrow> rpc s \<in> {Wait1, In1, Start2, Returned 1}) \<and>
     (rpc s = Closing \<longrightarrow> spc s = Finished) \<and> (\<forall>n. rpc s = Returned n \<longrightarrow> n = 0 \<and> spc s = Finished \<or> n = 1) \<and>
     (sent_at s = None \<longleftrightarrow> spc s \<noteq> Finished) \<and> Send_failed \<notin> set (lines s)"

definition time_inv :: "int \<Rightarrow> mq_run \<Rightarrow> bool" where
  "time_inv t0 s \<longleftrightarrow> 0 \<le> t0 \<and> t0 \<le> now s \<and>
     (rpc s = In1 \<longrightarrow> t0 + 100000000 \<le> ns_of (due s)) \<and>
     (Timed_out \<in> set (lines s) \<longrightarrow> t0 + 100000000 \<le> now s)"

definition late_inv :: "mq_run \<Rightarrow> bool" where
  "late_inv s \<longleftrightarrow> (Gave_up \<in> set (lines s) \<longrightarrow> rpc s \<in> {Joining, Closing, Returned 0} \<and>
     ns_of (due s) \<le> now s \<and> (\<forall>w. sent_at s = Some w \<longrightarrow> ns_of (due s) \<le> w))"

definition lines_inv :: "string list \<Rightarrow> mq_run \<Rightarrow> bool" where
  "lines_inv ms s \<longleftrightarrow> (\<forall>x. Unexpected x \<in> set (lines s) \<longrightarrow> x \<in> c_str ` set ms) \<and>
     (\<forall>x. Received x \<in> set (lines s) \<longrightarrow> x \<in> c_str ` set (ms @ [hello])) \<and>
     (rpc s \<in> {Joining, Closing, Returned 0} \<longrightarrow>
        Gave_up \<in> set (lines s) \<or> Receive_error \<in> set (lines s) \<or> (\<exists>x. Received x \<in> set (lines s)))"

lemma say_simps [simp]: "lines (say l s) = lines s @ [l]" "now (say l s) = now s" "rpc (say l s) = rpc s"
  "spc (say l s) = spc s" "queue (say l s) = queue s" "is_open (say l s) = is_open s" "named (say l s) = named s"
  "due (say l s) = due s" "got (say l s) = got s" "sent_at (say l s) = sent_at s"
  by (simp_all add: say_def)

lemma abs_time_ns_of:
  assumes "abs_time_after_ms c ms = Some ts"
  shows "ns_of ts = ns_of c + ms * 1000000"
proof -
  define a b where ab: "a = ms sdiv 1000" "b = ms smod 1000"
  have "ms = a * 1000 + b" unfolding ab by (simp add: sdiv_mult_smod_eq)
  moreover from assms have "ns_of ts = (tv_sec c + a) * 1000000000 + (tv_nsec c + b * 1000000)"
    unfolding abs_time_after_ms_def ab [symmetric]
    by (auto simp: ns_of_def chk_Some_iff bind_eq_Some_conv split: if_splits)
  ultimately show ?thesis by (simp add: ns_of_def)
qed

text \<open>The three ways out of a wait.\<close>

lemma timed_wait_cases:
  assumes w: "timed_wait fails printed late p s = Some t" and size: "mq_msgsize (queue s) = 128"
  obtains (error) "t = say Receive_error (s\<lparr>rpc := p\<rparr>)"
  | (message) m q where "receive_full (queue s) = Some (m, q)" "mq_msgsize q = 128" "mq_maxmsg q = mq_maxmsg (queue s)"
      "t = say (printed (c_str m)) (s\<lparr>queue := q, got := got s @ [m], rpc := p\<rparr>)"
  | (late) "receive_full (queue s) = None" "ns_of (due s) \<le> now s" "t = say late (s\<lparr>rpc := p\<rparr>)"
proof (cases fails)
  case True
  with w error show ?thesis by (simp add: timed_wait_def)
next
  case False
  show ?thesis
  proof (cases "mq_msgs (queue s)")
    case Nil
    with size have "mq_receive (queue s) 128 = Inl EAGAIN" "receive_full (queue s) = None"
      by (simp_all add: mq_receive_def receive_full_def)
    with w False late show ?thesis by (simp add: timed_wait_def split: if_splits)
  next
    case (Cons x ms)
    obtain prio m where x: "x = (prio, m)" by force
    with Cons size have "mq_receive (queue s) 128 = Inr ((prio, m), (queue s)\<lparr>mq_msgs := ms\<rparr>)"
      "receive_full (queue s) = Some (m, (queue s)\<lparr>mq_msgs := ms\<rparr>)"
      by (simp_all add: mq_receive_def receive_full_def)
    with w False size message show ?thesis by (simp add: timed_wait_def)
  qed
qed

text \<open>The sender's message is taken whenever it is sent.\<close>

lemma hello_taken:
  assumes "queue_inv ms s" "sent_at s = None"
  obtains q where "mq_send (queue s) hello 0 = Inr q" "texts q = texts (queue s) @ [hello]"
    "mq_ok q \<and> all_prio 0 q" "mq_msgsize q = 128" "mq_maxmsg q = 10"
proof -
  from assms have "length (got s @ texts (queue s)) < 10" by (auto simp: queue_inv_def)
  then have "length (mq_msgs (queue s)) < 10" by (simp add: texts_def)
  with assms(1) obtain q where q: "mq_send (queue s) hello 0 = Inr q" "mq_msgsize q = 128" "mq_maxmsg q = 10"
    by (auto simp: queue_inv_def mq_send_def hello_def)
  then have "send_prio 0 (queue s) hello = Some q" by (simp add: send_prio_def)
  with mqueue.put_Some assms(1) have "texts q = texts (queue s) @ [hello] \<and> mq_ok q \<and> all_prio 0 q"
    unfolding queue_inv_def by blast
  with q that show ?thesis by blast
qed

text \<open>The whole invariant, and what a step of the sender can do under it.\<close>

definition mq_run_inv :: "int \<Rightarrow> string list \<Rightarrow> mq_run \<Rightarrow> bool" where
  "mq_run_inv t0 ms s \<longleftrightarrow> queue_inv ms s \<and> flow_inv s \<and> time_inv t0 s \<and> late_inv s \<and> lines_inv ms s"

lemmas mq_run_invs = queue_inv_def flow_inv_def time_inv_def late_inv_def lines_inv_def

lemma sender_line_inv:
  assumes i: "mq_run_inv t0 ms s" and "spc s \<noteq> Unborn" "spc s \<noteq> Finished" "p \<noteq> Unborn" "p \<noteq> Finished"
    and l: "l = Sender_sleeps \<or> l = Sender_sends"
  shows "mq_run_inv t0 ms (say l (s\<lparr>spc := p\<rparr>))"
proof -
  from i have "queue_inv ms (say l (s\<lparr>spc := p\<rparr>))" by (simp add: mq_run_inv_def queue_inv_def)
  moreover from assms have "flow_inv (say l (s\<lparr>spc := p\<rparr>))" by (auto simp: mq_run_inv_def flow_inv_def)
  moreover from i l have "time_inv t0 (say l (s\<lparr>spc := p\<rparr>))" by (auto simp: mq_run_inv_def time_inv_def)
  moreover from i l have "late_inv (say l (s\<lparr>spc := p\<rparr>))" by (auto simp: mq_run_inv_def late_inv_def)
  moreover from i l have "lines_inv ms (say l (s\<lparr>spc := p\<rparr>))"
    by (elim disjE) (simp_all add: mq_run_inv_def lines_inv_def)
  ultimately show ?thesis by (simp add: mq_run_inv_def)
qed

lemma sender_step_inv:
  assumes s: "sender_step s = Some t" and i: "mq_run_inv t0 ms s"
  shows "mq_run_inv t0 ms t"
proof (cases "spc s")
  case Sending
  with i have o: "is_open s" and n: "sent_at s = None" and iq: "queue_inv ms s"
    by (auto simp: mq_run_inv_def flow_inv_def)
  from iq n obtain q where q: "mq_send (queue s) hello 0 = Inr q" "texts q = texts (queue s) @ [hello]"
    "mq_ok q \<and> all_prio 0 q" "mq_msgsize q = 128" "mq_maxmsg q = 10" by (rule hello_taken)
  with s Sending o have t: "t = s\<lparr>queue := q, sent_at := Some (now s), spc := Finished\<rparr>"
    by (simp add: sender_step_def)
  have "queue_inv ms t" using iq n q unfolding t queue_inv_def by (simp flip: append_assoc)
  moreover from i Sending have "flow_inv t" unfolding t by (auto simp: mq_run_inv_def flow_inv_def)
  moreover from i have "time_inv t0 t" "late_inv t" "lines_inv ms t"
    unfolding t by (simp_all add: mq_run_inv_def time_inv_def late_inv_def lines_inv_def)
  ultimately show ?thesis by (simp add: mq_run_inv_def)
next
  case Starting
  with s have t: "t = say Sender_sleeps (s\<lparr>spc := Asleep (now s + 300 * 1000 * 1000)\<rparr>)" by (simp add: sender_step_def)
  show ?thesis unfolding t by (rule sender_line_inv [OF i]) (use Starting in simp_all)
next
  case (Asleep w)
  with s have t: "t = say Sender_sends (s\<lparr>spc := Sending\<rparr>)" by (simp add: sender_step_def split: if_splits)
  show ?thesis unfolding t by (rule sender_line_inv [OF i]) (use Asleep in simp_all)
qed (use s in \<open>simp_all add: sender_step_def\<close>)

text \<open>The two waits: the message taken is the next of the queue.\<close>

lemma received_next:
  assumes "queue_inv ms s" "receive_full (queue s) = Some (m, q)"
  shows "texts (queue s) = m # texts q" "mq_ok q \<and> all_prio 0 q"
    "got s @ m # texts q = ms @ (if sent_at s = None then [] else [hello])"
    "m \<in> set ms \<or> m = hello \<and> sent_at s \<noteq> None"
proof -
  from assms mqueue.get_Some have r: "texts (queue s) = m # texts q" "mq_ok q \<and> all_prio 0 q"
    unfolding queue_inv_def by blast+
  with assms(1) show a: "got s @ m # texts q = ms @ (if sent_at s = None then [] else [hello])"
    by (simp add: queue_inv_def)
  then have "m \<in> set (ms @ (if sent_at s = None then [] else [hello]))" by (metis in_set_conv_decomp)
  then show "m \<in> set ms \<or> m = hello \<and> sent_at s \<noteq> None" by (auto split: if_splits)
  show "texts (queue s) = m # texts q" "mq_ok q \<and> all_prio 0 q" by (fact r)+
qed

lemma first_wait_inv:
  assumes w: "timed_wait fails Unexpected Timed_out Start2 s = Some t" and i: "mq_run_inv t0 ms s" and p: "rpc s = In1"
  shows "mq_run_inv t0 ms t"
proof -
  from i have iq: "queue_inv ms s" "mq_msgsize (queue s) = 128" by (simp_all add: mq_run_inv_def queue_inv_def)
  from i p have u: "spc s = Unborn" "sent_at s = None" "got s = []" "Gave_up \<notin> set (lines s)"
    by (simp_all add: mq_run_inv_def flow_inv_def queue_inv_def late_inv_def)
  from w iq(2) show ?thesis
  proof (cases rule: timed_wait_cases)
    case error
    from i p u show ?thesis unfolding error mq_run_inv_def mq_run_invs by simp
  next
    case late
    from i p late(2) u show ?thesis unfolding late(3) mq_run_inv_def mq_run_invs by simp
  next
    case (message m q)
    from received_next [OF iq(1) message(1)] u(2,3)
    have "mq_ok q \<and> all_prio 0 q" "m # texts q = ms" "m \<in> set ms" by auto
    with i p u message(2,3) show ?thesis unfolding message(4) mq_run_inv_def mq_run_invs by auto
  qed
qed

lemma second_wait_inv:
  assumes w: "timed_wait fails Received Gave_up Joining s = Some t" and i: "mq_run_inv t0 ms s" and p: "rpc s = In2"
  shows "mq_run_inv t0 ms t"
proof -
  from i have iq: "queue_inv ms s" "mq_msgsize (queue s) = 128" by (simp_all add: mq_run_inv_def queue_inv_def)
  from i p have u: "spc s \<noteq> Unborn" "Gave_up \<notin> set (lines s)" "length (got s) \<le> length ms"
    by (simp_all add: mq_run_inv_def flow_inv_def queue_inv_def late_inv_def)
  from w iq(2) show ?thesis
  proof (cases rule: timed_wait_cases)
    case error
    from i p u show ?thesis unfolding error mq_run_inv_def mq_run_invs by simp
  next
    case late
    from late(1) iq mqueue.get_None have "texts (queue s) = []" unfolding queue_inv_def by blast
    with iq(1) have "got s = ms @ (if sent_at s = None then [] else [hello])" by (simp add: queue_inv_def)
    with u(3) have "sent_at s = None" by (auto split: if_splits)
    with i p late(2) u show ?thesis unfolding late(3) mq_run_inv_def mq_run_invs by simp
  next
    case (message m q)
    from received_next [OF iq(1) message(1)]
    have n: "mq_ok q \<and> all_prio 0 q" "got s @ m # texts q = ms @ (if sent_at s = None then [] else [hello])"
      "c_str m \<in> c_str ` set (ms @ [hello])" by auto
    let ?t = "say (Received (c_str m)) (s\<lparr>queue := q, got := got s @ [m], rpc := Joining\<rparr>)"
    from iq(1) n message(2,3) have "queue_inv ms ?t" by (simp add: queue_inv_def)
    moreover from i u(1) p have "flow_inv ?t" by (simp add: mq_run_inv_def flow_inv_def)
    moreover from i u p have "time_inv t0 ?t" "late_inv ?t" by (simp_all add: mq_run_inv_def time_inv_def late_inv_def)
    moreover from i n(3) have "lines_inv ms ?t" by (simp add: mq_run_inv_def lines_inv_def) blast
    ultimately show ?thesis unfolding message(4) by (simp add: mq_run_inv_def)
  qed
qed

text \<open>The other steps of the receiver.\<close>

lemma set_deadline_Some:
  assumes "set_deadline ms p s = Some t"
  obtains ts where "ns_of ts = now s + ms * 1000000" "t = s\<lparr>due := ts, rpc := p\<rparr>"
proof -
  from assms obtain ts where ts: "abs_time_after_ms (ns_to_timespec (now s)) ms = Some ts"
    "t = s\<lparr>due := ts, rpc := p\<rparr>" by (auto simp: set_deadline_def)
  from abs_time_ns_of [OF ts(1)] ts(2) that show ?thesis by (simp add: ns_of_ns_to_timespec)
qed

lemma receiver_step_inv:
  assumes s: "receiver_step created fails s = Some t" and i: "mq_run_inv t0 ms s"
  shows "mq_run_inv t0 ms t"
proof (cases "rpc s")
  case In1
  with s have "timed_wait fails Unexpected Timed_out Start2 s = Some t" by (simp add: receiver_step_def)
  from first_wait_inv [OF this i In1] show ?thesis .
next
  case In2
  with s have "timed_wait fails Received Gave_up Joining s = Some t" by (simp add: receiver_step_def)
  from second_wait_inv [OF this i In2] show ?thesis .
next
  case Wait1
  with s obtain ts where ts: "ns_of ts = now s + 100 * 1000000"
    and t: "t = (say Waiting_100 s)\<lparr>due := ts, rpc := In1\<rparr>"
    by (auto simp: receiver_step_def elim!: set_deadline_Some)
  from i Wait1 have "sent_at s = None" "texts (queue s) = ms" by (auto simp: mq_run_inv_def flow_inv_def queue_inv_def)
  with i Wait1 ts show ?thesis unfolding t mq_run_inv_def mq_run_invs by simp
next
  case Wait2
  with s obtain ts where ts: "ns_of ts = now s + 1000 * 1000000" and t: "t = s\<lparr>due := ts, rpc := In2\<rparr>"
    by (auto simp: receiver_step_def elim!: set_deadline_Some)
  from i Wait2 show ?thesis unfolding t mq_run_inv_def mq_run_invs by simp
next
  case Start2
  with i have u: "spc s = Unborn" "sent_at s = None" "Gave_up \<notin> set (lines s)" "is_open s" "named s"
    by (simp_all add: mq_run_inv_def flow_inv_def late_inv_def)
  from Start2 s have t: "t = (if created then (say Starting_sender s)\<lparr>spc := Starting, rpc := Wait2\<rparr>
      else say Create_failed ((say Starting_sender s)\<lparr>is_open := False, named := False, rpc := Returned 1\<rparr>))"
    by (simp add: receiver_step_def Let_def)
  from i u Start2 show ?thesis unfolding t mq_run_inv_def mq_run_invs by simp
next
  case Joining
  with s have f: "spc s = Finished" and t: "t = s\<lparr>rpc := Closing\<rparr>" by (simp_all add: receiver_step_def split: if_splits)
  from i f Joining show ?thesis unfolding t mq_run_inv_def mq_run_invs by simp
next
  case Closing
  with s have t: "t = s\<lparr>is_open := False, named := False, rpc := Returned 0\<rparr>" by (simp add: receiver_step_def)
  from i Closing show ?thesis unfolding t mq_run_inv_def mq_run_invs by simp
qed (use s in \<open>simp add: receiver_step_def\<close>)

interpretation mq_threads: inductive_invariant "\<lambda>s. \<exists>q. old_queue q \<and> texts q = ms \<and> 0 \<le> t0 \<and> s = mq_run_start t0 q"
  "mq_run_step created" "mq_run_inv t0 ms" for created t0 ms
proof unfold_locales
  show "mq_run_inv t0 ms s" if "\<exists>q. old_queue q \<and> texts q = ms \<and> 0 \<le> t0 \<and> s = mq_run_start t0 q" for s
  proof -
    from that obtain q where q: "old_queue q" "texts q = ms" "0 \<le> t0" "s = mq_run_start t0 q" by blast
    then have "length ms < 10" by (auto simp: old_queue_def texts_def)
    with q show ?thesis by (simp add: mq_run_inv_def mq_run_invs old_queue_def mq_run_start_def)
  qed
  show "mq_run_inv t0 ms t" if i: "mq_run_inv t0 ms s" and st: "mq_run_step created s t" for s t
    using st
  proof cases
    case (time d)
    from i have "queue_inv ms t" "flow_inv t" "lines_inv ms t"
      unfolding time by (simp_all add: mq_run_inv_def queue_inv_def flow_inv_def lines_inv_def)
    moreover from i time(2) have "time_inv t0 t" "late_inv t"
      unfolding time(1) by (auto simp: mq_run_inv_def time_inv_def late_inv_def)
    ultimately show ?thesis by (simp add: mq_run_inv_def)
  qed (use i receiver_step_inv sender_step_inv in blast)+
qed

text \<open>The sender always gets to its end: its sleep runs out and the queue has room.\<close>

lemma sender_never_stuck:
  assumes i: "mq_run_inv t0 ms s" and p: "spc s \<noteq> Unborn" "spc s \<noteq> Finished"
  shows "\<exists>d \<ge> 0. sender_step (s\<lparr>now := now s + d\<rparr>) \<noteq> None"
proof (cases "spc s")
  case (Asleep w)
  then have "sender_step (s\<lparr>now := now s + max 0 (w - now s)\<rparr>) \<noteq> None" by (simp add: sender_step_def)
  then show ?thesis by (intro exI [of _ "max 0 (w - now s)"]) simp
next
  case Sending
  from i p have iq: "queue_inv ms s" "sent_at s = None" by (simp_all add: mq_run_inv_def flow_inv_def)
  then obtain q where "mq_send (queue s) hello 0 = Inr q" by (rule hello_taken)
  with Sending have "sender_step (s\<lparr>now := now s + 0\<rparr>) \<noteq> None" by (simp add: sender_step_def)
  then show ?thesis by blast
qed (use p in \<open>auto simp: sender_step_def intro!: exI [of _ 0]\<close>)

subsection \<open>Theorems\<close>


text \<open>A run with both threads: the first wait times out, the message comes 300 ms into the second.\<close>

datatype mq_turn = Main | Sender | Pass int

fun mq_turn_step :: "mq_turn \<Rightarrow> mq_run \<Rightarrow> mq_run option" where
  "mq_turn_step Main s = receiver_step True False s"
| "mq_turn_step Sender s = sender_step s"
| "mq_turn_step (Pass d) s = (if 0 < d then Some (s\<lparr>now := now s + d\<rparr>) else None)"

lemma mq_turn_step_sound: "mq_turn_step m s = Some t \<Longrightarrow> mq_run_step True s t"
  by (cases m) (auto intro: mq_run_step.intros split: if_splits)


end
