(* ===== verification/EpollDrain.thy ===== *)
theory EpollDrain
  imports EpollServer
begin

section \<open>The epoll server left to itself\<close>

text \<open>
  What the loop does while no client acts: it comes to rest in \<open>epoll_wait\<close>, within a number of turns
  that is read off the state, and at rest nothing is left to be read. That needs its system calls to
  succeed (\<open>fine\<close>): with \<open>accept4\<close> failing it does not come to rest at all.
\<close>

definition fine :: "answer \<Rightarrow> bool" where
  "fine a \<longleftrightarrow> (case a of Ready evs \<Rightarrow> True | Accepted fd \<Rightarrow> True | Served reset taken \<Rightarrow> True | _ \<Rightarrow> False)"

definition server_alone :: "server \<Rightarrow> server \<Rightarrow> bool" where
  "server_alone s t \<longleftrightarrow> (\<exists>a. fine a \<and> server_step a s = Some t)"

text \<open>At rest in \<open>epoll_wait\<close>: it blocks, nothing is ready.\<close>

definition asleep :: "server \<Rightarrow> bool" where
  "asleep s \<longleftrightarrow> proc s = Running \<and> batch s = [] \<and> (\<forall>e. \<not> is_ready s e)"

subsection \<open>A measure\<close>

text \<open>
  Everything that is ready or handed out is a piece of work; a client in the backlog is two, since
  accepting it may make it ready. Only a turn of \<open>epoll_wait\<close> does no work, and it fills the batch.
\<close>

definition edges :: "server \<Rightarrow> nat set" where
  "edges s = {fd. is_ready s (Client fd)}"

definition handed :: "server \<Rightarrow> nat set" where
  "handed s = {fd. Client fd \<in> set (batch s)}"

definition pieces :: "server \<Rightarrow> nat" where
  "pieces s = 2 * length (backlog s) + of_bool (0 < counter s) + card (edges s) + card (handed s)"

definition turns_left :: "server \<Rightarrow> nat" where
  "turns_left s = 2 * pieces s + of_bool (batch s = [])"

lemma finite_edges: "loop_inv s \<Longrightarrow> finite (edges s)"
  by (rule finite_subset [of _ "dom (conns s)"])
    (auto simp: edges_def is_ready_def loop_inv_def split: option.splits)

lemma finite_handed [simp]: "finite (handed s)"
proof -
  have "handed s = Client -` set (batch s)" by (auto simp: handed_def)
  then show ?thesis by (simp add: finite_vimageI inj_def)
qed

lemma report_turns:
  assumes "loop_inv s" "batch s = []" "evs \<noteq> []" "list_all (is_ready s) evs"
  shows "turns_left (report evs s) < turns_left s"
proof -
  let ?H = "{fd. Client fd \<in> set evs}"
  have sub: "?H \<subseteq> edges s" using assms(4) by (auto simp: edges_def list_all_iff)
  have fin: "finite ?H" using sub finite_edges [OF assms(1)] by (rule finite_subset)
  have "edges (report evs s) = edges s - ?H"
    by (auto simp: edges_def report_def is_ready_def split: option.splits)
  then have "card (edges (report evs s)) + card ?H = card (edges s)"
    using sub fin finite_edges [OF assms(1)] by (simp add: card_Diff_subset card_mono)
  moreover have "handed (report evs s) = ?H" "handed s = {}"
    using assms(2) by (auto simp: handed_def report_def)
  moreover have "backlog (report evs s) = backlog s" "counter (report evs s) = counter s" "batch (report evs s) = evs"
    by (simp_all add: report_def)
  ultimately show ?thesis using assms(2,3) by (simp add: turns_left_def pieces_def)
qed

lemma turns_left_print [simp]: "turns_left (print out s) = turns_left s"
  by (simp add: turns_left_def pieces_def edges_def handed_def)

lemma server_alone_turns:
  assumes "loop_inv s" "server_alone s t"
  shows "turns_left t < turns_left s"
proof -
  from assms(2) obtain a where a: "fine a" "server_step a s = Some t" by (auto simp: server_alone_def)
  then have run: "proc s = Running" by (auto simp: server_step_def split: if_splits)
  with assms(1) have b: "batch_inv s" by (simp add: loop_inv_def)
  note fin = finite_edges [OF assms(1)]
  show ?thesis
  proof (cases "batch s")
    case Nil
    with a run report_turns [OF assms(1) Nil] show ?thesis
      by (cases a) (auto simp: server_step_def fine_def split: if_splits)
  next
    case (Cons e es)
    show ?thesis
    proof (cases e)
      case Listener
      obtain c cs fd where bl: "backlog s = c # cs" and free: "conns s fd = None"
        and t: "t = print [New_client fd] (s\<lparr>backlog := cs, batch := es, conns := (conns s)(fd \<mapsto> c\<lparr>edge := readable c\<rparr>)\<rparr>)"
        using a run Cons Listener by (cases "backlog s"; cases a) (auto simp: server_step_def fine_def split: if_splits)
      then have parts: "backlog t = cs" "counter t = counter s" "batch t = es" by simp_all
      have "edges t \<subseteq> insert fd (edges s)" using t by (auto simp: edges_def is_ready_def)
      then have "card (edges t) \<le> card (insert fd (edges s))" using fin by (intro card_mono) auto
      also have "\<dots> \<le> Suc (card (edges s))" using fin by (simp add: card_insert_if)
      finally have "card (edges t) \<le> Suc (card (edges s))" .
      moreover have "handed t = handed s" using t Cons Listener by (auto simp: handed_def)
      ultimately show ?thesis
        using Cons bl parts by (simp add: turns_left_def pieces_def of_bool_def)
    next
      case Internal
      then have t: "t = print [Internal_event (counter s)] (s\<lparr>counter := 0, batch := es\<rparr>)" "0 < counter s"
        using a run Cons b by (auto simp: server_step_def batch_inv_def split: if_splits)
      have "edges t = edges s" "handed t = handed s"
        unfolding t using Cons Internal by (auto simp: edges_def handed_def is_ready_def)
      with t Cons show ?thesis by (simp add: turns_left_def pieces_def of_bool_def)
    next
      case (Client fd)
      then obtain c reset taken c' out p where c: "conns s fd = Some c" "client_event reset taken fd c = (c', out, p)"
        and t: "t = print out (s\<lparr>conns := (conns s)(fd := c'), batch := es, proc := p\<rparr>)"
        using a run Cons by (cases a; cases "conns s fd") (auto simp: server_step_def split: prod.splits)
      then have parts: "backlog t = backlog s" "counter t = counter s" "batch t = es" by simp_all
      have "conn_inv c" using assms(1) c(1) by (simp add: loop_inv_def)
      then have "edge d = edge c" if "c' = Some d" for d
        using c(2) client_event_inv that by blast
      then have "edges t \<subseteq> edges s"
        using c(1) t by (auto simp: edges_def is_ready_def split: option.splits if_splits)
      then have "card (edges t) \<le> card (edges s)" by (rule card_mono [OF fin])
      moreover have h: "handed t = handed s - {fd}" "fd \<in> handed s"
        using parts b Cons Client by (auto simp: handed_def batch_inv_def)
      then have "Suc (card (handed t)) = card (handed s)" by (metis card_Suc_Diff1 finite_handed)
      ultimately show ?thesis using parts Cons by (simp add: turns_left_def pieces_def of_bool_def)
    qed
  qed
qed

lemma server_alone_loop: "server_alone s t \<Longrightarrow> loop_step s t"
  by (auto simp: server_alone_def intro: loop_step.server)

lemma server_alone_bound:
  "(server_alone ^^ n) s t \<Longrightarrow> loop_inv s \<Longrightarrow> n + turns_left t \<le> turns_left s \<and> loop_inv t"
proof (induction n arbitrary: t)
  case (Suc n)
  then obtain u where u: "(server_alone ^^ n) s u" "server_alone u t" by auto
  with Suc have "n + turns_left u \<le> turns_left s" "loop_inv u" by auto
  with server_alone_turns [OF _ u(2)] loop_run.inv_step [OF _ server_alone_loop [OF u(2)]] show ?case by fastforce
qed simp

subsection \<open>It stops only at rest\<close>

lemma server_alone_stuck:
  assumes "loop_inv s" "proc s = Running" "\<forall>t. \<not> server_alone s t"
  shows "asleep s"
proof (cases "batch s")
  case Nil
  have "\<not> is_ready s e" for e
  proof
    assume "is_ready s e"
    with Nil assms(2) have "server_step (Ready [e]) s = Some (report [e] s)" by (simp add: server_step_def)
    then have "server_alone s (report [e] s)" unfolding server_alone_def by (intro exI [of _ "Ready [e]"]) (simp add: fine_def)
    with assms(3) show False by blast
  qed
  with Nil assms(2) show ?thesis by (simp add: asleep_def)
next
  case (Cons e es)
  have b: "batch_inv s" using assms(1,2) by (simp add: loop_inv_def)
  have "\<exists>a. fine a \<and> server_step a s \<noteq> None"
  proof (cases e)
    case Listener
    obtain fd where "conns s fd = None"
      using ex_new_if_finite [OF infinite_UNIV_nat, of "dom (conns s)"] assms(1) by (auto simp: loop_inv_def)
    with Listener Cons b assms(2) show ?thesis
      by (intro exI [of _ "Accepted fd"]) (auto simp: server_step_def batch_inv_def fine_def split: list.splits)
  next
    case Internal
    with Cons b assms(2) show ?thesis
      by (intro exI [of _ "Ready []"]) (auto simp: server_step_def batch_inv_def fine_def)
  next
    case (Client fd)
    with Cons b assms(2) show ?thesis
      by (intro exI [of _ "Served False 0"]) (auto simp: server_step_def batch_inv_def fine_def split: prod.splits)
  qed
  with assms(3) show ?thesis by (auto simp: server_alone_def)
qed

lemma asleep_heard:
  assumes "loop_inv s" "asleep s"
  shows "backlog s = [] \<and> counter s = 0 \<and>
    (\<forall>fd c. conns s fd = Some c \<longrightarrow> unread c = [] \<and> heard c = received c \<and> peer c \<noteq> Gone)"
proof -
  from assms(2) have none: "\<not> is_ready s e" "batch s = []" "proc s = Running" for e by (auto simp: asleep_def)
  from none(1) [of Listener] none(1) [of Internal] have "backlog s = []" "counter s = 0"
    by (auto simp: is_ready_def)
  moreover have "unread c = [] \<and> heard c = received c \<and> peer c \<noteq> Gone" if "conns s fd = Some c" for fd c
  proof -
    have "\<not> due s fd" using none by (simp add: due_def)
    with assms(1) that none(3) have "unread c = []" "peer c \<noteq> Gone" "conn_inv c" by (auto simp: loop_inv_def)
    then show ?thesis by (simp add: conn_inv_def)
  qed
  ultimately show ?thesis by blast
qed

lemma script_alone:
  "run_script server_step as s = Some t \<Longrightarrow> list_all fine as \<Longrightarrow> (server_alone ^^ length as) s t"
proof (induction as arbitrary: s)
  case (Cons a as)
  then obtain u where "server_step a s = Some u" "run_script server_step as u = Some t" by (auto simp: bind_eq_Some_conv)
  moreover from this Cons have "(server_alone ^^ length as) u t" by simp
  ultimately have "server_alone s u" "(server_alone ^^ length as) u t" using Cons.prems(2) by (auto simp: server_alone_def)
  then have "(server_alone ^^ Suc (length as)) s t" by (rule relpowp_Suc_I2)
  then show ?case by simp
qed simp

text \<open>A failing \<open>accept4\<close>, as for want of descriptors, turns the loop without end.\<close>

lemma accept_spin:
  assumes "proc s = Running" "batch s = []" "backlog s \<noteq> []"
  shows "run_script server_step [Ready [Listener], Accept_failed] s = Some (print [Accept_error] s)"
  using assms by (cases "backlog s") (simp_all add: server_step_def report_def is_ready_def print_def)

subsection \<open>Properties\<close>

text \<open>
  C24. Left to itself the server comes to rest: from every state it reaches among its clients, its loop
  makes at most \<open>turns_left\<close> further turns as long as its system calls succeed, whatever order
  \<open>epoll_wait\<close> reports events in; and it stops only where a message overran the buffer, an echo met a
  closed socket, or in \<open>epoll_wait\<close> with all it was sent heard, all clients accepted, the eventfd
  read and every client that is gone closed.
\<close>

theorem epoll_drains:
  assumes "loop_step\<^sup>*\<^sup>* loop_start s" "(server_alone ^^ n) s t"
  shows "n \<le> turns_left s \<and>
    ((\<forall>u. \<not> server_alone t u) \<and> proc t = Running \<longrightarrow> asleep t \<and> backlog t = [] \<and> counter t = 0 \<and>
      (\<forall>fd c. conns t fd = Some c \<longrightarrow> unread c = [] \<and> heard c = received c \<and> peer c \<noteq> Gone))"
proof -
  from assms(1) have "loop_inv s" using loop_run.inv_run by blast
  from server_alone_bound [OF assms(2) this] have b: "n \<le> turns_left s" and inv: "loop_inv t" by auto
  with server_alone_stuck [OF inv] asleep_heard [OF inv] show ?thesis by blast
qed

text \<open>A client in the backlog that has sent \<open>hi\<close>: four turns, and the server sleeps.\<close>

theorem epoll_drains_witness:
  "\<exists>s t c. loop_step\<^sup>*\<^sup>* loop_start s \<and> (server_alone ^^ 4) s t \<and> 4 \<le> turns_left s \<and> asleep t \<and>
     conns t 5 = Some c \<and> heard c = ''hi'' \<and> unread c = []"
proof -
  let ?c = "peer_sends ''hi'' new_conn"
  let ?s = "loop_start\<lparr>backlog := [?c]\<rparr>"
  have "loop_step loop_start (loop_start\<lparr>backlog := [new_conn]\<rparr>)"
    using loop_step.connect [of loop_start] by (simp add: loop_start_def)
  moreover have "loop_step (loop_start\<lparr>backlog := [new_conn]\<rparr>) ?s"
    using loop_step.early_send [of "loop_start\<lparr>backlog := [new_conn]\<rparr>" 0 "''hi''"]
    by (simp add: loop_start_def new_conn_def)
  ultimately have r: "loop_step\<^sup>*\<^sup>* loop_start ?s" by (meson converse_rtranclp_into_rtranclp rtranclp.rtrancl_refl)
  let ?as = "[Ready [Listener], Accepted 5, Ready [Client 5], Served False 2]"
  let ?d = "\<lparr>unread = [], peer = Connected, edge = False, received = ''hi'', heard = ''hi'', echoed = ''hi''\<rparr>"
  obtain t where t: "run_script server_step ?as ?s = Some t" "conns t = [5 \<mapsto> ?d]" "backlog t = []" "batch t = []"
    "counter t = 0" "proc t = Running"
    by (simp add: run_loop_simps fun_eq_iff)
  have "list_all fine ?as" "length ?as = 4" by (simp_all add: fine_def)
  with script_alone [OF t(1)] have n: "(server_alone ^^ 4) ?s t" by metis
  have "\<not> is_ready t e" for e using t by (cases e) (auto simp: is_ready_def)
  then have "\<not> server_alone t u" for u
    using t by (auto simp: server_alone_def server_step_def split: answer.splits if_splits)
      (auto simp: fine_def list_all_iff)
  with epoll_drains [OF r n] t(6) have "4 \<le> turns_left ?s" "asleep t" by auto
  with r n t(2) show ?thesis by (intro exI [of _ ?s] exI [of _ t] exI [of _ ?d]) auto
qed

text \<open>
  With \<open>accept4\<close> failing while a client waits in the backlog, the level-triggered listening socket is
  reported again at once: after any number of rounds the server stands where it stood, with as many
  error lines more.
\<close>

theorem epoll_accept_spins:
  assumes "proc s = Running" "batch s = []" "backlog s \<noteq> []"
  shows "run_script server_step (concat (replicate k [Ready [Listener], Accept_failed])) s =
    Some (print (replicate k Accept_error) s)"
proof -
  show ?thesis
    using assms
  proof (induction k arbitrary: s)
    case (Suc k)
    have "print (replicate k Accept_error) (print [Accept_error] s) = print (replicate (Suc k) Accept_error) s"
      by (simp add: print_def)
    moreover have "run_script server_step (concat (replicate k [Ready [Listener], Accept_failed])) (print [Accept_error] s) =
        Some (print (replicate k Accept_error) (print [Accept_error] s))"
      by (rule Suc.IH) (use Suc.prems in simp_all)
    ultimately show ?case
      unfolding replicate_Suc concat.simps run_script_append accept_spin [OF Suc.prems] by simp
  qed (simp add: print_def)
qed

theorem epoll_accept_spins_witness:
  "run_script server_step (concat (replicate 1000 [Ready [Listener], Accept_failed])) (loop_start\<lparr>backlog := [new_conn]\<rparr>) =
     Some (print (replicate 1000 Accept_error) (loop_start\<lparr>backlog := [new_conn]\<rparr>))"
  by (rule epoll_accept_spins) (simp_all add: loop_start_def)

end
