(* ===== verification/ResmgrNet.thy ===== *)
theory ResmgrNet
  imports ResmgrServer "HOL-Library.Sublist"
begin

section \<open>The resource manager statement by statement, with its lock and its sockets (resmgr.c)\<close>

text \<open>
  Theory \<open>ResmgrServer\<close> takes a command as one step. Here the client threads run statement by
  statement: each waits for \<open>dev.lock\<close>, a \<open>WRITE\<close> copies its bytes and only then changes the size, and
  a \<open>READ\<close> hands out the device buffer piece by piece, since the socket to the client holds only \<open>K\<close>
  bytes and \<open>write\<close> blocks until the client has read. What keeps the commands atomic is the lock; that
  it does is the refinement at the end. The same model shows what the lock costs: \<open>READ\<close> writes to its
  client while it holds it. A \<open>write\<close> to a client that has left raises \<open>SIGPIPE\<close>, which the
  program leaves at its default.
\<close>

subsection \<open>State\<close>

text \<open>The point a client thread has reached; the string is the received chunk or what is still to be written.\<close>

datatype tpc =
    MarkLock | MarkHeld            \<comment> \<open>the first critical section of \<open>client_thread\<close>\<close>
  | Receiving | Got string         \<comment> \<open>at \<open>recv\<close>, at the start of \<open>handle_command\<close>\<close>
  | Holding string                 \<comment> \<open>behind \<open>pthread_mutex_lock\<close>\<close>
  | Copying string u64             \<comment> \<open>at the \<open>memcpy\<close> of a \<open>WRITE\<close>\<close>
  | Sizing string u64              \<comment> \<open>at \<open>dev.size += len\<close>\<close>
  | HeldCopy nat nat               \<comment> \<open>\<open>write\<close> of the device buffer under the lock: bytes written, bytes in all\<close>
  | HeldLit string                 \<comment> \<open>\<open>write\<close> of a literal under the lock\<close>
  | Unlock string | Writing string
  | DropLock | DropHeld            \<comment> \<open>the last critical section\<close>
  | Closing

record link =
  tpc :: tpc
  inbox :: string      \<comment> \<open>sent by the client and not yet received\<close>
  outbox :: string     \<comment> \<open>written and not yet read by the client\<close>
  here :: bool         \<comment> \<open>the client has its socket open\<close>
  seen :: string       \<comment> \<open>what the client has read\<close>
  since :: nat         \<comment> \<open>length of the log when it connected\<close>
  sends :: "string list"   \<comment> \<open>what the client has sent, call by call\<close>
  asked :: "string list"   \<comment> \<open>what the thread has received, chunk by chunk\<close>

record net =
  ndev :: device
  nlock :: "nat option"
  links :: "nat \<Rightarrow> link option"
  nlog :: "(nat \<times> string) list"   \<comment> \<open>the answers in the order of their commands\<close>
  alive :: bool

definition new_link :: "nat \<Rightarrow> link" where
  "new_link n = \<lparr>tpc = MarkLock, inbox = [], outbox = [], here = True, seen = [], since = n,
     sends = [], asked = []\<rparr>"

definition net_start :: net where
  "net_start = \<lparr>ndev = dev_initial, nlock = None, links = Map.empty, nlog = [], alive = True\<rparr>"

subsection \<open>The threads\<close>

definition is_read :: "string \<Rightarrow> bool" where "is_read cmd \<longleftrightarrow> strncmp_eq cmd ''READ'' 4"
definition is_write :: "string \<Rightarrow> bool" where "is_write cmd \<longleftrightarrow> strncmp_eq cmd ''WRITE '' 6"

text \<open>The commands that take the lock: all that are known.\<close>

definition locks :: "string \<Rightarrow> bool" where
  "locks cmd \<longleftrightarrow> is_read cmd \<or> is_write cmd \<or> strcmp_eq cmd (''INFO'' @ [LF]) \<or>
     strcmp_eq cmd (''CLEAR'' @ [LF]) \<or> strncmp_eq cmd ''SETPERM '' 8"

definition ok_reply :: "u64 \<Rightarrow> string" where
  "ok_reply len = snprintf 1024 (''OK, '' @ show_nat (unat len) @ '' bytes written'' @ [LF])"

definition set_pc :: "nat \<Rightarrow> link \<Rightarrow> tpc \<Rightarrow> net \<Rightarrow> net" where
  "set_pc fd l p s = s\<lparr>links := (links s)(fd \<mapsto> l\<lparr>tpc := p\<rparr>)\<rparr>"

definition logged :: "nat \<Rightarrow> string \<Rightarrow> net \<Rightarrow> net" where
  "logged fd r s = s\<lparr>nlog := nlog s @ [(fd, r)]\<rparr>"

text \<open>\<open>pthread_mutex_lock\<close>, and \<open>write\<close> of the bytes \<open>r\<close>: \<open>next n\<close> is where the thread stands once \<open>n\<close>
  more are written.\<close>

definition lock_step :: "nat \<Rightarrow> link \<Rightarrow> tpc \<Rightarrow> net \<Rightarrow> net option" where
  "lock_step fd l p s = (if nlock s = None then Some (set_pc fd l p (s\<lparr>nlock := Some fd\<rparr>)) else None)"

definition write_step :: "nat \<Rightarrow> nat \<Rightarrow> link \<Rightarrow> string \<Rightarrow> (nat \<Rightarrow> tpc) \<Rightarrow> net \<Rightarrow> net option" where
  "write_step K fd l r next s =
     (if \<not> here l then Some (s\<lparr>alive := False\<rparr>)
      else let n = min (length r) (K - length (outbox l))
           in if n = 0 then None
              else Some (set_pc fd (l\<lparr>outbox := outbox l @ take n r\<rparr>) (next n) s))"

text \<open>\<open>handle_command\<close> behind its lock, up to the next statement that another thread could come between.\<close>

definition command_step :: "nat \<Rightarrow> link \<Rightarrow> string \<Rightarrow> net \<Rightarrow> net option" where
  "command_step fd l c s =
     (let cmd = chunk_text c; d = ndev s
      in if is_write cmd \<and> dpermissions d \<noteq> PERM_RO
         then Some (set_pc fd l (Copying c (write_len (drop 6 cmd) d)) s)
         else (case handle_chunk c d of None \<Rightarrow> None | Some (r, d') \<Rightarrow>
           Some (set_pc fd l
             (if is_read cmd \<and> dpermissions d \<noteq> PERM_WO
              then (if dsize d > 0 then HeldCopy 0 (unat (dsize d)) else HeldLit r) else Unlock r)
             (logged fd r (s\<lparr>ndev := d'\<rparr>)))))"

text \<open>\<^const>\<open>None\<close>: the thread waits (for the lock, its client's bytes, or room in the socket), is gone, or
  would access memory out of bounds.\<close>

definition thread_step :: "nat \<Rightarrow> nat \<Rightarrow> net \<Rightarrow> net option" where
  "thread_step K fd s = (if \<not> alive s then None else case links s fd of None \<Rightarrow> None | Some l \<Rightarrow>
     (case tpc l of
        MarkLock \<Rightarrow> lock_step fd l MarkHeld s
      | MarkHeld \<Rightarrow> Some (set_pc fd l Receiving (s\<lparr>ndev := mark_busy (ndev s), nlock := None\<rparr>))
      | Receiving \<Rightarrow>
          if inbox l \<noteq> [] then (let c = take 1023 (inbox l)
            in Some (set_pc fd (l\<lparr>inbox := drop 1023 (inbox l), asked := asked l @ [c]\<rparr>) (Got c) s))
          else if here l then None else Some (set_pc fd l DropLock s)
      | Got c \<Rightarrow>
          if locks (chunk_text c) then lock_step fd l (Holding c) s
          else (case handle_chunk c (ndev s) of None \<Rightarrow> None | Some (r, d) \<Rightarrow> Some (set_pc fd l (Writing r) (logged fd r s)))
      | Holding c \<Rightarrow> command_step fd l c s
      | Copying c len \<Rightarrow>
          (case memcpy_at (dbuffer (ndev s)) (unat (dsize (ndev s))) (drop 6 (chunk_text c)) (unat len) of
             None \<Rightarrow> None
           | Some buf \<Rightarrow> Some (set_pc fd l (Sizing c len) (s\<lparr>ndev := (ndev s)\<lparr>dbuffer := buf\<rparr>\<rparr>)))
      | Sizing c len \<Rightarrow>
          Some (set_pc fd l (Unlock (ok_reply len)) (logged fd (ok_reply len)
            (s\<lparr>ndev := (ndev s)\<lparr>dsize := dsize (ndev s) + len\<rparr>\<rparr>)))
      | HeldCopy off n \<Rightarrow>
          if off = n then Some (set_pc fd l (Unlock []) s)
          else if length (dbuffer (ndev s)) < n then None
          else write_step K fd l (drop off (take n (dbuffer (ndev s)))) (\<lambda>k. HeldCopy (off + k) n) s
      | HeldLit r \<Rightarrow> if r = [] then Some (set_pc fd l (Unlock []) s) else write_step K fd l r (\<lambda>k. HeldLit (drop k r)) s
      | Unlock r \<Rightarrow> Some (set_pc fd l (Writing r) (s\<lparr>nlock := None\<rparr>))
      | Writing r \<Rightarrow> if r = [] then Some (set_pc fd l Receiving s) else write_step K fd l r (\<lambda>k. Writing (drop k r)) s
      | DropLock \<Rightarrow> lock_step fd l DropHeld s
      | DropHeld \<Rightarrow> Some (set_pc fd l Closing (s\<lparr>ndev := clear_busy (ndev s), nlock := None\<rparr>))
      | Closing \<Rightarrow> Some (s\<lparr>links := (links s)(fd := None)\<rparr>)))"

text \<open>
  The threads with main, which accepts, the clients, which send, read and leave as they like, and the
  signals with a handler, which ends the process (\<open>on_signal\<close>).
\<close>

inductive net_step :: "nat \<Rightarrow> net \<Rightarrow> net \<Rightarrow> bool" for K where
  thread: "thread_step K fd s = Some t \<Longrightarrow> net_step K s t"
| accept: "alive s \<Longrightarrow> links s fd = None \<Longrightarrow> net_step K s (s\<lparr>links := (links s)(fd \<mapsto> new_link (length (nlog s)))\<rparr>)"
| client_sends: "alive s \<Longrightarrow> links s fd = Some l \<Longrightarrow> here l \<Longrightarrow> bs \<noteq> [] \<Longrightarrow>
     net_step K s (s\<lparr>links := (links s)(fd \<mapsto> l\<lparr>inbox := inbox l @ bs, sends := sends l @ [bs]\<rparr>)\<rparr>)"
| client_reads: "alive s \<Longrightarrow> links s fd = Some l \<Longrightarrow> here l \<Longrightarrow> 0 < n \<Longrightarrow> n \<le> length (outbox l) \<Longrightarrow>
     net_step K s (s\<lparr>links := (links s)(fd \<mapsto> l\<lparr>outbox := drop n (outbox l), seen := seen l @ take n (outbox l)\<rparr>)\<rparr>)"
| client_leaves: "alive s \<Longrightarrow> links s fd = Some l \<Longrightarrow> here l \<Longrightarrow>
     net_step K s (s\<lparr>links := (links s)(fd \<mapsto> l\<lparr>here := False\<rparr>)\<rparr>)"
| signal: "alive s \<Longrightarrow> install_signals (\<lambda>_. Default) sig = Handler on_signal \<Longrightarrow> net_step K s (s\<lparr>alive := False\<rparr>)"

subsection \<open>What the lock protects\<close>

primrec holds :: "tpc \<Rightarrow> bool" where
  "holds MarkLock = False" | "holds MarkHeld = True" | "holds Receiving = False" | "holds (Got c) = False"
| "holds (Holding c) = True" | "holds (Copying c n) = True" | "holds (Sizing c n) = True"
| "holds (HeldCopy m n) = True" | "holds (HeldLit r) = True" | "holds (Unlock r) = True"
| "holds (Writing r) = False" | "holds DropLock = False" | "holds DropHeld = True" | "holds Closing = False"

text \<open>The chunk a thread has received and not yet answered.\<close>

fun pending :: "tpc \<Rightarrow> string list" where
  "pending (Got c) = [c]"
| "pending (Holding c) = [c]"
| "pending (Copying c len) = [c]"
| "pending (Sizing c len) = [c]"
| "pending p = []"

text \<open>What of the last answer is not yet in the socket.\<close>

fun rest :: "device \<Rightarrow> tpc \<Rightarrow> string" where
  "rest d (HeldCopy off n) = drop off (take n (dbuffer d))"
| "rest d (HeldLit r) = r"
| "rest d (Unlock r) = r"
| "rest d (Writing r) = r"
| "rest d p = []"

definition sizing :: "device \<Rightarrow> string \<Rightarrow> u64 \<Rightarrow> bool" where
  "sizing d c len \<longleftrightarrow> (\<exists>b. dev_inv (d\<lparr>dbuffer := b\<rparr>) \<and> abs_dev (d\<lparr>dbuffer := b\<rparr>) = abs_dev d \<and>
     handle_chunk c (d\<lparr>dbuffer := b\<rparr>) = Some (ok_reply len, d\<lparr>dsize := dsize d + len\<rparr>))"

text \<open>What a thread relies on at each point while the lock keeps the others away.\<close>

fun relies :: "device \<Rightarrow> tpc \<Rightarrow> bool" where
  "relies d (Got c) = chunk_ok c"
| "relies d (Holding c) = (chunk_ok c \<and> locks (chunk_text c))"
| "relies d (Copying c len) = (chunk_ok c \<and> is_write (chunk_text c) \<and> dpermissions d \<noteq> PERM_RO \<and>
     len = write_len (drop 6 (chunk_text c)) d)"
| "relies d (Sizing c len) = (chunk_ok c \<and> sizing d c len)"
| "relies d (HeldCopy off n) = (off \<le> n \<and> n = unat (dsize d))"
| "relies d p = True"

definition replies_to :: "nat \<Rightarrow> (nat \<times> string) list \<Rightarrow> string" where
  "replies_to fd lg = concat (map snd (filter (\<lambda>(f, r). f = fd) lg))"

definition link_inv :: "nat \<Rightarrow> device \<Rightarrow> (nat \<times> string) list \<Rightarrow> nat \<Rightarrow> link \<Rightarrow> bool" where
  "link_inv K d lg fd l \<longleftrightarrow> relies d (tpc l) \<and> length (outbox l) \<le> K \<and> since l \<le> length lg \<and>
     seen l @ outbox l @ rest d (tpc l) = replies_to fd (drop (since l) lg)"

definition net_inv :: "nat \<Rightarrow> net \<Rightarrow> bool" where
  "net_inv K s \<longleftrightarrow> dev_inv (ndev s) \<and>
     (\<forall>fd. nlock s = Some fd \<longrightarrow> (\<exists>l. links s fd = Some l \<and> holds (tpc l))) \<and>
     (\<forall>fd l. links s fd = Some l \<longrightarrow> (holds (tpc l) \<longrightarrow> nlock s = Some fd) \<and> link_inv K (ndev s) (nlog s) fd l)"

lemma net_simps [simp]:
  "ndev (set_pc fd l p s) = ndev s" "nlock (set_pc fd l p s) = nlock s" "nlog (set_pc fd l p s) = nlog s"
  "alive (set_pc fd l p s) = alive s" "links (set_pc fd l p s) = (links s)(fd \<mapsto> l\<lparr>tpc := p\<rparr>)"
  "ndev (logged fd r s) = ndev s" "nlock (logged fd r s) = nlock s" "nlog (logged fd r s) = nlog s @ [(fd, r)]"
  "alive (logged fd r s) = alive s" "links (logged fd r s) = links s"
  by (simp_all add: set_pc_def logged_def)

lemma replies_to_snoc [simp]:
  "replies_to fd (lg @ [(f, r)]) = replies_to fd lg @ (if f = fd then r else [])" "replies_to fd [] = []"
  by (simp_all add: replies_to_def)

text \<open>Without the lock a thread relies on nothing of the device.\<close>

lemma free_device: "\<not> holds p \<Longrightarrow> relies d p = relies d' p \<and> rest d p = rest d' p"
  by (cases p) auto

lemma link_inv_other:
  "link_inv K d lg fd l \<Longrightarrow> \<not> holds (tpc l) \<or> d' = d \<Longrightarrow> lg' = lg \<or> f \<noteq> fd \<and> lg' = lg @ [(f, r)] \<Longrightarrow>
   link_inv K d' lg' fd l"
  using free_device [of "tpc l" d d'] by (auto simp: link_inv_def)

text \<open>A step of thread \<open>fd\<close>: what has to be shown of its own connection and of the lock.\<close>

lemma net_inv_thread:
  assumes "net_inv K s" "links t = (links s)(fd \<mapsto> l')" "dev_inv (ndev t)"
    and "link_inv K (ndev t) (nlog t) fd l'"
    and lg: "nlog t = nlog s \<or> (\<exists>r. nlog t = nlog s @ [(fd, r)])"
    and dev: "ndev t = ndev s \<or> nlock s = Some fd"
    and own: "holds (tpc l') \<longleftrightarrow> nlock t = Some fd"
    and lock: "nlock t = nlock s \<or> nlock s = None \<and> nlock t = Some fd \<or> nlock s = Some fd \<and> nlock t = None"
  shows "net_inv K t"
proof -
  have "(holds (tpc m) \<longrightarrow> nlock t = Some g) \<and> link_inv K (ndev t) (nlog t) g m" if g: "links t g = Some m" for g m
  proof (cases "g = fd")
    case True
    with g assms(2,4) own show ?thesis by auto
  next
    case False
    with g assms(2) have "links s g = Some m" by simp
    with assms(1) have m: "holds (tpc m) \<longrightarrow> nlock s = Some g" "link_inv K (ndev s) (nlog s) g m"
      by (auto simp: net_inv_def)
    have "link_inv K (ndev t) (nlog t) g m"
      using link_inv_other [OF m(2), of "ndev t" "nlog t" fd] lg dev m(1) False by auto
    with m(1) lock False show ?thesis by auto
  qed
  moreover have "\<exists>m. links t g = Some m \<and> holds (tpc m)" if g: "nlock t = Some g" for g
  proof (cases "g = fd")
    case True
    with g own assms(2) show ?thesis by auto
  next
    case False
    with g lock have "nlock s = Some g" by auto
    with assms(1,2) False show ?thesis by (auto simp: net_inv_def)
  qed
  ultimately show ?thesis using assms(3) by (simp add: net_inv_def)
qed

lemma net_invD:
  assumes "net_inv K s" "links s fd = Some l"
  shows "link_inv K (ndev s) (nlog s) fd l" "dev_inv (ndev s)" "holds (tpc l) \<longleftrightarrow> nlock s = Some fd"
proof -
  show "link_inv K (ndev s) (nlog s) fd l" "dev_inv (ndev s)" using assms by (simp_all add: net_inv_def)
  show "holds (tpc l) \<longleftrightarrow> nlock s = Some fd"
    using assms unfolding net_inv_def by (metis option.inject)
qed

text \<open>The kinds of steps: waiting for the lock, letting it go, writing to the client, a local move.\<close>

lemma lock_step_inv:
  assumes "net_inv K s" "links s fd = Some l" "lock_step fd l p s = Some t" "holds p"
    and "relies (ndev s) p" "rest (ndev s) p = rest (ndev s) (tpc l)"
  shows "net_inv K t"
proof (rule net_inv_thread [OF assms(1), of t fd "l\<lparr>tpc := p\<rparr>"])
  note net_invD(1,2) [OF assms(1,2)]
  with assms(3,5,6) show "link_inv K (ndev t) (nlog t) fd (l\<lparr>tpc := p\<rparr>)" "dev_inv (ndev t)"
    by (auto simp: lock_step_def link_inv_def split: if_splits)
qed (use assms(3,4) in \<open>auto simp: lock_step_def split: if_splits\<close>)

lemma unlock_inv:
  assumes "net_inv K s" "links s fd = Some l" "holds (tpc l)" "\<not> holds p" "dev_inv d"
    and "relies d p" "rest d p = rest (ndev s) (tpc l)"
  shows "net_inv K (set_pc fd l p (s\<lparr>ndev := d, nlock := None\<rparr>))"
proof -
  have l: "nlock s = Some fd" "link_inv K (ndev s) (nlog s) fd l" using net_invD [OF assms(1,2)] assms(3) by simp_all
  have "link_inv K d (nlog s) fd (l\<lparr>tpc := p\<rparr>)" using l(2) assms(6,7) by (simp add: link_inv_def)
  with l(1) assms(4,5) show ?thesis by (intro net_inv_thread [OF assms(1), of _ fd "l\<lparr>tpc := p\<rparr>"]) simp_all
qed

lemma write_step_inv:
  assumes "net_inv K s" "links s fd = Some l" "write_step K fd l r next s = Some t"
    and "r = rest (ndev s) (tpc l)" "\<And>n. n \<le> length r \<Longrightarrow> relies (ndev s) (next n) \<and> rest (ndev s) (next n) = drop n r"
    and "\<And>n. holds (next n) = holds (tpc l)"
  shows "net_inv K t"
proof (cases "here l")
  case True
  define n where "n = min (length r) (K - length (outbox l))"
  let ?l = "l\<lparr>outbox := outbox l @ take n r, tpc := next n\<rparr>"
  have t: "t = set_pc fd (l\<lparr>outbox := outbox l @ take n r\<rparr>) (next n) s"
    using assms(3) True by (auto simp: write_step_def Let_def n_def split: if_splits)
  have l: "link_inv K (ndev s) (nlog s) fd l" "dev_inv (ndev s)" "holds (tpc l) \<longleftrightarrow> nlock s = Some fd"
    using net_invD [OF assms(1,2)] by simp_all
  have "n \<le> length r" "length (outbox l) + n \<le> K" using l(1) by (auto simp: n_def link_inv_def)
  with l(1) assms(4) assms(5) [of n] have "link_inv K (ndev s) (nlog s) fd ?l"
    by (auto simp: link_inv_def)
  with l(2,3) t assms(6) show ?thesis by (intro net_inv_thread [OF assms(1), of t fd ?l]) auto
qed (use assms(1,3) in \<open>auto simp: write_step_def net_inv_def\<close>)

lemma local_inv:
  assumes "net_inv K s" "links s fd = Some l" "holds p = holds (tpc l)"
    and "relies (ndev s) p" "rest (ndev s) p = rest (ndev s) (tpc l)" "outbox l' = outbox l" "seen l' = seen l" "since l' = since l"
  shows "net_inv K (set_pc fd l' p s)"
proof -
  note l = net_invD [OF assms(1,2)]
  have "link_inv K (ndev s) (nlog s) fd (l'\<lparr>tpc := p\<rparr>)"
    using l(1) assms(4-8) by (simp add: link_inv_def)
  with l(2,3) assms(3) show ?thesis
    by (intro net_inv_thread [OF assms(1), of _ fd "l'\<lparr>tpc := p\<rparr>"]) simp_all
qed

lemma logged_inv:
  assumes "net_inv K s" "links s fd = Some l" "holds p = holds (tpc l)" "rest (ndev s) (tpc l) = []"
    and "dev_inv d" "d = ndev s \<or> holds (tpc l)" "relies d p" "rest d p = r"
  shows "net_inv K (set_pc fd l p (logged fd r (s\<lparr>ndev := d\<rparr>)))"
proof -
  note l = net_invD [OF assms(1,2)]
  have "link_inv K d (nlog s @ [(fd, r)]) fd (l\<lparr>tpc := p\<rparr>)"
    using l(1) assms(4,7,8) by (simp add: link_inv_def)
  with l(2,3) assms(3,5,6) show ?thesis
    by (intro net_inv_thread [OF assms(1), of _ fd "l\<lparr>tpc := p\<rparr>"]) auto
qed

subsection \<open>Every statement keeps it\<close>

lemma take_memcpy_before: "memcpy_at d off s n = Some d' \<Longrightarrow> take off d' = take off d"
  by (auto simp: memcpy_at_def split: if_splits)

text \<open>A \<open>WRITE\<close> is its copy and its change of the size.\<close>

lemma write_split:
  assumes "dev_inv d" "chunk_ok c" "is_write (chunk_text c)" "dpermissions d \<noteq> PERM_RO"
  shows "\<exists>buf. memcpy_at (dbuffer d) (unat (dsize d)) (drop 6 (chunk_text c)) (unat (write_len (drop 6 (chunk_text c)) d)) = Some buf \<and>
    handle_chunk c d = Some (ok_reply (write_len (drop 6 (chunk_text c)) d),
      d\<lparr>dbuffer := buf, dsize := dsize d + write_len (drop 6 (chunk_text c)) d\<rparr>)"
proof -
  have "take 4 (chunk_text c) = take 4 (take 6 (chunk_text c))" by simp
  also have "\<dots> = ''WRIT''" using assms(3) by (simp add: is_write_def strncmp_eq_def)
  finally have "take 4 (chunk_text c) = ''WRIT''" .
  then have "handle_chunk c d = cmd_write (chunk_text c) d"
    using assms(3) by (simp add: handle_chunk_def handle_command_def is_write_def strncmp_eq_def)
  moreover have "handle_chunk c d \<noteq> None" using resmgr.handle_total [OF assms(1,2)] .
  ultimately show ?thesis
    using assms(4)
    by (cases "memcpy_at (dbuffer d) (unat (dsize d)) (drop 6 (chunk_text c)) (unat (write_len (drop 6 (chunk_text c)) d))")
      (simp_all add: cmd_write_def Let_def ok_reply_def)
qed

lemma copying_sizes:
  assumes "dev_inv d" "relies d (Copying c len)"
  shows "\<exists>buf. memcpy_at (dbuffer d) (unat (dsize d)) (drop 6 (chunk_text c)) (unat len) = Some buf \<and>
    dev_inv (d\<lparr>dbuffer := buf\<rparr>) \<and> abs_dev (d\<lparr>dbuffer := buf\<rparr>) = abs_dev d \<and> relies (d\<lparr>dbuffer := buf\<rparr>) (Sizing c len)"
proof -
  have c: "chunk_ok c" "is_write (chunk_text c)" "dpermissions d \<noteq> PERM_RO"
    and len: "write_len (drop 6 (chunk_text c)) d = len" using assms(2) by auto
  from write_split [OF assms(1) c, unfolded len] obtain buf where
    b: "memcpy_at (dbuffer d) (unat (dsize d)) (drop 6 (chunk_text c)) (unat len) = Some buf"
    "handle_chunk c d = Some (ok_reply len, d\<lparr>dbuffer := buf, dsize := dsize d + len\<rparr>)" by blast
  let ?d = "d\<lparr>dbuffer := buf\<rparr>"
  have "dev_inv ?d" using assms(1) length_memcpy_at [OF b(1)] by (simp add: dev_inv_def)
  moreover have eq: "abs_dev ?d = abs_dev d" using take_memcpy_before [OF b(1)] by (simp add: abs_dev_def)
  moreover have "sizing ?d c len"
    unfolding sizing_def by (rule exI [of _ "dbuffer d"]) (use assms(1) b(2) eq in simp)
  ultimately show ?thesis using b(1) assms(2) by auto
qed

lemma sizing_done:
  assumes "relies d (Sizing c len)"
  shows "dev_inv (d\<lparr>dsize := dsize d + len\<rparr>) \<and>
    exec_chunk c (abs_dev d) = (ok_reply len, abs_dev (d\<lparr>dsize := dsize d + len\<rparr>))"
proof -
  from assms obtain b where b: "dev_inv (d\<lparr>dbuffer := b\<rparr>)" "abs_dev (d\<lparr>dbuffer := b\<rparr>) = abs_dev d"
    "handle_chunk c (d\<lparr>dbuffer := b\<rparr>) = Some (ok_reply len, d\<lparr>dsize := dsize d + len\<rparr>)" "chunk_ok c"
    by (auto simp: sizing_def)
  from resmgr.handle_step [OF b(1,4,3)] b(2) show ?thesis by simp
qed

text \<open>A \<open>READ\<close> that is not refused answers the stored text, or that there is none.\<close>

lemma read_answer:
  assumes "dev_inv d" "is_read (chunk_text c)" "dpermissions d \<noteq> PERM_WO" "handle_chunk c d = Some (r, d')"
  shows "d' = d \<and> (dsize d > 0 \<longrightarrow> r = take (unat (dsize d)) (dbuffer d))"
  using assms by (auto simp: handle_chunk_def handle_command_def is_read_def cmd_read_def write_arr_def bind_eq_Some_conv split: if_splits)

lemma chunk_ok_take: "xs \<noteq> [] \<Longrightarrow> chunk_ok (take 1023 xs)"
  by (simp add: chunk_ok_def)

lemma unknown_answer:
  "\<not> locks (chunk_text c) \<Longrightarrow> handle_chunk c d = Some (r, d') \<Longrightarrow> d' = d"
  by (auto simp: handle_chunk_def handle_command_def locks_def is_read_def is_write_def bind_eq_Some_conv split: if_splits)

text \<open>A command under the lock: where the thread goes, and what it answers.\<close>

lemma command_step_cases:
  assumes "command_step fd l c s = Some t" "dev_inv (ndev s)" "chunk_ok c"
  obtains
    (copying) "t = set_pc fd l (Copying c (write_len (drop 6 (chunk_text c)) (ndev s))) s"
      "is_write (chunk_text c)" "dpermissions (ndev s) \<noteq> PERM_RO"
  | (answered) r d p where "t = set_pc fd l p (logged fd r (s\<lparr>ndev := d\<rparr>))" "dev_inv d"
      "exec_chunk c (abs_dev (ndev s)) = (r, abs_dev d)" "holds p" "p \<noteq> MarkHeld" "pending p = []"
      "relies d p" "rest d p = r"
proof (cases "is_write (chunk_text c) \<and> dpermissions (ndev s) \<noteq> PERM_RO")
  case True
  with assms(1) copying show ?thesis by (auto simp: command_step_def Let_def)
next
  case False
  then obtain r d where h: "handle_chunk c (ndev s) = Some (r, d)"
    using assms(1) by (auto simp: command_step_def Let_def split: option.splits)
  have ex: "dev_inv d" "exec_chunk c (abs_dev (ndev s)) = (r, abs_dev d)"
    using resmgr.handle_step [OF assms(2,3) h] by simp_all
  show ?thesis
  proof (cases "is_read (chunk_text c) \<and> dpermissions (ndev s) \<noteq> PERM_WO")
    case True
    with read_answer [OF assms(2) _ _ h] have r: "d = ndev s" "0 < dsize d \<Longrightarrow> r = take (unat (dsize d)) (dbuffer d)" by auto
    show ?thesis
      by (rule answered [OF _ ex, of "if dsize (ndev s) > 0 then HeldCopy 0 (unat (dsize (ndev s))) else HeldLit r"])
        (use True False h r assms(1) in \<open>auto simp: command_step_def Let_def\<close>)
  next
    case unread: False
    show ?thesis
      by (rule answered [OF _ ex, of "Unlock r"]) (use unread False h assms(1) in \<open>auto simp: command_step_def Let_def\<close>)
  qed
qed

lemma thread_step_inv:
  assumes inv: "net_inv K s" and st: "thread_step K fd s = Some t"
  shows "net_inv K t"
proof -
  obtain l where l: "links s fd = Some l" using st by (auto simp: thread_step_def split: if_splits option.splits)
  note i = net_invD [OF inv l]
  have r: "relies (ndev s) (tpc l)" using i(1) by (simp add: link_inv_def)
  note st = st [unfolded thread_step_def l]
  show ?thesis
  proof (cases "tpc l")
    case MarkLock
    with st show ?thesis by (auto intro: lock_step_inv [OF inv l] split: if_splits)
  next
    case MarkHeld
    have "dev_inv (mark_busy (ndev s))" using i(2) by (simp add: mark_busy_def)
    with MarkHeld st show ?thesis by (auto intro!: unlock_inv [OF inv l] split: if_splits)
  next
    case Receiving
    with st show ?thesis by (auto simp: Let_def intro!: local_inv [OF inv l] chunk_ok_take split: if_splits)
  next
    case (Got c)
    show ?thesis
    proof (cases "locks (chunk_text c)")
      case True
      with Got st r show ?thesis by (auto intro: lock_step_inv [OF inv l] split: if_splits)
    next
      case False
      with Got st obtain a d where h: "handle_chunk c (ndev s) = Some (a, d)" "t = set_pc fd l (Writing a) (logged fd a s)"
        by (auto split: if_splits option.splits)
      with logged_inv [OF inv l, of "Writing a" "ndev s" a] Got i(2) show ?thesis by simp
    qed
  next
    case (Holding c)
    with st have cs: "command_step fd l c s = Some t" by (simp split: if_splits)
    have "chunk_ok c" using r Holding by simp
    with cs i(2) show ?thesis
    proof (cases rule: command_step_cases)
      case copying
      with Holding r show ?thesis by (auto intro: local_inv [OF inv l])
    next
      case (answered a d p)
      with Holding show ?thesis by (auto intro!: logged_inv [OF inv l])
    qed
  next
    case (Copying c len)
    from copying_sizes [OF i(2)] r Copying obtain buf where
      b: "memcpy_at (dbuffer (ndev s)) (unat (dsize (ndev s))) (drop 6 (chunk_text c)) (unat len) = Some buf"
      "dev_inv ((ndev s)\<lparr>dbuffer := buf\<rparr>)" "relies ((ndev s)\<lparr>dbuffer := buf\<rparr>) (Sizing c len)" by auto
    with Copying st have t: "t = set_pc fd l (Sizing c len) (s\<lparr>ndev := (ndev s)\<lparr>dbuffer := buf\<rparr>\<rparr>)"
      by (simp split: if_splits)
    have "link_inv K ((ndev s)\<lparr>dbuffer := buf\<rparr>) (nlog s) fd (l\<lparr>tpc := Sizing c len\<rparr>)"
      using i(1) b(3) Copying by (simp add: link_inv_def)
    with i(3) b(2) Copying t show ?thesis
      by (intro net_inv_thread [OF inv, of t fd "l\<lparr>tpc := Sizing c len\<rparr>"]) simp_all
  next
    case (Sizing c len)
    with sizing_done r have "dev_inv ((ndev s)\<lparr>dsize := dsize (ndev s) + len\<rparr>)" by auto
    with Sizing st show ?thesis by (auto intro!: logged_inv [OF inv l] split: if_splits)
  next
    case (HeldCopy off n)
    show ?thesis
    proof (cases "off = n")
      case True
      with HeldCopy st r show ?thesis by (auto intro!: local_inv [OF inv l] split: if_splits)
    next
      case False
      with HeldCopy st r i(2) have "write_step K fd l (drop off (take n (dbuffer (ndev s)))) (\<lambda>k. HeldCopy (off + k) n) s = Some t"
        by (auto simp: dev_inv_def split: if_splits)
      from write_step_inv [OF inv l this] HeldCopy r show ?thesis by (auto simp: add.commute)
    qed
  next
    case (HeldLit a)
    with st show ?thesis
      by (cases "a = []") (auto intro!: local_inv [OF inv l] intro: write_step_inv [OF inv l] split: if_splits)
  next
    case (Unlock a)
    with st i(2) have "t = set_pc fd l (Writing a) (s\<lparr>ndev := ndev s, nlock := None\<rparr>)" by (auto split: if_splits)
    with unlock_inv [OF inv l _ _ i(2), of "Writing a"] Unlock show ?thesis by simp
  next
    case (Writing a)
    with st show ?thesis
      by (cases "a = []") (auto intro!: local_inv [OF inv l] intro: write_step_inv [OF inv l] split: if_splits)
  next
    case DropLock
    with st show ?thesis by (auto intro: lock_step_inv [OF inv l] split: if_splits)
  next
    case DropHeld
    have "dev_inv (clear_busy (ndev s))" using i(2) by (simp add: clear_busy_def)
    with DropHeld st show ?thesis by (auto intro!: unlock_inv [OF inv l] split: if_splits)
  next
    case Closing
    with st i(3) inv show ?thesis by (auto simp: net_inv_def split: if_splits)
  qed
qed

subsection \<open>The net refines the server whose commands are atomic\<close>

fun phase_of :: "tpc \<Rightarrow> phase" where
  "phase_of MarkLock = Accepted"
| "phase_of MarkHeld = Accepted"
| "phase_of Closing = Leaving"
| "phase_of p = Serving"

definition abs_net :: "net \<Rightarrow> aserver" where
  "abs_net s = \<lparr>adev = abs_dev (ndev s), aconns = (\<lambda>fd. map_option (\<lambda>l. phase_of (tpc l)) (links s fd)), areplies = nlog s\<rparr>"

lemma abs_same:
  "links s fd = Some l \<Longrightarrow> links t = (links s)(fd \<mapsto> l') \<Longrightarrow> phase_of (tpc l') = phase_of (tpc l) \<Longrightarrow>
   abs_dev (ndev t) = abs_dev (ndev s) \<Longrightarrow> nlog t = nlog s \<Longrightarrow> abs_net t = abs_net s"
  by (simp add: abs_net_def fun_eq_iff)

lemma abs_serve:
  assumes "links s fd = Some l" "phase_of (tpc l) = Serving" "phase_of p = Serving"
    and "exec_chunk c (abs_dev (ndev s)) = (r, abs_dev d)"
  shows "asrv_step (abs_net s) (abs_net (set_pc fd l p (logged fd r (s\<lparr>ndev := d\<rparr>))))"
proof -
  have "abs_net (set_pc fd l p (logged fd r (s\<lparr>ndev := d\<rparr>))) =
      (abs_net s)\<lparr>adev := abs_dev d, areplies := areplies (abs_net s) @ [(fd, r)]\<rparr>"
    using assms(1-3) by (simp add: abs_net_def fun_eq_iff)
  with asrv_step.a_serve [of "abs_net s" fd c r "abs_dev d"] assms show ?thesis by (simp add: abs_net_def)
qed

lemma phase_holding: "holds p \<Longrightarrow> p \<noteq> MarkHeld \<Longrightarrow> phase_of p = Serving"
  by (cases p) auto

lemma lock_step_abs:
  "links s fd = Some l \<Longrightarrow> lock_step fd l p s = Some t \<Longrightarrow> phase_of p = phase_of (tpc l) \<Longrightarrow> abs_net t = abs_net s"
  by (auto simp: lock_step_def intro!: abs_same split: if_splits)

lemma write_step_abs:
  "links s fd = Some l \<Longrightarrow> write_step K fd l r next s = Some t \<Longrightarrow> (\<And>n. phase_of (next n) = phase_of (tpc l)) \<Longrightarrow>
   abs_net t = abs_net s"
  by (auto simp: write_step_def Let_def abs_net_def intro!: abs_same split: if_splits)

lemma thread_step_sim:
  assumes inv: "net_inv K s" and st: "thread_step K fd s = Some t"
  shows "abs_net t = abs_net s \<or> asrv_step (abs_net s) (abs_net t)"
proof -
  obtain l where l: "links s fd = Some l" using st by (auto simp: thread_step_def split: if_splits option.splits)
  note i = net_invD [OF inv l]
  have r: "relies (ndev s) (tpc l)" using i(1) by (simp add: link_inv_def)
  note st = st [unfolded thread_step_def l]
  have conn: "aconns (abs_net s) fd = Some (phase_of (tpc l))" using l by (simp add: abs_net_def)
  show ?thesis
  proof (cases "tpc l")
    case MarkLock
    with st lock_step_abs [OF l] show ?thesis by (auto split: if_splits)
  next
    case MarkHeld
    with st have "abs_net t = (abs_net s)\<lparr>adev := (adev (abs_net s))\<lparr>aflags := aflags (adev (abs_net s)) OR 3\<rparr>,
        aconns := (aconns (abs_net s))(fd \<mapsto> Serving)\<rparr>"
      by (auto simp: abs_net_def abs_mark fun_eq_iff split: if_splits)
    with asrv_step.a_mark [of "abs_net s" fd] conn MarkHeld show ?thesis by simp
  next
    case Receiving
    with st show ?thesis by (auto simp: Let_def intro!: abs_same [OF l] split: if_splits)
  next
    case (Got c)
    show ?thesis
    proof (cases "locks (chunk_text c)")
      case True
      with Got st lock_step_abs [OF l] show ?thesis by (auto split: if_splits)
    next
      case False
      with Got st obtain a d where h: "handle_chunk c (ndev s) = Some (a, d)" "t = set_pc fd l (Writing a) (logged fd a s)"
        by (auto split: if_splits option.splits)
      moreover have "chunk_ok c" using Got r by simp
      ultimately have "exec_chunk c (abs_dev (ndev s)) = (a, abs_dev (ndev s))"
        using resmgr.handle_step [OF i(2)] unknown_answer [OF False] by blast
      with abs_serve [OF l, of "Writing a" c a "ndev s"] Got h(2) show ?thesis by simp
    qed
  next
    case (Holding c)
    with st have cs: "command_step fd l c s = Some t" by (simp split: if_splits)
    have "chunk_ok c" using r Holding by simp
    with cs i(2) show ?thesis
    proof (cases rule: command_step_cases)
      case copying
      with Holding show ?thesis by (auto intro!: abs_same [OF l])
    next
      case (answered a d p)
      then have "phase_of p = Serving" by (intro phase_holding)
      with abs_serve [OF l, of p c a d] answered Holding show ?thesis by simp
    qed
  next
    case (Copying c len)
    from copying_sizes [OF i(2)] r Copying obtain buf where
      b: "memcpy_at (dbuffer (ndev s)) (unat (dsize (ndev s))) (drop 6 (chunk_text c)) (unat len) = Some buf"
      "abs_dev ((ndev s)\<lparr>dbuffer := buf\<rparr>) = abs_dev (ndev s)" by auto
    with Copying st have "t = set_pc fd l (Sizing c len) (s\<lparr>ndev := (ndev s)\<lparr>dbuffer := buf\<rparr>\<rparr>)"
      by (simp split: if_splits)
    with b(2) Copying show ?thesis by (auto intro!: abs_same [OF l])
  next
    case (Sizing c len)
    with sizing_done r have "exec_chunk c (abs_dev (ndev s)) = (ok_reply len, abs_dev ((ndev s)\<lparr>dsize := dsize (ndev s) + len\<rparr>))" by auto
    with abs_serve [OF l, of "Unlock (ok_reply len)"] Sizing st show ?thesis by (auto split: if_splits)
  next
    case (HeldCopy off n)
    with st show ?thesis by (auto intro!: abs_same [OF l] dest!: write_step_abs [OF l] split: if_splits)
  next
    case (HeldLit a)
    with st show ?thesis by (auto intro!: abs_same [OF l] dest!: write_step_abs [OF l] split: if_splits)
  next
    case (Unlock a)
    with st show ?thesis by (auto intro!: abs_same [OF l] split: if_splits)
  next
    case (Writing a)
    with st show ?thesis by (auto intro!: abs_same [OF l] dest!: write_step_abs [OF l] split: if_splits)
  next
    case DropLock
    with st lock_step_abs [OF l] show ?thesis by (auto split: if_splits)
  next
    case DropHeld
    with st have "abs_net t = (abs_net s)\<lparr>adev := (adev (abs_net s))\<lparr>aflags := aflags (adev (abs_net s)) AND NOT 2\<rparr>,
        aconns := (aconns (abs_net s))(fd \<mapsto> Leaving)\<rparr>"
      by (auto simp: abs_net_def abs_clear fun_eq_iff split: if_splits)
    with asrv_step.a_hang_up [of "abs_net s" fd] conn DropHeld show ?thesis by simp
  next
    case Closing
    with st have "abs_net t = (abs_net s)\<lparr>aconns := (aconns (abs_net s))(fd := None)\<rparr>"
      by (auto simp: abs_net_def fun_eq_iff split: if_splits)
    with asrv_step.a_close [of "abs_net s" fd] conn Closing show ?thesis by simp
  qed
qed

text \<open>What a client does leaves its thread where it is.\<close>

lemma client_move:
  assumes "net_inv K s" "links s fd = Some l" "tpc l' = tpc l" "since l' = since l"
    and "length (outbox l') \<le> length (outbox l)" "seen l' @ outbox l' = seen l @ outbox l"
  shows "net_inv K (s\<lparr>links := (links s)(fd \<mapsto> l')\<rparr>) \<and> abs_net (s\<lparr>links := (links s)(fd \<mapsto> l')\<rparr>) = abs_net s"
proof
  note l = net_invD [OF assms(1,2)]
  have "seen l' @ outbox l' @ rest (ndev s) (tpc l) = seen l @ outbox l @ rest (ndev s) (tpc l)"
    using assms(6) by (metis append.assoc)
  also have "\<dots> = replies_to fd (drop (since l') (nlog s))" using l(1) assms(4) by (simp add: link_inv_def)
  finally have "link_inv K (ndev s) (nlog s) fd l'"
    using l(1) assms(3-5) unfolding link_inv_def by (metis le_trans)
  with l(2,3) assms(3) show "net_inv K (s\<lparr>links := (links s)(fd \<mapsto> l')\<rparr>)"
    by (intro net_inv_thread [OF assms(1), of _ fd l']) simp_all
  show "abs_net (s\<lparr>links := (links s)(fd \<mapsto> l')\<rparr>) = abs_net s"
    by (rule abs_same [OF assms(2), of _ l']) (use assms(3) in simp_all)
qed

lemma net_step_sim:
  assumes inv: "net_inv K s" and st: "net_step K s t"
  shows "net_inv K t \<and> (abs_net t = abs_net s \<or> asrv_step (abs_net s) (abs_net t))"
  using st
proof cases
  case (thread fd)
  with inv thread_step_inv thread_step_sim show ?thesis by blast
next
  case (accept fd)
  have free: "nlock s \<noteq> Some fd" using inv accept(3) by (auto simp: net_inv_def)
  have dev: "dev_inv (ndev s)" using inv by (simp add: net_inv_def)
  have "link_inv K (ndev s) (nlog s) fd (new_link (length (nlog s)))"
    by (simp add: link_inv_def new_link_def)
  with free dev accept(1) have "net_inv K t"
    by (intro net_inv_thread [OF inv, of t fd "new_link (length (nlog s))"]) (simp_all add: new_link_def)
  moreover have "abs_net t = (abs_net s)\<lparr>aconns := (aconns (abs_net s))(fd \<mapsto> Accepted)\<rparr>"
    using accept(1) by (simp add: abs_net_def new_link_def fun_eq_iff)
  moreover have "aconns (abs_net s) fd = None" using accept(3) by (simp add: abs_net_def)
  ultimately show ?thesis using asrv_step.a_accept [of "abs_net s" fd] by simp
next
  case (client_sends fd l bs)
  with client_move [OF inv] show ?thesis by simp
next
  case (client_reads fd l n)
  with client_move [OF inv] show ?thesis by simp
next
  case (client_leaves fd l)
  with client_move [OF inv] show ?thesis by simp
next
  case (signal sig)
  with inv show ?thesis by (simp add: net_inv_def abs_net_def)
qed

interpretation net_run: simulation "\<lambda>s. s = net_start" "net_step K" "net_inv K"
    "\<lambda>a. a = abs_server server_initial" asrv_step abs_net for K
proof
  show "net_inv K s" if "s = net_start" for s
    using that by (simp add: net_inv_def net_start_def)
  show "abs_net s = abs_server server_initial" if "s = net_start" for s
    using that by (simp add: abs_net_def abs_server_def net_start_def server_initial_def)
qed (use net_step_sim in blast)+

lemma holder_unique: "net_inv K s \<Longrightarrow> links s f = Some l \<Longrightarrow> holds (tpc l) \<Longrightarrow> nlock s = Some f"
  using net_invD(3) by blast

text \<open>Moves, for concrete runs.\<close>

datatype move = Thread nat | Accepts nat | Asks nat string | Reads nat nat | Leaves nat

fun move_step :: "nat \<Rightarrow> move \<Rightarrow> net \<Rightarrow> net option" where
  "move_step K (Thread fd) s = thread_step K fd s"
| "move_step K (Accepts fd) s =
     (if alive s \<and> links s fd = None then Some (s\<lparr>links := (links s)(fd \<mapsto> new_link (length (nlog s)))\<rparr>) else None)"
| "move_step K (Asks fd bs) s = (case links s fd of None \<Rightarrow> None | Some l \<Rightarrow>
     if alive s \<and> here l \<and> bs \<noteq> []
     then Some (s\<lparr>links := (links s)(fd \<mapsto> l\<lparr>inbox := inbox l @ bs, sends := sends l @ [bs]\<rparr>)\<rparr>) else None)"
| "move_step K (Reads fd n) s = (case links s fd of None \<Rightarrow> None | Some l \<Rightarrow>
     if alive s \<and> here l \<and> 0 < n \<and> n \<le> length (outbox l)
     then Some (s\<lparr>links := (links s)(fd \<mapsto> l\<lparr>outbox := drop n (outbox l), seen := seen l @ take n (outbox l)\<rparr>)\<rparr>) else None)"
| "move_step K (Leaves fd) s = (case links s fd of None \<Rightarrow> None | Some l \<Rightarrow>
     if alive s \<and> here l then Some (s\<lparr>links := (links s)(fd \<mapsto> l\<lparr>here := False\<rparr>)\<rparr>) else None)"

lemma net_move_sound: "move_step K m s = Some t \<Longrightarrow> net_step K s t"
  by (cases m) (auto intro: net_step.intros split: if_splits option.splits)

subsection \<open>Properties\<close>

text \<open>
  C3. The lock makes the commands atomic: every run of the client threads, statement by statement, with
  sockets of any size and clients that send, read and leave when they like, is a run of the
  server that executes each command in one step on the abstract device. At most one thread is in a
  critical section, and each client has read a prefix of the answers to its own commands, complete
  and in their order.
\<close>

theorem resmgr_threads_linearize:
  assumes "(net_step K)\<^sup>*\<^sup>* net_start s"
  shows "asrv_step\<^sup>*\<^sup>* (abs_server server_initial) (abs_net s) \<and>
    (\<forall>f g l m. links s f = Some l \<and> links s g = Some m \<and> holds (tpc l) \<and> holds (tpc m) \<longrightarrow> f = g) \<and>
    (\<forall>fd l. links s fd = Some l \<longrightarrow> prefix (seen l) (replies_to fd (drop (since l) (areplies (abs_net s)))))"
proof -
  from assms have inv: "net_inv K s" using net_run.inv_run by blast
  have "asrv_step\<^sup>*\<^sup>* (abs_server server_initial) (abs_net s)" using net_run.sim_run [OF refl assms] by metis
  moreover have "prefix (seen l) (replies_to fd (drop (since l) (nlog s)))" if "links s fd = Some l" for fd l
    using net_invD(1) [OF inv that] by (auto simp: link_inv_def prefix_def) metis
  moreover have "f = g" if "links s f = Some l" "links s g = Some m" "holds (tpc l)" "holds (tpc m)" for f g l m
    using holder_unique [OF inv that(1,3)] holder_unique [OF inv that(2,4)] by simp
  ultimately show ?thesis by (simp add: abs_net_def)
qed

text \<open>Two clients: the second one asks while the first one's \<open>WRITE\<close> is between its copy and the new size.\<close>

lemmas run_net_simps = thread_step_def lock_step_def write_step_def command_step_def set_pc_def logged_def Let_def
  net_start_def new_link_def locks_def is_read_def is_write_def strncmp_eq_def strcmp_eq_def chunk_text_id perm_defs
  dev_initial_def mark_busy_def clear_busy_def write_len_def memcpy_at_def DEVICE_BUF_SIZE_def ok_reply_def
  handle_chunk_def handle_command_def cmd_read_def write_arr_def

definition two_threads :: "move list" where
  "two_threads = [Accepts 4, Thread 4, Thread 4, Accepts 5, Thread 5, Thread 5, Asks 4 ''WRITE ab'', Asks 5 ''READ'',
     Thread 4, Thread 4, Thread 4, Thread 4, Thread 5, Thread 4, Thread 4,
     Thread 5, Thread 5, Thread 5, Thread 5, Thread 5, Thread 5, Reads 5 2]"

theorem resmgr_threads_linearize_witness:
  "\<exists>s l. (net_step 8)\<^sup>*\<^sup>* net_start s \<and> links s 5 = Some l \<and> seen l = ''ab'' \<and>
     asrv_step\<^sup>*\<^sup>* (abs_server server_initial) (abs_net s) \<and> prefix ''ab'' (replies_to 5 (drop (since l) (nlog s)))"
proof -
  have "map_option (\<lambda>s. map_option seen (links s 5)) (run_script (move_step 8) two_threads net_start) = Some (Some ''ab'')"
    by (simp add: two_threads_def run_net_simps)
  then obtain s l where s: "run_script (move_step 8) two_threads net_start = Some s" "links s 5 = Some l" "seen l = ''ab''"
    by auto
  have r: "(net_step 8)\<^sup>*\<^sup>* net_start s" by (rule run_script_reachable [OF s(1)]) (rule net_move_sound)
  have "prefix (seen l) (replies_to 5 (drop (since l) (nlog s)))"
    using resmgr_threads_linearize [OF r] s(2) by (simp add: abs_net_def)
  with resmgr_threads_linearize [OF r] s(2,3) r show ?thesis by (intro exI [of _ s] exI [of _ l]) simp
qed

end
