(* ===== verification/ResmgrClients.thy ===== *)
theory ResmgrClients
  imports ResmgrNet
begin

section \<open>Clients of the resource manager: what they wait for, and client.c (resmgr.c, client.c)\<close>

text \<open>
  On the statements of theory \<open>ResmgrNet\<close>: a thread only ever waits for the lock, for its client's
  bytes or for room in its client's socket, and never leaves an array; a client that does not read
  makes the thread that holds the lock wait, and with it everyone; a client that leaves early ends
  the server. The last part puts \<open>client.c\<close> (\<open>client_main\<close>) at the other end of a connection.
\<close>

subsection \<open>What a thread waits for\<close>

definition waits_for_lock :: "tpc \<Rightarrow> bool" where
  "waits_for_lock p \<longleftrightarrow> p = MarkLock \<or> p = DropLock \<or> (\<exists>c. p = Got c)"

lemma command_step_total: "dev_inv (ndev s) \<Longrightarrow> chunk_ok c \<Longrightarrow> command_step fd l c s \<noteq> None"
  using resmgr.handle_total [of "ndev s" c] by (cases "handle_chunk c (ndev s)") (auto simp: command_step_def Let_def)

lemma write_step_None:
  "write_step K fd l r next s = None \<Longrightarrow> r \<noteq> [] \<Longrightarrow> length (outbox l) \<le> K \<Longrightarrow> here l \<and> length (outbox l) = K"
  by (auto simp: write_step_def Let_def min_def split: if_splits)

lemma thread_step_None:
  assumes inv: "net_inv K s" and l: "links s fd = Some l" and run: "alive s" and st: "thread_step K fd s = None"
  shows "nlock s \<noteq> None \<and> \<not> holds (tpc l) \<and> waits_for_lock (tpc l) \<or> tpc l = Receiving \<and> inbox l = [] \<and> here l \<or>
    here l \<and> length (outbox l) = K"
proof -
  note i = net_invD [OF inv l]
  have r: "relies (ndev s) (tpc l)" and o: "length (outbox l) \<le> K" using i(1) by (simp_all add: link_inv_def)
  note st = st [unfolded thread_step_def l]
  show ?thesis
  proof (cases "tpc l")
    case MarkLock
    with st run show ?thesis by (auto simp: lock_step_def waits_for_lock_def split: if_splits)
  next
    case Receiving
    with st run show ?thesis by (auto simp: Let_def split: if_splits)
  next
    case (Got c)
    with st run r resmgr.handle_total [OF i(2), of c] show ?thesis
      by (auto simp: lock_step_def waits_for_lock_def split: if_splits option.splits)
  next
    case (Holding c)
    with st run r command_step_total [OF i(2), of c fd l] show ?thesis by simp
  next
    case (Copying c len)
    from copying_sizes [OF i(2)] r Copying obtain buf where
      "memcpy_at (dbuffer (ndev s)) (unat (dsize (ndev s))) (drop 6 (chunk_text c)) (unat len) = Some buf" by auto
    with Copying st run show ?thesis by simp
  next
    case (HeldCopy off n)
    with r i(2) have n: "n \<le> length (dbuffer (ndev s))" "off \<le> n" by (auto simp: dev_inv_def)
    with HeldCopy st run have "off \<noteq> n"
      "write_step K fd l (drop off (take n (dbuffer (ndev s)))) (\<lambda>k. HeldCopy (off + k) n) s = None"
      by (auto split: if_splits)
    with write_step_None [OF this(2) _ o] n show ?thesis by simp
  next
    case (HeldLit a)
    with st run write_step_None [OF _ _ o] show ?thesis by (auto split: if_splits)
  next
    case (Writing a)
    with st run write_step_None [OF _ _ o] show ?thesis by (auto split: if_splits)
  next
    case DropLock
    with st run show ?thesis by (auto simp: lock_step_def waits_for_lock_def split: if_splits)
  qed (use st run in auto)
qed

text \<open>A holder is never at a point where it waits for the lock or its client's bytes.\<close>

lemma holder_steps:
  assumes inv: "net_inv K s" and "alive s" "nlock s = Some fd"
  shows "\<exists>l. links s fd = Some l \<and> (thread_step K fd s \<noteq> None \<or> here l \<and> length (outbox l) = K)"
proof -
  from inv assms(3) obtain l where l: "links s fd = Some l" "holds (tpc l)" by (auto simp: net_inv_def)
  with thread_step_None [OF inv l(1) assms(2)] show ?thesis by (cases "tpc l") auto
qed

subsection \<open>A client that does not read\<close>

text \<open>Client 7 leaves its socket as it is: it neither reads from it nor closes it.\<close>

definition idle_step :: "nat \<Rightarrow> net \<Rightarrow> net \<Rightarrow> bool" where
  "idle_step K s t \<longleftrightarrow> net_step K s t \<and>
     (\<forall>l m. links s 7 = Some l \<and> links t 7 = Some m \<longrightarrow> seen m = seen l \<and> here m = here l)"

text \<open>Its thread stands in the write of a \<open>READ\<close>, with the lock and a full socket.\<close>

definition clogged :: "nat \<Rightarrow> net \<Rightarrow> bool" where
  "clogged K s \<longleftrightarrow> net_inv K s \<and> nlock s = Some 7 \<and>
     (\<exists>l r. links s 7 = Some l \<and> tpc l = HeldLit r \<and> r \<noteq> [] \<and> here l \<and> length (outbox l) = K)"

text \<open>Client 8 waits for the lock at its very first statement, and has read nothing.\<close>

definition kept_out :: "net \<Rightarrow> bool" where
  "kept_out s \<longleftrightarrow> (\<exists>l. links s 8 = Some l \<and> tpc l = MarkLock \<and> outbox l = [] \<and> seen l = [])"

lemma clogged_thread:
  assumes "clogged K s" "thread_step K fd s = Some t"
  shows "clogged K t \<and> ndev t = ndev s \<and> (kept_out s \<longrightarrow> kept_out t)"
proof -
  from assms(1) obtain m r where m: "links s 7 = Some m" "tpc m = HeldLit r" "r \<noteq> []" "here m" "length (outbox m) = K"
    and inv: "net_inv K s" and own: "nlock s = Some 7" by (auto simp: clogged_def)
  obtain l where l: "links s fd = Some l" using assms(2) by (auto simp: thread_step_def split: if_splits option.splits)
  have "fd \<noteq> 7"
  proof
    assume "fd = 7"
    with assms(2) m show False by (auto simp: thread_step_def write_step_def Let_def split: if_splits)
  qed
  with own net_invD(3) [OF inv l] have free: "\<not> holds (tpc l)" by auto
  have inv': "net_inv K t" using thread_step_inv [OF inv assms(2)] .
  have "links t 7 = links s 7 \<and> nlock t = nlock s \<and> ndev t = ndev s \<and> (kept_out s \<longrightarrow> kept_out t)"
    using assms(2) l free own \<open>fd \<noteq> 7\<close>
    by (cases "tpc l")
      (auto simp: thread_step_def lock_step_def write_step_def Let_def kept_out_def split: if_splits option.splits)
  with inv' own m show ?thesis by (auto simp: clogged_def)
qed

lemma clogged_other:
  assumes "clogged K s" "net_inv K t" "links t 7 = links s 7" "nlock t = nlock s"
  shows "clogged K t"
  using assms by (simp add: clogged_def)

text \<open>What client 7 may do: send more.\<close>

lemma clogged_sends:
  assumes "clogged K s" "net_inv K t" "nlock t = nlock s" "links s 7 = Some l"
    and "links t 7 = Some (l\<lparr>inbox := i, sends := ss\<rparr>)"
  shows "clogged K t"
  using assms by (simp add: clogged_def)

lemma kept_out_client:
  "kept_out s \<Longrightarrow> links s fd = Some l \<Longrightarrow> tpc l' = tpc l \<Longrightarrow> outbox l = [] \<longrightarrow> outbox l' = [] \<and> seen l' = seen l \<Longrightarrow>
   kept_out (s\<lparr>links := (links s)(fd \<mapsto> l')\<rparr>)"
  by (cases "fd = 8") (auto simp: kept_out_def)

lemma clogged_step:
  assumes "clogged K s" "idle_step K s t"
  shows "clogged K t \<and> ndev t = ndev s \<and> (kept_out s \<longrightarrow> kept_out t)"
proof -
  from assms(2) have st: "net_step K s t"
    and idle: "\<And>l m. links s 7 = Some l \<Longrightarrow> links t 7 = Some m \<Longrightarrow> seen m = seen l \<and> here m = here l"
    by (auto simp: idle_step_def)
  have "net_inv K s" "links s 7 \<noteq> None" using assms(1) by (auto simp: clogged_def)
  then have inv': "net_inv K t" using net_step_sim [OF _ st] by blast
  from st show ?thesis
  proof cases
    case (thread fd)
    with clogged_thread assms(1) show ?thesis by blast
  next
    case (accept fd)
    with \<open>links s 7 \<noteq> None\<close> have "links t 7 = links s 7" "nlock t = nlock s" by auto
    with clogged_other [OF assms(1) inv'] accept show ?thesis by (auto simp: kept_out_def)
  next
    case (client_sends fd l bs)
    have "clogged K t"
    proof (cases "fd = 7")
      case True
      then show ?thesis
        by (intro clogged_sends [OF assms(1) inv', of l "sends l @ [bs]" "inbox l @ bs"]) (use client_sends in simp_all)
    next
      case False
      then show ?thesis by (intro clogged_other [OF assms(1) inv']) (use client_sends in simp_all)
    qed
    moreover have "kept_out s \<Longrightarrow> kept_out t" using kept_out_client [OF _ client_sends(3)] client_sends(1) by simp
    ultimately show ?thesis using client_sends(1) by simp
  next
    case (client_reads fd l n)
    have "fd \<noteq> 7"
    proof
      assume "fd = 7"
      with idle [of l "l\<lparr>outbox := drop n (outbox l), seen := seen l @ take n (outbox l)\<rparr>"] client_reads(1,3)
      have "take n (outbox l) = []" by simp
      with client_reads(5,6) show False by auto
    qed
    then have "clogged K t" by (intro clogged_other [OF assms(1) inv']) (use client_reads in simp_all)
    moreover have "kept_out s \<Longrightarrow> kept_out t" using kept_out_client [OF _ client_reads(3)] client_reads(1) by simp
    ultimately show ?thesis using client_reads(1) by simp
  next
    case (client_leaves fd l)
    have "fd \<noteq> 7"
    proof
      assume "fd = 7"
      with idle [of l "l\<lparr>here := False\<rparr>"] client_leaves(1,3,4) show False by simp
    qed
    then have "clogged K t" by (intro clogged_other [OF assms(1) inv']) (use client_leaves in simp_all)
    moreover have "kept_out s \<Longrightarrow> kept_out t" using kept_out_client [OF _ client_leaves(3)] client_leaves(1) by simp
    ultimately show ?thesis using client_leaves(1) by simp
  next
    case (signal sig)
    then show ?thesis using clogged_other [OF assms(1) inv'] by (auto simp: kept_out_def)
  qed
qed

lemma clogged_run:
  "(idle_step K)\<^sup>*\<^sup>* s t \<Longrightarrow> clogged K s \<Longrightarrow> clogged K t \<and> ndev t = ndev s \<and> (kept_out s \<longrightarrow> kept_out t)"
  by (induction rule: rtranclp_induct) (use clogged_step in fastforce)+

text \<open>
  Such a state is reached for every size of the sockets: client 7 asks for the empty device again and
  again, 15 bytes an answer, until its socket is full. \<open>asking\<close> is the state between two of these.
\<close>

definition empty_text :: string where "empty_text = ''<buffer empty>'' @ [LF]"

definition asking :: "nat \<Rightarrow> net \<Rightarrow> bool" where
  "asking k s \<longleftrightarrow> alive s \<and> nlock s = None \<and> dsize (ndev s) = 0 \<and> dpermissions (ndev s) = PERM_RW \<and>
     links s 8 = None \<and>
     (\<exists>l. links s 7 = Some l \<and> tpc l = Receiving \<and> inbox l = [] \<and> here l \<and> length (outbox l) = k)"

lemma read_empty:
  "dsize d = 0 \<Longrightarrow> dpermissions d = PERM_RW \<Longrightarrow> handle_chunk ''READ'' d = Some (empty_text, d)"
  by (simp add: handle_chunk_def chunk_text_id handle_command_def strncmp_eq_def cmd_read_def write_lit_full
      perm_defs empty_text_def)

text \<open>Up to the write: the whole answer is still to be written.\<close>

lemma asking_writes:
  assumes "asking k s"
  shows "\<exists>t l. (net_step K)\<^sup>*\<^sup>* s t \<and> alive t \<and> nlock t = Some 7 \<and> dsize (ndev t) = 0 \<and> dpermissions (ndev t) = PERM_RW \<and>
    links t 8 = None \<and> links t 7 = Some l \<and> tpc l = HeldLit empty_text \<and> inbox l = [] \<and> here l \<and> length (outbox l) = k"
proof -
  from assms obtain l where l: "links s 7 = Some l" "tpc l = Receiving" "inbox l = []" "here l" "length (outbox l) = k"
    and s: "alive s" "nlock s = None" "dsize (ndev s) = 0" "dpermissions (ndev s) = PERM_RW" "links s 8 = None"
    by (auto simp: asking_def)
  let ?ms = "[Asks 7 ''READ'', Thread 7, Thread 7, Thread 7]"
  have w: "PERM_RW \<noteq> PERM_WO" "\<not> is_write ''READ''" "is_read ''READ''" "locks ''READ''" "chunk_text ''READ'' = ''READ''"
    by (simp_all add: perm_defs is_write_def is_read_def locks_def strncmp_eq_def chunk_text_id)
  obtain t where t: "run_script (move_step K) ?ms s = Some t"
    "alive t" "nlock t = Some 7" "ndev t = ndev s" "links t 8 = None"
    "links t 7 = Some (l\<lparr>inbox := [], sends := sends l @ [''READ''], asked := asked l @ [''READ''], tpc := HeldLit empty_text\<rparr>)"
    using l s w read_empty [OF s(3,4)]
    by (simp add: thread_step_def lock_step_def command_step_def set_pc_def logged_def Let_def)
  have "(net_step K)\<^sup>*\<^sup>* s t" by (rule run_script_reachable [OF t(1)]) (rule net_move_sound)
  with t l s show ?thesis by (intro exI [of _ t]) auto
qed

definition clogging :: "nat \<Rightarrow> net \<Rightarrow> bool" where
  "clogging K s \<longleftrightarrow> alive s \<and> nlock s = Some 7 \<and> links s 8 = None \<and>
     (\<exists>l r. links s 7 = Some l \<and> tpc l = HeldLit r \<and> r \<noteq> [] \<and> here l \<and> length (outbox l) = K)"

lemma length_empty_text [simp]: "length empty_text = 15"
  by (simp add: empty_text_def)

lemma write_all_step:
  assumes "links s 7 = Some l" "tpc l = HeldLit r" "r \<noteq> []" "here l" "alive s" "length (outbox l) < K"
  shows "net_step K s (set_pc 7 (l\<lparr>outbox := outbox l @ take (K - length (outbox l)) r\<rparr>)
    (HeldLit (drop (K - length (outbox l)) r)) s)"
proof (rule net_step.thread [of K 7])
  have "take (min (length r) n) r = take n r" "drop (min (length r) n) r = drop n r" for n by (simp_all add: min_def)
  with assms show "thread_step K 7 s = Some (set_pc 7 (l\<lparr>outbox := outbox l @ take (K - length (outbox l)) r\<rparr>)
      (HeldLit (drop (K - length (outbox l)) r)) s)"
    by (simp add: thread_step_def write_step_def Let_def)
qed

lemma asking_again:
  assumes "asking k s" "k < K"
  shows "\<exists>t. (net_step K)\<^sup>*\<^sup>* s t \<and> (if k + 15 \<le> K then asking (k + 15) t else clogging K t)"
proof -
  obtain t l where st: "(net_step K)\<^sup>*\<^sup>* s t"
    and t: "alive t" "nlock t = Some 7" "dsize (ndev t) = 0" "dpermissions (ndev t) = PERM_RW" "links t 8 = None"
    and l: "links t 7 = Some l" "tpc l = HeldLit empty_text" "inbox l = []" "here l" "length (outbox l) = k"
    using asking_writes [OF assms(1)] by blast
  let ?l = "l\<lparr>outbox := outbox l @ take (K - k) empty_text\<rparr>"
  let ?u = "set_pc 7 ?l (HeldLit (drop (K - k) empty_text)) t"
  have ne: "empty_text \<noteq> []" by (simp add: empty_text_def)
  have su: "(net_step K)\<^sup>*\<^sup>* s ?u"
    using st write_all_step [OF l(1,2) ne l(4) t(1)] l(5) assms(2) by (simp add: rtranclp.rtrancl_into_rtrancl)
  show ?thesis
  proof (cases "k + 15 \<le> K")
    case True
    let ?v = "set_pc 7 ?l Receiving (?u\<lparr>nlock := None\<rparr>)"
    have "run_script (move_step K) [Thread 7, Thread 7, Thread 7] ?u = Some ?v"
      using True l t by (simp add: thread_step_def set_pc_def)
    then have "(net_step K)\<^sup>*\<^sup>* ?u ?v" by (rule run_script_reachable) (rule net_move_sound)
    with su have "(net_step K)\<^sup>*\<^sup>* s ?v" by simp
    moreover have "asking (k + 15) ?v" using True l t by (simp add: asking_def)
    ultimately show ?thesis using True by auto
  next
    case False
    then have "clogging K ?u" using l t assms(2) by (simp add: clogging_def)
    with su False show ?thesis by auto
  qed
qed

lemma asking_clogs: "asking k s \<Longrightarrow> k \<le> K \<Longrightarrow> \<exists>t. (net_step K)\<^sup>*\<^sup>* s t \<and> clogging K t"
proof (induction "K - k" arbitrary: k s rule: less_induct)
  case less
  show ?case
  proof (cases "k = K")
    case True
    from asking_writes [OF less.prems(1)] obtain t l where "(net_step K)\<^sup>*\<^sup>* s t"
      "alive t" "nlock t = Some 7" "links t 8 = None" "links t 7 = Some l" "tpc l = HeldLit empty_text" "here l"
      "length (outbox l) = k" by blast
    with True show ?thesis by (intro exI [of _ t]) (auto simp: clogging_def empty_text_def)
  next
    case False
    with less.prems asking_again [of k s K] obtain t where
      t: "(net_step K)\<^sup>*\<^sup>* s t" "if k + 15 \<le> K then asking (k + 15) t else clogging K t" by auto
    show ?thesis
    proof (cases "k + 15 \<le> K")
      case True
      then have "K - (k + 15) < K - k" by simp
      from less.hyps [OF this] t(2) True obtain u where "(net_step K)\<^sup>*\<^sup>* t u" "clogging K u" by auto
      with t(1) show ?thesis by (meson rtranclp_trans)
    qed (use t in auto)
  qed
qed

lemma clogged_reachable: "\<exists>s l. (net_step K)\<^sup>*\<^sup>* net_start s \<and> clogged K s \<and> kept_out s \<and> alive s \<and> links s 8 = Some l \<and> here l"
proof -
  let ?ms = "[Accepts 7, Thread 7, Thread 7]"
  obtain s0 where s0: "run_script (move_step K) ?ms net_start = Some s0" "asking 0 s0"
    by (simp add: thread_step_def lock_step_def set_pc_def net_start_def new_link_def asking_def mark_busy_def dev_initial_def)
  have r0: "(net_step K)\<^sup>*\<^sup>* net_start s0" by (rule run_script_reachable [OF s0(1)]) (rule net_move_sound)
  from asking_clogs [OF s0(2)] obtain t where t: "(net_step K)\<^sup>*\<^sup>* s0 t" "clogging K t" by auto
  let ?s = "t\<lparr>links := (links t)(8 \<mapsto> new_link (length (nlog t)))\<rparr>"
  have "net_step K t ?s" using t(2) by (auto simp: clogging_def intro: net_step.accept)
  with r0 t(1) have r: "(net_step K)\<^sup>*\<^sup>* net_start ?s" by (meson rtranclp.rtrancl_into_rtrancl rtranclp_trans)
  then have "net_inv K ?s" using net_run.inv_run by blast
  with t(2) have "clogged K ?s" "kept_out ?s" "alive ?s" "links ?s 8 = Some (new_link (length (nlog t)))"
    "here (new_link (length (nlog t)))"
    by (auto simp: clogging_def clogged_def kept_out_def new_link_def)
  with r show ?thesis by blast
qed

subsection \<open>Questions and answers\<close>

text \<open>An answer is that of its command on a device the abstract server reaches.\<close>

definition answers :: "string \<Rightarrow> string \<Rightarrow> bool" where
  "answers c r \<longleftrightarrow> (\<exists>A. asrv_step\<^sup>*\<^sup>* (abs_server server_initial) A \<and> fst (exec_chunk c (adev A)) = r)"

definition ask_inv :: "(nat \<times> string) list \<Rightarrow> nat \<Rightarrow> link \<Rightarrow> bool" where
  "ask_inv lg fd l \<longleftrightarrow> since l \<le> length lg \<and>
     (\<exists>cs. asked l = cs @ pending (tpc l) \<and>
       list_all2 answers cs (map snd (filter (\<lambda>(f, r). f = fd) (drop (since l) lg)))) \<and>
     (sends l = [] \<longrightarrow> inbox l = [] \<and> asked l = []) \<and>
     (\<forall>m. sends l = [m] \<and> length m \<le> 1023 \<longrightarrow> inbox l = m \<and> asked l = [] \<or> inbox l = [] \<and> asked l = [m])"

definition chat_inv :: "nat \<Rightarrow> net \<Rightarrow> bool" where
  "chat_inv K s \<longleftrightarrow> net_inv K s \<and> asrv_step\<^sup>*\<^sup>* (abs_server server_initial) (abs_net s) \<and>
     (\<forall>fd l. links s fd = Some l \<longrightarrow> ask_inv (nlog s) fd l)"

text \<open>What a step of a thread does to its conversation.\<close>

lemma lock_step_effect:
  "lock_step fd l p s = Some t \<Longrightarrow> links t = (links s)(fd \<mapsto> l\<lparr>tpc := p\<rparr>) \<and> nlog t = nlog s"
  by (auto simp: lock_step_def split: if_splits)

lemma write_step_effect:
  assumes "write_step K fd l r next s = Some t"
  shows "nlog t = nlog s \<and> (links t = links s \<or> (\<exists>n ob. links t = (links s)(fd \<mapsto> l\<lparr>outbox := ob, tpc := next n\<rparr>)))"
proof (cases "here l")
  case True
  let ?n = "min (length r) (K - length (outbox l))"
  from True assms have t: "t = set_pc fd (l\<lparr>outbox := outbox l @ take ?n r\<rparr>) (next ?n) s"
    by (auto simp: write_step_def Let_def split: if_splits)
  then have "links t = (links s)(fd \<mapsto> l\<lparr>outbox := outbox l @ take ?n r, tpc := next ?n\<rparr>)" by simp
  moreover have "nlog t = nlog s" using t by simp
  ultimately show ?thesis by blast
qed (use assms in \<open>auto simp: write_step_def\<close>)

lemma thread_step_effect:
  assumes inv: "net_inv K s" and l: "links s fd = Some l" and st: "thread_step K fd s = Some t"
  obtains
    (dead) "links t = links s" "nlog t = nlog s"
  | (moved) l' where "links t = (links s)(fd \<mapsto> l')" "nlog t = nlog s" "pending (tpc l') = pending (tpc l)"
      "asked l' = asked l" "inbox l' = inbox l" "sends l' = sends l" "since l' = since l"
  | (got) l' where "links t = (links s)(fd \<mapsto> l')" "nlog t = nlog s" "pending (tpc l) = []" "inbox l \<noteq> []"
      "pending (tpc l') = [take 1023 (inbox l)]" "asked l' = asked l @ [take 1023 (inbox l)]"
      "inbox l' = drop 1023 (inbox l)" "sends l' = sends l" "since l' = since l"
  | (answered) l' c r where "links t = (links s)(fd \<mapsto> l')" "nlog t = nlog s @ [(fd, r)]" "pending (tpc l) = [c]"
      "pending (tpc l') = []" "fst (exec_chunk c (abs_dev (ndev s))) = r"
      "asked l' = asked l" "inbox l' = inbox l" "sends l' = sends l" "since l' = since l"
  | (closed) "links t = (links s)(fd := None)" "nlog t = nlog s"
proof -
  note i = net_invD [OF inv l]
  have r: "relies (ndev s) (tpc l)" using i(1) by (simp add: link_inv_def)
  note st = st [unfolded thread_step_def l]
  note lock = lock_step_effect [of fd l _ s t]
  note wr = write_step_effect [of K fd l _ _ s t]
  show ?thesis
  proof (cases "tpc l")
    case MarkLock
    with st lock [of MarkHeld] moved [of "l\<lparr>tpc := MarkHeld\<rparr>"] show ?thesis by (auto split: if_splits)
  next
    case MarkHeld
    with st moved [of "l\<lparr>tpc := Receiving\<rparr>"] show ?thesis by (auto split: if_splits)
  next
    case Receiving
    with st got [of "l\<lparr>inbox := drop 1023 (inbox l), asked := asked l @ [take 1023 (inbox l)], tpc := Got (take 1023 (inbox l))\<rparr>"]
      moved [of "l\<lparr>tpc := DropLock\<rparr>"] show ?thesis by (auto simp: Let_def split: if_splits)
  next
    case (Got c)
    show ?thesis
    proof (cases "locks (chunk_text c)")
      case True
      with Got st lock [of "Holding c"] moved [of "l\<lparr>tpc := Holding c\<rparr>"] show ?thesis by (auto split: if_splits)
    next
      case False
      with Got st obtain a d where h: "handle_chunk c (ndev s) = Some (a, d)" "t = set_pc fd l (Writing a) (logged fd a s)"
        by (auto split: if_splits option.splits)
      moreover have "chunk_ok c" using Got r by simp
      ultimately have "fst (exec_chunk c (abs_dev (ndev s))) = a" using resmgr.handle_step [OF i(2)] by fastforce
      with answered [of "l\<lparr>tpc := Writing a\<rparr>" a c] Got h show ?thesis by simp
    qed
  next
    case (Holding c)
    with st have cs: "command_step fd l c s = Some t" by (simp split: if_splits)
    have "chunk_ok c" using r Holding by simp
    with cs i(2) show ?thesis
    proof (cases rule: command_step_cases)
      case copying
      with Holding moved [of "l\<lparr>tpc := Copying c (write_len (drop 6 (chunk_text c)) (ndev s))\<rparr>"] show ?thesis by simp
    next
      case (answered a d p)
      with that(4) [of "l\<lparr>tpc := p\<rparr>" a c] answered Holding show ?thesis by simp
    qed
  next
    case (Copying c len)
    with st moved [of "l\<lparr>tpc := Sizing c len\<rparr>"] show ?thesis by (auto split: if_splits option.splits)
  next
    case (Sizing c len)
    with sizing_done r have "fst (exec_chunk c (abs_dev (ndev s))) = ok_reply len" by auto
    with answered [of "l\<lparr>tpc := Unlock (ok_reply len)\<rparr>" "ok_reply len" c] Sizing st show ?thesis by (auto split: if_splits)
  next
    case (HeldCopy off n)
    show ?thesis
    proof (cases "off = n")
      case True
      with HeldCopy st moved [of "l\<lparr>tpc := Unlock []\<rparr>"] show ?thesis by (auto split: if_splits)
    next
      case False
      with HeldCopy st have "write_step K fd l (drop off (take n (dbuffer (ndev s)))) (\<lambda>k. HeldCopy (off + k) n) s = Some t"
        by (auto split: if_splits)
      from write_step_effect [OF this] HeldCopy dead moved show ?thesis by fastforce
    qed
  next
    case (HeldLit a)
    show ?thesis
    proof (cases "a = []")
      case True
      with HeldLit st moved [of "l\<lparr>tpc := Unlock []\<rparr>"] show ?thesis by (auto split: if_splits)
    next
      case False
      with HeldLit st have "write_step K fd l a (\<lambda>k. HeldLit (drop k a)) s = Some t" by (auto split: if_splits)
      from write_step_effect [OF this] HeldLit dead moved show ?thesis by fastforce
    qed
  next
    case (Unlock a)
    with st moved [of "l\<lparr>tpc := Writing a\<rparr>"] show ?thesis by (auto split: if_splits)
  next
    case (Writing a)
    show ?thesis
    proof (cases "a = []")
      case True
      with Writing st moved [of "l\<lparr>tpc := Receiving\<rparr>"] show ?thesis by (auto split: if_splits)
    next
      case False
      with Writing st have "write_step K fd l a (\<lambda>k. Writing (drop k a)) s = Some t" by (auto split: if_splits)
      from write_step_effect [OF this] Writing dead moved show ?thesis by fastforce
    qed
  next
    case DropLock
    with st lock [of DropHeld] moved [of "l\<lparr>tpc := DropHeld\<rparr>"] show ?thesis by (auto split: if_splits)
  next
    case DropHeld
    with st moved [of "l\<lparr>tpc := Closing\<rparr>"] show ?thesis by (auto split: if_splits)
  next
    case Closing
    with st closed show ?thesis by (auto split: if_splits)
  qed
qed

lemma ask_inv_other: "ask_inv lg fd l \<Longrightarrow> f \<noteq> fd \<Longrightarrow> ask_inv (lg @ [(f, r)]) fd l"
  by (simp add: ask_inv_def)

lemma ask_inv_moved:
  "ask_inv lg fd l \<Longrightarrow> pending (tpc l') = pending (tpc l) \<Longrightarrow> asked l' = asked l \<Longrightarrow> inbox l' = inbox l \<Longrightarrow>
   sends l' = sends l \<Longrightarrow> since l' = since l \<Longrightarrow> ask_inv lg fd l'"
  by (simp add: ask_inv_def)

lemma ask_inv_got:
  assumes "ask_inv lg fd l" "pending (tpc l) = []" "inbox l \<noteq> []" "pending (tpc l') = [take 1023 (inbox l)]"
    and "asked l' = asked l @ [take 1023 (inbox l)]" "inbox l' = drop 1023 (inbox l)" "sends l' = sends l" "since l' = since l"
  shows "ask_inv lg fd l'"
proof -
  have "inbox l = m \<and> asked l = []" if "sends l = [m]" "length m \<le> 1023" for m
    using assms(1,3) that by (auto simp: ask_inv_def)
  with assms show ?thesis by (auto simp: ask_inv_def)
qed

lemma ask_inv_answered:
  assumes "ask_inv lg fd l" "pending (tpc l) = [c]" "pending (tpc l') = []" "answers c r"
    and "asked l' = asked l" "inbox l' = inbox l" "sends l' = sends l" "since l' = since l"
  shows "ask_inv (lg @ [(fd, r)]) fd l'"
proof -
  from assms(1,2) obtain cs where cs: "asked l = cs @ [c]" "since l \<le> length lg"
    "list_all2 answers cs (map snd (filter (\<lambda>(f, r). f = fd) (drop (since l) lg)))" by (auto simp: ask_inv_def)
  then have "list_all2 answers (cs @ [c]) (map snd (filter (\<lambda>(f, r). f = fd) (drop (since l) (lg @ [(fd, r)]))))"
    using assms(4) by (simp add: list_all2_appendI)
  with assms cs show ?thesis by (auto simp: ask_inv_def)
qed

lemma net_step_chat:
  assumes chat: "chat_inv K s" and st: "net_step K s t"
  shows "chat_inv K t"
proof -
  from chat have inv: "net_inv K s" and A: "asrv_step\<^sup>*\<^sup>* (abs_server server_initial) (abs_net s)"
    and ask: "\<And>fd l. links s fd = Some l \<Longrightarrow> ask_inv (nlog s) fd l" by (auto simp: chat_inv_def)
  from net_step_sim [OF inv st] A have "net_inv K t" "asrv_step\<^sup>*\<^sup>* (abs_server server_initial) (abs_net t)"
    by (auto intro: rtranclp.rtrancl_into_rtrancl)
  moreover from st have "ask_inv (nlog t) g m" if g: "links t g = Some m" for g m
  proof cases
    case (thread fd)
    then obtain l where l: "links s fd = Some l" by (auto simp: thread_step_def split: if_splits option.splits)
    from inv l thread show ?thesis
    proof (cases rule: thread_step_effect)
      case dead
      with ask g show ?thesis by simp
    next
      case (moved l')
      with ask [OF l] ask g ask_inv_moved [of "nlog s" fd l l'] show ?thesis by (cases "g = fd") simp_all
    next
      case (got l')
      with ask [OF l] ask g ask_inv_got [of "nlog s" fd l l'] show ?thesis by (cases "g = fd") simp_all
    next
      case (answered l' c r)
      have "answers c r" using A answered(5) by (auto simp: answers_def abs_net_def)
      with answered ask [OF l] ask g ask_inv_answered [of "nlog s" fd l c l' r] ask_inv_other [of "nlog s" g m fd r]
      show ?thesis by (cases "g = fd") simp_all
    next
      case closed
      with ask g show ?thesis by (simp split: if_splits)
    qed
  next
    case (accept fd)
    with ask g show ?thesis by (cases "g = fd") (auto simp: ask_inv_def new_link_def)
  next
    case (client_sends fd l bs)
    with ask [OF client_sends(3)] ask g show ?thesis by (cases "g = fd") (auto simp: ask_inv_def)
  next
    case (client_reads fd l n)
    with ask_inv_moved [OF ask [OF client_reads(3)], of m] ask g show ?thesis by (cases "g = fd") auto
  next
    case (client_leaves fd l)
    with ask_inv_moved [OF ask [OF client_leaves(3)], of m] ask g show ?thesis by (cases "g = fd") auto
  next
    case (signal sig)
    with ask g show ?thesis by simp
  qed
  ultimately show ?thesis by (simp add: chat_inv_def)
qed

interpretation chat: inductive_invariant "\<lambda>s. s = net_start" "net_step K" "chat_inv K" for K
proof
  show "chat_inv K s" if "s = net_start" for s
    using that net_run.inv_init [of s K] net_run.sim_init [of s] by (simp add: chat_inv_def) (simp add: net_start_def)
qed (rule net_step_chat)

text \<open>What a client that has sent one message of at most 1023 bytes reads is of the one answer to it.\<close>

lemma one_message_answer:
  assumes "chat_inv K s" "links s fd = Some l" "sends l = [m]" "length m \<le> 1023" "seen l \<noteq> []"
  shows "\<exists>r. answers m r \<and> prefix (seen l) r"
proof -
  let ?rs = "map snd (filter (\<lambda>(f, r). f = fd) (drop (since l) (nlog s)))"
  from assms(1,2) have inv: "net_inv K s" and ask: "ask_inv (nlog s) fd l" by (auto simp: chat_inv_def)
  have p: "prefix (seen l) (concat ?rs)"
    using net_invD(1) [OF inv assms(2)] by (auto simp: link_inv_def replies_to_def prefix_def) metis
  from ask obtain cs where cs: "asked l = cs @ pending (tpc l)" "list_all2 answers cs ?rs" by (auto simp: ask_inv_def)
  have "asked l = [] \<or> asked l = [m]" using ask assms(3,4) by (auto simp: ask_inv_def)
  with cs(1) have "cs = [] \<or> cs = [m]" by (cases cs) auto
  moreover have "cs \<noteq> []" using cs(2) p assms(5) by auto
  ultimately obtain r where "?rs = [r]" "answers m r" using cs(2) by (auto simp: list_all2_Cons1)
  with p show ?thesis by auto
qed

subsection \<open>Properties\<close>

text \<open>
  C26. The server's threads never leave an array and never wait for anything but the lock, the bytes of
  their client or room in its socket: in every state they reach, a thread that cannot step is at one
  of these points; and the thread that holds the lock can always step, unless its own client's
  socket is full.
\<close>

theorem resmgr_threads_wait:
  assumes "(net_step K)\<^sup>*\<^sup>* net_start s" "alive s" "links s fd = Some l"
  shows "(thread_step K fd s = None \<longrightarrow> nlock s \<noteq> None \<and> waits_for_lock (tpc l) \<or>
      tpc l = Receiving \<and> inbox l = [] \<and> here l \<or> here l \<and> length (outbox l) = K) \<and>
    (nlock s = Some fd \<longrightarrow> thread_step K fd s \<noteq> None \<or> here l \<and> length (outbox l) = K)"
proof -
  from assms(1) have inv: "net_inv K s" using net_run.inv_run by blast
  from thread_step_None [OF inv assms(3,2)] holder_steps [OF inv assms(2), of fd] assms(3) show ?thesis by auto
qed

theorem resmgr_threads_wait_witness:
  "\<exists>s l. (net_step 8)\<^sup>*\<^sup>* net_start s \<and> links s 7 = Some l \<and> nlock s = Some 7 \<and>
     (thread_step 8 7 s \<noteq> None \<or> here l \<and> length (outbox l) = 8)"
proof -
  obtain s where s: "(net_step 8)\<^sup>*\<^sup>* net_start s" "clogged 8 s" "alive s" using clogged_reachable by blast
  then obtain l where l: "links s 7 = Some l" "nlock s = Some 7" by (auto simp: clogged_def)
  from resmgr_threads_wait [OF s(1,3) l(1)] s(1) l show ?thesis by blast
qed

text \<open>
  \<open>READ\<close> writes to its client while it holds the lock. Whatever the size of the sockets, a client that
  keeps asking and does not read brings the server into a state from which, as long as this
  client neither reads nor closes its socket, no other thread gets the lock: the device never
  changes again, and a client that has just connected is never served.
\<close>

theorem resmgr_slow_reader:
  "\<exists>s. (net_step K)\<^sup>*\<^sup>* net_start s \<and> alive s \<and> (\<exists>l. links s 8 = Some l \<and> here l) \<and>
    (\<forall>t. (idle_step K)\<^sup>*\<^sup>* s t \<longrightarrow> nlock t = Some 7 \<and> ndev t = ndev s \<and>
      (\<exists>l. links t 8 = Some l \<and> tpc l = MarkLock \<and> outbox l = [] \<and> seen l = []))"
proof -
  obtain s l where s: "(net_step K)\<^sup>*\<^sup>* net_start s" "clogged K s" "kept_out s" "alive s"
    "links s 8 = Some l" "here l" using clogged_reachable by blast
  have "nlock t = Some 7 \<and> ndev t = ndev s \<and> kept_out t" if "(idle_step K)\<^sup>*\<^sup>* s t" for t
    using clogged_run [OF that s(2)] s(3) by (simp add: clogged_def)
  with s show ?thesis unfolding kept_out_def by blast
qed

text \<open>
  A client that leaves before it has its answer ends the server for all: the \<open>write\<close> to its closed
  socket raises \<open>SIGPIPE\<close>. In the state reached another client is connected and has sent a command
  that is never received.
\<close>

theorem resmgr_client_kills_server:
  "\<exists>s l. (net_step K)\<^sup>*\<^sup>* net_start s \<and> \<not> alive s \<and> links s 8 = Some l \<and> here l \<and> inbox l = ''READ'' \<and>
    (\<forall>t. \<not> net_step K s t)"
proof -
  let ?ms = "[Accepts 7, Thread 7, Thread 7, Accepts 8, Asks 8 ''READ'', Asks 7 ''READ'', Leaves 7,
    Thread 7, Thread 7, Thread 7, Thread 7]"
  have w: "PERM_RW \<noteq> PERM_WO" "\<not> is_write ''READ''" "is_read ''READ''" "locks ''READ''" "chunk_text ''READ'' = ''READ''"
    "empty_text \<noteq> []"
    by (simp_all add: perm_defs is_write_def is_read_def locks_def strncmp_eq_def chunk_text_id empty_text_def)
  have d: "dsize (mark_busy dev_initial) = 0" "dpermissions (mark_busy dev_initial) = PERM_RW"
    by (simp_all add: mark_busy_def dev_initial_def)
  obtain s l where s: "run_script (move_step K) ?ms net_start = Some s" "\<not> alive s" "links s 8 = Some l"
    "here l" "inbox l = ''READ''"
    using w d read_empty [OF d]
    by (simp add: thread_step_def lock_step_def write_step_def command_step_def set_pc_def logged_def Let_def
        net_start_def new_link_def)
  have "(net_step K)\<^sup>*\<^sup>* net_start s" by (rule run_script_reachable [OF s(1)]) (rule net_move_sound)
  moreover have "\<not> net_step K s t" for t
    using s(2) by (auto elim!: net_step.cases simp: thread_step_def)
  ultimately show ?thesis using s by blast
qed

text \<open>
  C25. \<open>client.c\<close> against the server: at every moment of every run, what a client that has sent its
  argument (of at most 1023 bytes) can have read is the beginning of the one answer to it, which
  its command gets on some device that the abstract server reaches; and with that, if its buffer of
  1023 bytes takes it, as the bytes received \<open>client.c\<close> prints them, closes its socket and ends with success.
\<close>

theorem client_prints_answer:
  assumes "(net_step K)\<^sup>*\<^sup>* net_start s" "links s fd = Some l" "sends l = [msg]" "length msg \<le> 1023"
    and "seen l \<noteq> []" "length (seen l) \<le> 1023"
  shows "\<exists>A r. asrv_step\<^sup>*\<^sup>* (abs_server server_initial) A \<and> fst (exec_chunk msg (adev A)) = r \<and> prefix (seen l) r \<and>
    client_main [prog, msg] (Some sock) True (int (length msg)) (Some (seen l)) =
      ([Opened sock, Message (''response: '' @ c_str (seen l) @ [LF]), Closed sock], Some EXIT_SUCCESS)"
proof -
  have "chat_inv K s" using chat.inv_run [OF refl assms(1)] .
  from one_message_answer [OF this assms(2-5)] show ?thesis
    by (auto simp: answers_def client_main_def c_str_cut)
qed

theorem client_prints_answer_witness:
  "\<exists>s l r. (net_step 8)\<^sup>*\<^sup>* net_start s \<and> links s 5 = Some l \<and> sends l = [''READ''] \<and> seen l = ''ab'' \<and> prefix ''ab'' r \<and>
     client_main [''client'', ''READ''] (Some 3) True 4 (Some (seen l)) =
       ([Opened 3, Message (''response: '' @ c_str ''ab'' @ [LF]), Closed 3], Some EXIT_SUCCESS)"
proof -
  have "map_option (\<lambda>s. map_option (\<lambda>l. (sends l, seen l)) (links s 5)) (run_script (move_step 8) two_threads net_start) =
      Some (Some ([''READ''], ''ab''))"
    by (simp add: two_threads_def run_net_simps)
  then obtain s l where s: "run_script (move_step 8) two_threads net_start = Some s" "links s 5 = Some l"
    "sends l = [''READ'']" "seen l = ''ab''" by auto
  have r: "(net_step 8)\<^sup>*\<^sup>* net_start s" by (rule run_script_reachable [OF s(1)]) (rule net_move_sound)
  from client_prints_answer [OF r s(2,3), of "''client''" 3] s r show ?thesis by force
qed

end
