(* ===== verification/Spec2Isabelle.thy ===== *)
theory Spec2Isabelle
  imports MempoolSpec ResmgrServer ShmRing SharedVars CondVars Periodic Traffic Signals MsgQueue
    EpollServer IovDemo Timeouts Intro PrioInversion InputDevices Latency PoolBenchmark IpcMains Startup
    TrafficTimer CondTimeout PollTimeout RelativeSleep Averages MqClients MqTimeout EpollDrain ResmgrClients
begin

text \<open>
  The real-time systems exercises of this repository: a verification library of their C programs.

  The repository is seven sets of small POSIX programs. They have no common core; what they share
  is a handful of mechanisms, and the library is laid out along those.

  Shared theories. \<open>Prelude\<close>: C integers (unsigned ones as words, signed ones as \<^typ>\<open>int\<close> with every
  intermediate result checked against its width, an overflow being \<^const>\<open>None\<close>), decimal output,
  the two locales that lift an invariant or a simulation from single steps to runs, and scripts of
  concrete runs. \<open>Doubles\<close>: IEEE double arithmetic as rounded real arithmetic, a locale for what the
  programs rely on of it, and the error analysis of means and standard deviations. \<open>CMem\<close>:
  byte-addressed memory. \<open>CStrings\<close>: C strings, buffers, \<open>memcpy\<close>, with accesses out of bounds as
  \<^const>\<open>None\<close>. \<open>Syscalls\<close>: traces of system calls, with what is still open or named at their end.

  task5, the memory pool. \<open>Mempool\<close> is \<open>mempool.c\<close>: a pool whose free list is threaded through the
  blocks in memory. \<open>MempoolSpec\<close> states the contract of a block allocator as a locale, interprets it
  on the pool, and proves that any interleaving of client allocations, frees and writes refines a
  stack of free blocks, that clients are separated, and what a double free and a size that wraps
  do. \<open>malloc\<close> is a parameter with the contract \<open>malloc_spec\<close>. \<open>PoolBenchmark\<close> is \<open>task3_benchmark.c\<close>
  as a client of that contract: what its million allocations and frees do follows from the locale's
  lemmas, and its measuring loop is the plain allocation loop. \<open>Latency\<close> has \<open>task1_latency.c\<close> and
  \<open>task2_mlock.c\<close> over a model of resident, swapped and locked pages: which accesses fault.

  task1, the resource manager. \<open>Resmgr\<close> has the device of \<open>resmgr.c\<close> and \<open>handle_command\<close> branch by
  branch, an abstract device and the proof that every command refines its meaning.
  \<open>ResmgrServer\<close> has the client threads interleaving at the device's lock, the accept loop, the
  signal handler and \<open>client.c\<close>; commands that interleave are atomic operations on the abstract
  device, permissions are enforced, the server releases what it acquires. \<open>ResmgrNet\<close> splits the
  client threads into their statements, with the lock and with sockets that hold a bounded number of
  answers: every run is a run of atomic commands, and each client's answers are those of its commands
  in order. \<open>ResmgrClients\<close> has what follows for clients that do not read or go away: who waits for
  whom under the lock, and a write to a closed socket; and \<open>client.c\<close>'s dialogue over that network.

  task1, threads. \<open>SharedVars\<close> has \<open>mutex.c\<close> and \<open>nomutex.c\<close> at the level of loads and stores.
  \<open>Monitor\<close> is the loop of lock, condition wait, body, notification and unlock, with a locale for
  what it gives every program; \<open>CondVars\<close> instantiates it with \<open>condvar.c\<close> and \<open>prodcons.c\<close> and has the
  semaphore of \<open>semex.c\<close>. \<open>PrioInversion\<close> has the threads of \<open>working.c\<close> as sequences of calls and
  the two scenarios that start them, under any scheduler and under \<open>SCHED_FIFO\<close> on one processor
  with and without priority inheritance: termination, exclusion, and what becomes of the inversion.
  \<open>Intro\<close> is the state display of \<open>intro.c\<close>, whose third thread reads without the lock. \<open>Signals\<close> has the handlers of
  \<open>int.c\<close> and \<open>intsimple.c\<close> against their main loops.

  task2 and task6, time. \<open>Clock\<close> has the time values and all conversions; \<open>Periodic\<close> the sampling
  loops of \<open>calctime2.c\<close> and \<open>sched_fifo_jitter.c\<close>, the statistics, the percentile (with \<open>qsort\<close> as a
  parameter and the standard's promise as a hypothesis), \<open>jitter_benchmark.c\<close> and \<open>calctime1.c\<close>;
  \<open>RelativeSleep\<close> the branch of \<open>calctime2.c\<close> for other systems and main of \<open>calctime1.c\<close>; \<open>Averages\<close>
  the floating-point end of all of them and the lines they print (\<open>pow\<close> is a parameter with the
  accuracy glibc documents as a hypothesis);
  \<open>Timeouts\<close> the timer and the four timeout programs, \<open>CondTimeout\<close> the one on a condition variable
  with its two threads interleaved, which refines main of \<open>Timeouts\<close>, \<open>PollTimeout\<close> the one on
  \<open>poll\<close> with its writer thread and a clock, and \<open>MqTimeout\<close> the one on a message queue with its sender
  thread, a clock, and a queue that may hold messages of an earlier run.

  task3, communication. \<open>ShmRing\<close> is the ring buffer in shared memory with its two processes,
  statement by statement, refined to a bounded queue. \<open>MsgQueue\<close> has a POSIX message queue behind a
  locale, the upper-casing server, its client, and the drain loop of task2's \<open>mq_clean_burst.c\<close>.
  \<open>MqClients\<close> runs the server against any number of clients, system call by system call, with the
  answer queue's name and the queues behind it: what one client gets, why ten never block, how soon
  all ends, and what two clients do to each other.
  \<open>EpollServer\<close> is the edge-triggered echo server against peers that send, stop sending, reset and
  vanish: no byte is lost, a batch of events is worked off in order, and what a hang-up and a broken
  pipe do. \<open>EpollDrain\<close> has the server left alone with what has arrived: how many turns it takes to
  read everything and wait again, and the listener that cannot accept.
  \<open>IovDemo\<close> is the scatter-gather transfer.
  \<open>IpcMains\<close> has the main functions of these programs as traces of system calls: what they acquire
  and release on every way through.

  task4, input devices. \<open>InputDevices\<close> has \<open>read_input.c\<close> and \<open>poll_inputs.c\<close>: every event is reported
  once, in order, and what device names and unplugged devices do to the programs.

  Start-up. \<open>Startup\<close> has what the programs of task1, task2 and task6 ask of the scheduler and the
  terminal before their loops, what a refusal does, and that the terminal is restored.

  task7. \<open>Traffic\<close> is the traffic light controller as far as it is written, pass by pass;
  \<open>TrafficTimer\<close> has its statements against the timer and the signal handler, and refines the passes.

  State machines are inductive step relations over records; operations are executable functions,
  so the witnesses evaluate them. Nothing runs on fuel: loops are structural recursions over the
  list of what the environment answers, and a loop whose answers are used up is still waiting.

  The kernel, the threads library and the C library are modelled as their documents describe them:
  semaphores count, a lock has one owner, a condition wait may wake for nothing, an absolute sleep
  does not end before its deadline, a process that locks its memory loses no page.

  Not modelled. The verbose printing of the resource manager; the sines and cosines of
  \<open>jitter_benchmark.c\<close>, whose sum is not used; what a processor affinity does: the calls are there,
  their effect on timing is not; the cleanup behind the endless loops of the servers, which cannot be
  reached. The threads of \<open>prodcons.c\<close> are run as they are meant: its main, whose local variables hide
  the thread functions, has undefined start routines.
\<close>

section \<open>Time values across the components\<close>



end
